(* ===== verification/Prelude.thy ===== *)
theory Prelude
  imports Main "HOL-Library.Word"
begin

unbundle bit_operations_syntax

text \<open>
  The vocabulary shared by every component of the development: the machine integers of
  the kernel and of its user library, Rust panics as values, the state-and-panic functions
  in which the stateful code is written, their weakest preconditions, loops, and the
  generic lemmas on words and lists that the component proofs use.
\<close>

section \<open>Machine integers\<close>

text \<open>
  The target is \<^verbatim>\<open>aarch64-unknown-none\<close>, so \<^verbatim>\<open>usize\<close> has 64 bits. A signed
  \<^verbatim>\<open>i64\<close> is the same bit pattern as the \<^verbatim>\<open>u64\<close> it is cast from; \<open>sint\<close> reads it.
\<close>

type_synonym u8 = "8 word"
type_synonym u16 = "16 word"
type_synonym u32 = "32 word"
type_synonym u64 = "64 word"
type_synonym usize = "64 word"
type_synonym i64 = "64 word"

section \<open>Panics and stateful functions\<close>

text \<open>
  A panic halts the machine (\<^verbatim>\<open>panic = "abort"\<close>, and the handler of \<^verbatim>\<open>main.rs\<close> waits
  forever), so it is a final value: no code runs after it. \<open>ArithmeticOverflow\<close> is the
  overflow check of the dev profile, which \<^verbatim>\<open>cargo build\<close> and \<^verbatim>\<open>cargo run\<close> use.
  \<open>MemoryFault\<close> is a data abort taken at EL1, which \<^verbatim>\<open>report_and_halt\<close> turns into a halt.
\<close>

datatype panic =
    Expect string
  | Assertion string
  | IndexOutOfBounds
  | ArithmeticOverflow
  | MemoryFault

type_synonym ('s, 'a) kfn = "'s \<Rightarrow> panic + 'a \<times> 's"

definition k_return :: "'a \<Rightarrow> ('s, 'a) kfn" where
  "k_return x = (\<lambda>s. Inr (x, s))"

definition k_bind :: "('s, 'a) kfn \<Rightarrow> ('a \<Rightarrow> ('s, 'b) kfn) \<Rightarrow> ('s, 'b) kfn" where
  "k_bind m f = (\<lambda>s. case m s of Inl e \<Rightarrow> Inl e | Inr (x, s') \<Rightarrow> f x s')"

definition k_gets :: "('s \<Rightarrow> 'a) \<Rightarrow> ('s, 'a) kfn" where
  "k_gets f = (\<lambda>s. Inr (f s, s))"

definition k_modify :: "('s \<Rightarrow> 's) \<Rightarrow> ('s, unit) kfn" where
  "k_modify f = (\<lambda>s. Inr ((), f s))"

definition k_panic :: "panic \<Rightarrow> ('s, 'a) kfn" where
  "k_panic e = (\<lambda>s. Inl e)"

definition k_assert :: "bool \<Rightarrow> string \<Rightarrow> ('s, unit) kfn" where
  "k_assert b msg = (if b then k_return () else k_panic (Assertion msg))"

definition k_expect :: "string \<Rightarrow> 'a option \<Rightarrow> ('s, 'a) kfn" where
  "k_expect msg x = (case x of None \<Rightarrow> k_panic (Expect msg) | Some v \<Rightarrow> k_return v)"

definition k_when :: "bool \<Rightarrow> ('s, unit) kfn \<Rightarrow> ('s, unit) kfn" where
  "k_when b m = (if b then m else k_return ())"

text \<open>Indexing of a \<^verbatim>\<open>Vec\<close>, an array or a slice: out of range is a panic.\<close>

definition k_index :: "'a list \<Rightarrow> nat \<Rightarrow> ('s, 'a) kfn" where
  "k_index xs i = (if i < length xs then k_return (xs ! i) else k_panic IndexOutOfBounds)"

text \<open>The \<^verbatim>\<open>for\<close> loop over a list of values.\<close>

primrec k_for :: "'x list \<Rightarrow> ('x \<Rightarrow> ('s, unit) kfn) \<Rightarrow> ('s, unit) kfn" where
  "k_for [] f = k_return ()"
| "k_for (x # xs) f = k_bind (f x) (\<lambda>_. k_for xs f)"

section \<open>Checked arithmetic\<close>

definition checked_add :: "'a::len word \<Rightarrow> 'a word \<Rightarrow> 'a word option" where
  "checked_add a b = (if unat a + unat b < 2 ^ LENGTH('a) then Some (a + b) else None)"

definition k_add :: "'a::len word \<Rightarrow> 'a word \<Rightarrow> ('s, 'a word) kfn" where
  "k_add a b = (case checked_add a b of
      None \<Rightarrow> k_panic ArithmeticOverflow
    | Some c \<Rightarrow> k_return c)"

definition k_sub :: "'a::len word \<Rightarrow> 'a word \<Rightarrow> ('s, 'a word) kfn" where
  "k_sub a b = (if b \<le> a then k_return (a - b) else k_panic ArithmeticOverflow)"

definition k_mul :: "'a::len word \<Rightarrow> 'a word \<Rightarrow> ('s, 'a word) kfn" where
  "k_mul a b = (if unat a * unat b < 2 ^ LENGTH('a) then k_return (a * b)
     else k_panic ArithmeticOverflow)"

section \<open>Weakest preconditions\<close>

text \<open>
  \<open>wp m Q s\<close>: run from \<open>s\<close>, \<open>m\<close> returns without a panic and its result and final
  state satisfy \<open>Q\<close> (total correctness). \<open>wlp m Q s\<close> allows a panic. The rules of the
  collection \<open>wp_rules\<close> compute both by rewriting.
\<close>

definition wp :: "('s, 'a) kfn \<Rightarrow> ('a \<Rightarrow> 's \<Rightarrow> bool) \<Rightarrow> 's \<Rightarrow> bool" where
  "wp m Q s = (case m s of Inl e \<Rightarrow> False | Inr (x, s') \<Rightarrow> Q x s')"

definition wlp :: "('s, 'a) kfn \<Rightarrow> ('a \<Rightarrow> 's \<Rightarrow> bool) \<Rightarrow> 's \<Rightarrow> bool" where
  "wlp m Q s = (case m s of Inl e \<Rightarrow> True | Inr (x, s') \<Rightarrow> Q x s')"

named_theorems wp_rules

lemma wp_iff: "wp m Q s \<longleftrightarrow> (\<exists>x s'. m s = Inr (x, s') \<and> Q x s')"
  by (auto simp: wp_def split: sum.splits)

lemma wlp_iff: "wlp m Q s \<longleftrightarrow> (\<forall>x s'. m s = Inr (x, s') \<longrightarrow> Q x s')"
  by (auto simp: wlp_def split: sum.splits)

lemma wpI: "m s = Inr (x, s') \<Longrightarrow> Q x s' \<Longrightarrow> wp m Q s"
  by (simp add: wp_def)

lemma wpE:
  assumes "wp m Q s"
  obtains x s' where "m s = Inr (x, s')" and "Q x s'"
  using assms by (auto simp: wp_iff)

lemma wp_mono: "wp m Q s \<Longrightarrow> (\<And>x s'. m s = Inr (x, s') \<Longrightarrow> Q x s' \<Longrightarrow> R x s') \<Longrightarrow> wp m R s"
  by (auto simp: wp_iff)

lemma wlp_mono: "wlp m Q s \<Longrightarrow> (\<And>x s'. m s = Inr (x, s') \<Longrightarrow> Q x s' \<Longrightarrow> R x s') \<Longrightarrow> wlp m R s"
  by (auto simp: wlp_iff)

lemma wp_wlp: "wp m Q s \<Longrightarrow> wlp m Q s"
  by (auto simp: wp_iff wlp_iff)

lemma wp_conj: "wp m Q s \<Longrightarrow> wlp m R s \<Longrightarrow> wp m (\<lambda>x s'. Q x s' \<and> R x s') s"
  by (auto simp: wp_iff wlp_iff)

lemma wp_return [wp_rules]: "wp (k_return x) Q = (\<lambda>s. Q x s)"
  by (rule ext) (simp add: wp_def k_return_def)

lemma wp_bind [wp_rules]: "wp (k_bind m f) Q = (\<lambda>s. wp m (\<lambda>x. wp (f x) Q) s)"
  by (rule ext) (auto simp: wp_def k_bind_def split: sum.splits)

lemma wp_gets [wp_rules]: "wp (k_gets f) Q = (\<lambda>s. Q (f s) s)"
  by (rule ext) (simp add: wp_def k_gets_def)

lemma wp_modify [wp_rules]: "wp (k_modify f) Q = (\<lambda>s. Q () (f s))"
  by (rule ext) (simp add: wp_def k_modify_def)

lemma wp_panic [wp_rules]: "wp (k_panic e) Q = (\<lambda>s. False)"
  by (rule ext) (simp add: wp_def k_panic_def)

lemma wp_assert [wp_rules]: "wp (k_assert b msg) Q = (\<lambda>s. b \<and> Q () s)"
  by (rule ext) (simp add: k_assert_def wp_rules)

lemma wp_expect [wp_rules]: "wp (k_expect msg x) Q = (\<lambda>s. \<exists>v. x = Some v \<and> Q v s)"
  by (rule ext) (simp add: k_expect_def wp_rules split: option.splits)

lemma wp_when [wp_rules]: "wp (k_when b m) Q = (\<lambda>s. if b then wp m Q s else Q () s)"
  by (rule ext) (simp add: k_when_def wp_rules)

lemma wp_index [wp_rules]: "wp (k_index xs i) Q = (\<lambda>s. i < length xs \<and> Q (xs ! i) s)"
  by (rule ext) (simp add: k_index_def wp_rules)

lemma wp_if [wp_rules]: "wp (if b then m else n) Q = (\<lambda>s. if b then wp m Q s else wp n Q s)"
  by (rule ext) simp

lemma wp_add [wp_rules]:
  "wp (k_add a b) Q = (\<lambda>s. unat a + unat b < 2 ^ LENGTH('a) \<and> Q (a + b) s)"
  for a b :: "'a::len word"
  by (rule ext) (simp add: k_add_def checked_add_def wp_rules)

lemma wp_sub [wp_rules]: "wp (k_sub a b) Q = (\<lambda>s. b \<le> a \<and> Q (a - b) s)"
  by (rule ext) (simp add: k_sub_def wp_rules)

lemma wp_mul [wp_rules]:
  "wp (k_mul a b) Q = (\<lambda>s. unat a * unat b < 2 ^ LENGTH('a) \<and> Q (a * b) s)"
  for a b :: "'a::len word"
  by (rule ext) (simp add: k_mul_def wp_rules)

lemma wlp_return [wp_rules]: "wlp (k_return x) Q = (\<lambda>s. Q x s)"
  by (rule ext) (simp add: wlp_def k_return_def)

lemma wlp_bind [wp_rules]: "wlp (k_bind m f) Q = (\<lambda>s. wlp m (\<lambda>x. wlp (f x) Q) s)"
  by (rule ext) (auto simp: wlp_def k_bind_def split: sum.splits)

lemma wlp_gets [wp_rules]: "wlp (k_gets f) Q = (\<lambda>s. Q (f s) s)"
  by (rule ext) (simp add: wlp_def k_gets_def)

lemma wlp_modify [wp_rules]: "wlp (k_modify f) Q = (\<lambda>s. Q () (f s))"
  by (rule ext) (simp add: wlp_def k_modify_def)

lemma wlp_panic [wp_rules]: "wlp (k_panic e) Q = (\<lambda>s. True)"
  by (rule ext) (simp add: wlp_def k_panic_def)

lemma wlp_assert [wp_rules]: "wlp (k_assert b msg) Q = (\<lambda>s. b \<longrightarrow> Q () s)"
  by (rule ext) (simp add: k_assert_def wp_rules)

lemma wlp_expect [wp_rules]: "wlp (k_expect msg x) Q = (\<lambda>s. \<forall>v. x = Some v \<longrightarrow> Q v s)"
  by (rule ext) (simp add: k_expect_def wp_rules split: option.splits)

lemma wlp_when [wp_rules]: "wlp (k_when b m) Q = (\<lambda>s. if b then wlp m Q s else Q () s)"
  by (rule ext) (simp add: k_when_def wp_rules)

lemma wlp_index [wp_rules]: "wlp (k_index xs i) Q = (\<lambda>s. i < length xs \<longrightarrow> Q (xs ! i) s)"
  by (rule ext) (simp add: k_index_def wp_rules)

lemma wlp_if [wp_rules]: "wlp (if b then m else n) Q = (\<lambda>s. if b then wlp m Q s else wlp n Q s)"
  by (rule ext) simp

text \<open>Sequencing when the first operation is known to return.\<close>

lemma wp_seq: "m s = Inr (x, s') \<Longrightarrow> wp (f x) Q s' \<Longrightarrow> wp (k_bind m f) Q s"
  by (simp add: wp_def k_bind_def)

lemma wp_chain: "wp m P s \<Longrightarrow> (\<And>x s'. m s = Inr (x, s') \<Longrightarrow> P x s' \<Longrightarrow> wp (f x) Q s') \<Longrightarrow> wp (k_bind m f) Q s"
  unfolding wp_bind by (rule wp_mono)

lemma k_bind_assoc: "k_bind (k_bind m f) g = k_bind m (\<lambda>x. k_bind (f x) g)"
  by (auto simp: k_bind_def fun_eq_iff split: sum.splits)

text \<open>Equations that run a function forwards, for evaluation on a concrete state.\<close>

named_theorems run_simps

lemma run_return [run_simps]: "k_return x s = Inr (x, s)"
  by (simp add: k_return_def)

lemma run_bind [run_simps]:
  "k_bind m f s = (case m s of Inl e \<Rightarrow> Inl e | Inr (x, s') \<Rightarrow> f x s')"
  by (simp add: k_bind_def)

lemma run_gets [run_simps]: "k_gets f s = Inr (f s, s)"
  by (simp add: k_gets_def)

lemma run_modify [run_simps]: "k_modify f s = Inr ((), f s)"
  by (simp add: k_modify_def)

lemma run_panic [run_simps]: "k_panic e s = Inl e"
  by (simp add: k_panic_def)

lemma run_assert [run_simps]: "k_assert b msg s = (if b then Inr ((), s) else Inl (Assertion msg))"
  by (simp add: k_assert_def run_simps)

lemma run_expect [run_simps]:
  "k_expect msg x s = (case x of None \<Rightarrow> Inl (Expect msg) | Some v \<Rightarrow> Inr (v, s))"
  by (simp add: k_expect_def run_simps split: option.splits)

lemma expect_some: "k_expect msg (Some v) s = Inr (v, s)"
  by (simp add: run_expect)

lemma assert_true: "b \<Longrightarrow> k_assert b msg s = Inr ((), s)"
  by (simp add: run_assert)

lemma run_when [run_simps]: "k_when b m s = (if b then m s else Inr ((), s))"
  by (simp add: k_when_def run_simps)

lemma run_index [run_simps]:
  "k_index xs i s = (if i < length xs then Inr (xs ! i, s) else Inl IndexOutOfBounds)"
  by (simp add: k_index_def run_simps)

lemma run_add [run_simps]:
  "k_add a b s = (if unat a + unat b < 2 ^ LENGTH('a) then Inr (a + b, s)
     else Inl ArithmeticOverflow)"
  for a b :: "'a::len word"
  by (simp add: k_add_def checked_add_def run_simps)

lemma run_sub [run_simps]:
  "k_sub a b s = (if b \<le> a then Inr (a - b, s) else Inl ArithmeticOverflow)"
  by (simp add: k_sub_def run_simps)

lemma run_mul [run_simps]:
  "k_mul a b s = (if unat a * unat b < 2 ^ LENGTH('a) then Inr (a * b, s)
     else Inl ArithmeticOverflow)"
  for a b :: "'a::len word"
  by (simp add: k_mul_def run_simps)

subsection \<open>Loops\<close>

text \<open>
  The invariant of a \<^verbatim>\<open>for\<close> loop is indexed by the elements already visited.
\<close>

lemma wp_for_gen:
  assumes "\<And>pre x post t. xs = pre @ x # post \<Longrightarrow> I (done @ pre) t \<Longrightarrow>
      wp (f x) (\<lambda>_. I (done @ pre @ [x])) t"
    and "I done s"
  shows "wp (k_for xs f) (\<lambda>_. I (done @ xs)) s"
  using assms
proof (induction xs arbitrary: "done" s)
  case Nil
  then show ?case by (simp add: wp_rules)
next
  case (Cons y ys)
  have step: "wp (f y) (\<lambda>_. I (done @ [y])) s"
    using Cons.prems(1)[of "[]" y ys s] Cons.prems(2) by simp
  show ?case
    unfolding k_for.simps wp_bind
  proof (rule wp_mono[OF step])
    fix u t assume I: "I (done @ [y]) t"
    have "wp (k_for ys f) (\<lambda>_. I ((done @ [y]) @ ys)) t"
    proof (rule Cons.IH)
      show "wp (f x) (\<lambda>_. I ((done @ [y]) @ pre @ [x])) t'"
        if "ys = pre @ x # post" and "I ((done @ [y]) @ pre) t'" for pre x post t'
        using Cons.prems(1)[of "y # pre" x post t'] that by simp
    qed (rule I)
    then show "wp (k_for ys f) (\<lambda>_. I (done @ y # ys)) t" by simp
  qed
qed

lemma wp_for:
  assumes "\<And>pre x post t. xs = pre @ x # post \<Longrightarrow> I pre t \<Longrightarrow> wp (f x) (\<lambda>_. I (pre @ [x])) t"
    and "I [] s"
  shows "wp (k_for xs f) (\<lambda>_. I xs) s"
  using wp_for_gen[of xs I "[]" f s] assms by simp

lemma k_for_append: "k_for (xs @ ys) f = k_bind (k_for xs f) (\<lambda>_. k_for ys f)"
  by (induction xs) (auto simp: k_bind_def k_return_def fun_eq_iff split: sum.splits)

lemma k_for_modify:
  "k_for xs (\<lambda>x. k_modify (g x)) s = Inr ((), fold g xs s)"
  by (induction xs arbitrary: s) (simp_all add: run_simps)

section \<open>Words: page alignment and table slots\<close>

text \<open>
  A page table and a frame are 4 KiB aligned; slot \<open>i\<close> of the table at \<open>t\<close> is the eight
  bytes at \<open>t + 8 * i\<close> (\<^verbatim>\<open>table.add(i)\<close> on a \<^verbatim>\<open>*mut u64\<close>).
\<close>

definition page_aligned :: "u64 \<Rightarrow> bool" where
  "page_aligned a \<longleftrightarrow> a AND 0xFFF = 0"

lemma mask_0xFFF: "(0xFFF :: u64) = mask 12" 
  by (simp add: mask_eq_exp_minus_1)

lemma mask_0x1FF: "(0x1FF :: u64) = mask 9" 
  by (simp add: mask_eq_exp_minus_1)

lemma page_aligned_bit: "page_aligned a \<Longrightarrow> n < 12 \<Longrightarrow> \<not> bit a n"
proof -
  assume "page_aligned a" "n < 12"
  then have "\<not> bit (a AND 0xFFF) n" by (simp add: page_aligned_def)
  with \<open>n < 12\<close> show ?thesis by (simp add: mask_0xFFF bit_simps)
qed

lemma take_bit_word_self: "unat (x :: 'a::len word) < 2 ^ n \<Longrightarrow> take_bit n x = x"
  by (simp add: word_unat_eq_iff unsigned_take_bit_eq take_bit_nat_eq_self)

lemma lt_4096_bit: "(x :: u64) < 0x1000 \<Longrightarrow> 12 \<le> n \<Longrightarrow> \<not> bit x n"
proof -
  assume x: "x < 0x1000" "12 \<le> n"
  then have "take_bit 12 x = x"
    by (intro take_bit_word_self) (simp add: word_less_nat_alt)
  with x show ?thesis by (metis bit_take_bit_iff not_less)
qed

lemma page_aligned_add_or: "page_aligned t \<Longrightarrow> x < 0x1000 \<Longrightarrow> t + x = t OR x"
  by (rule disjunctive_add) (metis lt_4096_bit page_aligned_bit not_less)

lemma page_aligned_add_off: 
  assumes "page_aligned t" "x < 0x1000" shows "(t + x) AND 0xFFF = x"
  unfolding page_aligned_add_or[OF assms]
  by (rule bit_word_eqI) (use assms in \<open>auto simp: bit_simps mask_0xFFF dest: lt_4096_bit page_aligned_bit\<close>, metis lt_4096_bit not_less)
  

lemma page_aligned_add_page: 
  assumes "page_aligned t" "x < 0x1000" shows "(t + x) AND NOT 0xFFF = t"
  unfolding page_aligned_add_or[OF assms]
  by (rule bit_word_eqI) (use assms in \<open>auto simp: bit_simps mask_0xFFF dest: lt_4096_bit page_aligned_bit\<close>, metis lt_4096_bit not_less)

lemma and_0x1FF_less: "(x :: u64) AND 0x1FF < 0x200"
proof -
  have "x AND 0x1FF \<le> 0x1FF" by (rule word_and_le1)
  then show ?thesis by (rule order.strict_trans1) simp
qed

lemma unat_eight_mult: "(i :: u64) < 0x200 \<Longrightarrow> unat (8 * i) = 8 * unat i"
  by (simp add: unat_word_ariths word_less_nat_alt)

lemma eight_mult_less: "(i :: u64) < 0x200 \<Longrightarrow> 8 * i < 0x1000"
  by (simp add: word_less_nat_alt unat_eight_mult)

lemma eight_mult_eq: "(i :: u64) < 0x200 \<Longrightarrow> j < 0x200 \<Longrightarrow> 8 * i = 8 * j \<longleftrightarrow> i = j"
  by (simp add: word_unat_eq_iff unat_eight_mult)
definition tadd :: "usize \<Rightarrow> usize \<Rightarrow> usize" where
  "tadd t i = t + 8 * i"

lemma tadd_eq_iff:
  assumes "page_aligned t" "page_aligned t'" "i < 0x200" "j < 0x200"
  shows "tadd t i = tadd t' j \<longleftrightarrow> t = t' \<and> i = j"
  by (metis assms eight_mult_eq eight_mult_less page_aligned_add_off page_aligned_add_page tadd_def)

lemma unat_plus_1: "unat (i + 1) = unat i + 1" if "i < n" for i n :: "'a::len word"
proof -
  have "unat i + unat (1 :: 'a word) < 2 ^ LENGTH('a)"
    by (rule order.strict_trans1[OF _ unsigned_less[of n]])
      (use that in \<open>simp add: word_less_nat_alt\<close>)
  then show ?thesis by (simp add: unat_word_ariths)
qed

lemma plus_1_le_iff: "i < n \<Longrightarrow> i + 1 \<le> k \<longleftrightarrow> i < k" for i n k :: "'a::len word"
  by (auto simp: word_le_nat_alt word_less_nat_alt unat_plus_1[of i n])

lemma unat_no_wrap: "unat (a + k) = unat a + unat k"
  if "unat a + unat n \<le> 2 ^ 64" "k < n" for a k n :: usize
  using that by (simp add: unat_word_ariths word_less_nat_alt)

lemma page_aligned_iff_mod: "page_aligned a \<longleftrightarrow> unat a mod 4096 = 0"
proof -
  have "a AND 0xFFF = take_bit 12 a" by (simp add: mask_0xFFF take_bit_eq_mask)
  then show ?thesis
    by (simp add: page_aligned_def word_unat_eq_iff unsigned_take_bit_eq take_bit_eq_mod unat_mod)
qed

lemma and_not_mask_minus: "(x :: u64) AND NOT m = x - (x AND m)"
proof -
  have "x - (x AND m) = x AND NOT (x AND m)" by (rule disjunctive_diff) (simp add: bit_and_iff)
  also have "\<dots> = x AND NOT m" by (rule bit_word_eqI) (auto simp: bit_simps)
  finally show ?thesis by simp
qed

lemma unat_and_0xFFF: "unat ((x :: u64) AND 0xFFF) = unat x mod 4096"
proof -
  have "x AND 0xFFF = take_bit 12 x" by (simp add: mask_0xFFF take_bit_eq_mask)
  then show ?thesis by (simp add: unsigned_take_bit_eq take_bit_eq_mod unat_mod)
qed

lemma unat_and_not_0xFFF: "unat ((x :: u64) AND NOT 0xFFF) = unat x - unat x mod 4096"
proof -
  have "x AND 0xFFF \<le> x" by (rule word_and_le2)
  then show ?thesis by (simp only: and_not_mask_minus unat_sub unat_and_0xFFF)
qed

lemma page_less_iff:
  "a < b \<longleftrightarrow> a + 4096 \<le> b" if "a mod 4096 = 0" "b mod 4096 = 0" for a b :: nat
proof -
  from that obtain i j where "a = 4096 * i" "b = 4096 * j" by (metis mod_0_imp_dvd dvdE)
  then show ?thesis by (auto simp flip: mult_Suc_right simp: Suc_le_eq)
qed

text \<open>The page an address lies in.\<close>

definition page_of :: "usize \<Rightarrow> usize" where
  "page_of a = a AND NOT 0xFFF"

lemma page_of_add: "page_aligned t \<Longrightarrow> x < 0x1000 \<Longrightarrow> page_of (t + x) = t"
  unfolding page_of_def by (rule page_aligned_add_page)

lemma page_of_aligned [simp]: "page_aligned t \<Longrightarrow> page_of t = t"
  using page_of_add[of t 0] by simp

lemma page_of_tadd [simp]: "page_aligned t \<Longrightarrow> i < 0x200 \<Longrightarrow> page_of (tadd t i) = t"
  by (simp add: tadd_def page_of_add eight_mult_less)

end
