(* ===== verification/Machine.thy ===== *)
theory Machine
  imports Prelude
begin

unbundle bit_operations_syntax

text \<open>
  The machine below the kernel: physical memory, the system registers the kernel
  programs, the memory primitives of \<^verbatim>\<open>kernel/src/mem.rs\<close> and the interrupt-mask
  helpers of \<^verbatim>\<open>kernel/src/irq.rs\<close>.
  Memory is kept in eight-byte cells indexed by the address of their first byte, since
  every 64-bit access of the kernel (page-table slots, free-list links, ring fields) is
  aligned; byte and 32-bit accesses read and write part of a cell, in little-endian order.
\<close>

section \<open>Physical memory\<close>

type_synonym memory = "usize \<Rightarrow> u64"

definition cell :: "usize \<Rightarrow> usize" where
  "cell a = a AND NOT 7"

definition get_byte :: "nat \<Rightarrow> u64 \<Rightarrow> u8" where
  "get_byte k w = ucast (drop_bit k w)"

definition set_byte :: "nat \<Rightarrow> u8 \<Rightarrow> u64 \<Rightarrow> u64" where
  "set_byte k b w = (w AND NOT (push_bit k 0xFF)) OR push_bit k (ucast b)"

definition get_half :: "nat \<Rightarrow> u64 \<Rightarrow> u32" where
  "get_half k w = ucast (drop_bit k w)"

definition set_half :: "nat \<Rightarrow> u32 \<Rightarrow> u64 \<Rightarrow> u64" where
  "set_half k v w = (w AND NOT (push_bit k 0xFFFFFFFF)) OR push_bit k (ucast v)"

definition ld8 :: "memory \<Rightarrow> usize \<Rightarrow> u8" where
  "ld8 m a = get_byte (8 * unat (a AND 7)) (m (cell a))"

definition st8 :: "memory \<Rightarrow> usize \<Rightarrow> u8 \<Rightarrow> memory" where
  "st8 m a b = m(cell a := set_byte (8 * unat (a AND 7)) b (m (cell a)))"

text \<open>A 32-bit access is four-byte aligned, so it is the low or the high half of a cell.\<close>

definition ld32 :: "memory \<Rightarrow> usize \<Rightarrow> u32" where
  "ld32 m a = get_half (8 * unat (a AND 4)) (m (cell a))"

definition st32 :: "memory \<Rightarrow> usize \<Rightarrow> u32 \<Rightarrow> memory" where
  "st32 m a v = m(cell a := set_half (8 * unat (a AND 4)) v (m (cell a)))"

lemma cell_split: "a = (cell a) OR (a AND 7)"
  by (rule bit_word_eqI) (auto simp: cell_def bit_simps)

lemma mask_7: "(7 :: u64) = mask 3"
  by (simp add: mask_eq_exp_minus_1)

lemma page_of_cell: "page_of (cell a) = page_of a"
  unfolding page_of_def cell_def mask_0xFFF mask_7
  by (rule bit_word_eqI) (auto simp: bit_simps)

lemma mask_0xFF: "(0xFF :: u64) = mask 8"
  by (simp add: mask_eq_exp_minus_1)

lemma mask_0xFFFFFFFF: "(0xFFFFFFFF :: u64) = mask 32"
  by (simp add: mask_eq_exp_minus_1)

lemma bit_get_byte: "bit (get_byte k w) n \<longleftrightarrow> n < 8 \<and> bit w (k + n)"
  by (auto simp: get_byte_def bit_simps add.commute)

lemma bit_set_byte:
  "bit (set_byte k b w) n \<longleftrightarrow>
     n < 64 \<and> (if k \<le> n \<and> n < k + 8 then bit b (n - k) else bit w n)"
  unfolding set_byte_def mask_0xFF
  by (auto simp: bit_simps dest: bit_imp_le_length)

lemma bit_get_half: "bit (get_half k w) n \<longleftrightarrow> n < 32 \<and> bit w (k + n)"
  by (auto simp: get_half_def bit_simps add.commute)

lemma bit_set_half:
  "bit (set_half k v w) n \<longleftrightarrow>
     n < 64 \<and> (if k \<le> n \<and> n < k + 32 then bit v (n - k) else bit w n)"
  unfolding set_half_def mask_0xFFFFFFFF
  by (auto simp: bit_simps dest: bit_imp_le_length)

lemma get_set_byte_same: "k \<le> 56 \<Longrightarrow> get_byte k (set_byte k b w) = b"
  by (rule bit_word_eqI) (simp add: bit_get_byte bit_set_byte)

lemma get_set_byte_other:
  "j + 8 \<le> k \<or> k + 8 \<le> j \<Longrightarrow> get_byte j (set_byte k b w) = get_byte j w"
  by (rule bit_word_eqI) (auto simp: bit_get_byte bit_set_byte dest: bit_imp_le_length)

lemma get_set_half_same: "k \<le> 32 \<Longrightarrow> get_half k (set_half k v w) = v"
  by (rule bit_word_eqI) (simp add: bit_get_half bit_set_half)

lemma get_set_half_other:
  "j + 32 \<le> k \<or> k + 32 \<le> j \<Longrightarrow> get_half j (set_half k v w) = get_half j w"
  by (rule bit_word_eqI) (auto simp: bit_get_half bit_set_half dest: bit_imp_le_length)

lemma unat_and_7: "unat ((a :: usize) AND 7) \<le> 7"
  using word_and_le1[of a 7] by (simp add: word_le_nat_alt)

lemma bit_int_4: "bit (4 :: int) n \<longleftrightarrow> n = 2"
  using bit_exp_iff[where 'a = int and m = 2 and n = n] by auto

lemma and_4: "(a :: usize) AND 4 = (if bit a 2 then 4 else 0)"
  by (rule bit_word_eqI) (auto simp: bit_and_iff bit_int_4)

lemma and_4_cases: "(a :: usize) AND 4 = 0 \<or> a AND 4 = 4"
  by (simp add: and_4)

lemma ld8_st8: "ld8 (st8 m a b) c = (if a = c then b else ld8 m c)"
proof (cases "a = c")
  case True
  then show ?thesis
    using unat_and_7[of c] by (simp add: ld8_def st8_def get_set_byte_same)
next
  case False
  show ?thesis
  proof (cases "cell a = cell c")
    case True
    with False have "a AND 7 \<noteq> c AND 7" using cell_split by metis
    then have "unat (a AND 7) \<noteq> unat (c AND 7)" by (simp add: word_unat_eq_iff)
    then have "8 * unat (c AND 7) + 8 \<le> 8 * unat (a AND 7)
        \<or> 8 * unat (a AND 7) + 8 \<le> 8 * unat (c AND 7)"
      by arith
    then show ?thesis
      using True False by (simp add: ld8_def st8_def get_set_byte_other)
  next
    case False
    then show ?thesis by (auto simp: ld8_def st8_def)
  qed
qed

lemma st8_cell_other: "cell a \<noteq> c \<Longrightarrow> st8 m a b c = m c"
  by (simp add: st8_def)

lemma ld32_st32_same: "ld32 (st32 m a v) a = v"
  using and_4_cases[of a] by (auto simp: ld32_def st32_def get_set_half_same)

lemma ld32_st32_other:
  "cell a \<noteq> cell c \<or> a AND 4 \<noteq> c AND 4 \<Longrightarrow> ld32 (st32 m a v) c = ld32 m c"
  using and_4_cases[of a] and_4_cases[of c]
  by (auto simp: ld32_def st32_def get_set_half_other)

lemma st32_cell_other: "cell a \<noteq> c \<Longrightarrow> st32 m a v c = m c"
  by (simp add: st32_def)

section \<open>The freestanding memory primitives\<close>

text \<open>
  The loops of \<^verbatim>\<open>memcpy\<close>, \<^verbatim>\<open>memset\<close>, \<^verbatim>\<open>memmove\<close> and \<^verbatim>\<open>memcmp\<close>. The index is the
  \<^verbatim>\<open>usize\<close> counter of the source; the pointers are the addresses.
\<close>

function memcpy_loop :: "usize \<Rightarrow> usize \<Rightarrow> usize \<Rightarrow> usize \<Rightarrow> memory \<Rightarrow> memory" where
  "memcpy_loop dest src n i m =
     (if i < n then memcpy_loop dest src n (i + 1) (st8 m (dest + i) (ld8 m (src + i))) else m)"
  by pat_completeness auto
termination
  by (relation "measure (\<lambda>(dest, src, n, i, m). unat n - unat i)")
    (auto simp: unat_plus_1 word_less_nat_alt)

definition memcpy :: "usize \<Rightarrow> usize \<Rightarrow> usize \<Rightarrow> memory \<Rightarrow> memory" where
  "memcpy dest src n m = memcpy_loop dest src n 0 m"

function memset_loop :: "usize \<Rightarrow> u8 \<Rightarrow> usize \<Rightarrow> usize \<Rightarrow> memory \<Rightarrow> memory" where
  "memset_loop dest byte n i m =
     (if i < n then memset_loop dest byte n (i + 1) (st8 m (dest + i) byte) else m)"
  by pat_completeness auto
termination
  by (relation "measure (\<lambda>(dest, byte, n, i, m). unat n - unat i)")
    (auto simp: unat_plus_1 word_less_nat_alt)

definition memset :: "usize \<Rightarrow> u32 \<Rightarrow> usize \<Rightarrow> memory \<Rightarrow> memory" where
  "memset dest val n m = memset_loop dest (ucast val) n 0 m"

function memmove_back :: "usize \<Rightarrow> usize \<Rightarrow> usize \<Rightarrow> memory \<Rightarrow> memory" where
  "memmove_back dest src i m =
     (if 0 < i then memmove_back dest src (i - 1) (st8 m (dest + (i - 1)) (ld8 m (src + (i - 1))))
      else m)"
  by pat_completeness auto
termination
  by (relation "measure (\<lambda>(dest, src, i, m). unat i)") (auto simp: measure_unat)

definition memmove :: "usize \<Rightarrow> usize \<Rightarrow> usize \<Rightarrow> memory \<Rightarrow> memory" where
  "memmove dest src n m =
     (if src < dest then memmove_back dest src n m else memcpy_loop dest src n 0 m)"

function memcmp_loop :: "usize \<Rightarrow> usize \<Rightarrow> usize \<Rightarrow> usize \<Rightarrow> memory \<Rightarrow> u32" where
  "memcmp_loop a b n i m =
     (if i < n then
        (let x = ld8 m (a + i); y = ld8 m (b + i) in
         if x \<noteq> y then ucast x - ucast y else memcmp_loop a b n (i + 1) m)
      else 0)"
  by pat_completeness auto
termination
  by (relation "measure (\<lambda>(a, b, n, i, m). unat n - unat i)")
    (auto simp: unat_plus_1 word_less_nat_alt)

definition memcmp :: "usize \<Rightarrow> usize \<Rightarrow> usize \<Rightarrow> memory \<Rightarrow> u32" where
  "memcmp a b n m = memcmp_loop a b n 0 m"

declare memcpy_loop.simps [simp del] memset_loop.simps [simp del]
  memmove_back.simps [simp del] memcmp_loop.simps [simp del]

text \<open>
  Each loop by computation induction: what every byte of the target holds afterwards,
  and that no other byte changed. A forward copy is correct when no byte it has written
  is read later, a backward copy when the mirrored condition holds.
\<close>

lemma memcpy_loop_spec:
  assumes nover: "\<And>j k. j < k \<Longrightarrow> k < n \<Longrightarrow> dest + j \<noteq> src + k"
  shows "(\<forall>k. i \<le> k \<longrightarrow> k < n \<longrightarrow> ld8 (memcpy_loop dest src n i m) (dest + k) = ld8 m (src + k)) \<and>
    (\<forall>a. (\<forall>k. i \<le> k \<longrightarrow> k < n \<longrightarrow> a \<noteq> dest + k) \<longrightarrow> ld8 (memcpy_loop dest src n i m) a = ld8 m a)"
  using nover
proof (induction dest src n i m rule: memcpy_loop.induct)
  case (1 dest src n i m)
  show ?case
  proof (cases "i < n")
    case True
    note IH = "1.IH"[OF True "1.prems"]
    have le: "i \<le> k \<longleftrightarrow> k = i \<or> i + 1 \<le> k" for k
      using plus_1_le_iff[OF True, of k] by auto
    have unf: "memcpy_loop dest src n i m
        = memcpy_loop dest src n (i + 1) (st8 m (dest + i) (ld8 m (src + i)))"
      by (subst memcpy_loop.simps) (simp add: True)
    have "ld8 (memcpy_loop dest src n i m) (dest + i) = ld8 m (src + i)"
      unfolding unf by (subst IH[THEN conjunct2, rule_format])
        (auto simp: ld8_st8 plus_1_le_iff[OF True])
    with True "1.prems" IH show ?thesis
      unfolding unf le by (auto simp: ld8_st8 plus_1_le_iff[OF True])
  next
    case False
    then show ?thesis by (auto simp: memcpy_loop.simps)
  qed
qed

lemma memset_loop_spec:
  shows "(\<forall>k. i \<le> k \<longrightarrow> k < n \<longrightarrow> ld8 (memset_loop dest b n i m) (dest + k) = b) \<and>
    (\<forall>a. (\<forall>k. i \<le> k \<longrightarrow> k < n \<longrightarrow> a \<noteq> dest + k) \<longrightarrow> ld8 (memset_loop dest b n i m) a = ld8 m a)"
proof (induction dest b n i m rule: memset_loop.induct)
  case (1 dest b n i m)
  show ?case
  proof (cases "i < n")
    case True
    note IH = "1.IH"[OF True]
    have le: "i \<le> k \<longleftrightarrow> k = i \<or> i + 1 \<le> k" for k
      using plus_1_le_iff[OF True, of k] by auto
    have unf: "memset_loop dest b n i m = memset_loop dest b n (i + 1) (st8 m (dest + i) b)"
      by (subst memset_loop.simps) (simp add: True)
    have "ld8 (memset_loop dest b n i m) (dest + i) = b"
      unfolding unf by (subst IH[THEN conjunct2, rule_format])
        (auto simp: ld8_st8 plus_1_le_iff[OF True])
    with True IH show ?thesis
      unfolding unf le by (auto simp: ld8_st8 plus_1_le_iff[OF True])
  next
    case False
    then show ?thesis by (auto simp: memset_loop.simps)
  qed
qed

lemma memmove_back_spec:
  assumes nover: "\<And>j k. j < k \<Longrightarrow> k < n \<Longrightarrow> dest + k \<noteq> src + j" and "i \<le> n"
  shows "(\<forall>k. k < i \<longrightarrow> ld8 (memmove_back dest src i m) (dest + k) = ld8 m (src + k)) \<and>
    (\<forall>a. (\<forall>k. k < i \<longrightarrow> a \<noteq> dest + k) \<longrightarrow> ld8 (memmove_back dest src i m) a = ld8 m a)"
  using assms
proof (induction dest src i m rule: memmove_back.induct)
  case (1 dest src i m)
  show ?case
  proof (cases "0 < i")
    case True
    then have le: "k < i \<longleftrightarrow> k = i - 1 \<or> k < i - 1" for k by unat_arith
    have "i - 1 \<le> n" "i - 1 < n" using True "1.prems"(2) by unat_arith+
    note IH = "1.IH"[OF True "1.prems"(1) \<open>i - 1 \<le> n\<close>]
    have unf: "memmove_back dest src i m
        = memmove_back dest src (i - 1) (st8 m (dest + (i - 1)) (ld8 m (src + (i - 1))))"
      by (subst memmove_back.simps) (simp add: True)
    have keep: "dest + (i - 1) \<noteq> src + k" if "k < i - 1" for k
      using "1.prems"(1)[OF that \<open>i - 1 < n\<close>] .
    have "ld8 (memmove_back dest src i m) (dest + (i - 1)) = ld8 m (src + (i - 1))"
      unfolding unf by (subst IH[THEN conjunct2, rule_format]) (auto simp: ld8_st8)
    with IH keep show ?thesis
      unfolding unf le by (auto simp: ld8_st8)
  next
    case False
    then have "i = 0" by (simp add: word_gt_0)
    then show ?thesis by (auto simp: memmove_back.simps)
  qed
qed

lemma unat_ucast_u8: "unat (ucast (x :: u8) :: u32) = unat x"
  using unsigned_less[of x, where 'a = nat]
  by (simp add: unsigned_ucast_eq take_bit_nat_eq_self del: unsigned_less)

lemma memcmp_loop_zero:
  "memcmp_loop a b n i m = 0 \<longleftrightarrow> (\<forall>k. i \<le> k \<longrightarrow> k < n \<longrightarrow> ld8 m (a + k) = ld8 m (b + k))"
proof (induction a b n i m rule: memcmp_loop.induct)
  case (1 a b n i m)
  show ?case
  proof (cases "i < n")
    case True
    have le: "i \<le> k \<longleftrightarrow> k = i \<or> i + 1 \<le> k" for k
      using plus_1_le_iff[OF True, of k] by auto
    have unf: "memcmp_loop a b n i m = (if ld8 m (a + i) \<noteq> ld8 m (b + i)
        then ucast (ld8 m (a + i)) - ucast (ld8 m (b + i)) else memcmp_loop a b n (i + 1) m)"
      by (subst memcmp_loop.simps) (simp add: True Let_def)
    show ?thesis
    proof (cases "ld8 m (a + i) = ld8 m (b + i)")
      case eq: True
      show ?thesis unfolding unf le using "1.IH"[OF True refl refl] eq by auto
    next
      case False
      then have "(ucast (ld8 m (a + i)) :: u32) \<noteq> ucast (ld8 m (b + i))"
        by (metis unat_ucast_u8 word_unat_eq_iff)
      with True False show ?thesis unfolding unf by auto
    qed
  next
    case False
    then show ?thesis by (auto simp: memcmp_loop.simps)
  qed
qed

text \<open>
  C23. memmove copies the source bytes to the destination for every overlap of the two ranges
  and changes no byte outside the destination.
\<close>

theorem memmove_correct:
  assumes src: "unat src + unat n \<le> 2 ^ 64" and dest: "unat dest + unat n \<le> 2 ^ 64"
  shows "(\<forall>k<n. ld8 (memmove dest src n m) (dest + k) = ld8 m (src + k)) \<and>
    (\<forall>a. (\<forall>k<n. a \<noteq> dest + k) \<longrightarrow> ld8 (memmove dest src n m) a = ld8 m a)"
proof (cases "src < dest")
  case True
  have "dest + k \<noteq> src + j" if "j < k" "k < n" for j k
  proof -
    have "j < n" using that by simp
    then have "unat (src + j) < unat (dest + k)"
      using True that src dest
      by (simp add: unat_no_wrap[of _ n] word_less_nat_alt)
    then show ?thesis by auto
  qed
  from memmove_back_spec[OF this order.refl] True show ?thesis
    by (simp add: memmove_def)
next
  case False
  have "dest + j \<noteq> src + k" if "j < k" "k < n" for j k
  proof -
    have "j < n" using that by simp
    then have "unat (dest + j) < unat (src + k)"
      using False that src dest
      by (simp add: unat_no_wrap[of _ n] word_less_nat_alt)
    then show ?thesis by auto
  qed
  from memcpy_loop_spec[OF this, where i = 0 and m = m] False show ?thesis
    by (simp add: memmove_def)
qed

theorem memmove_correct_witness:
  "ld8 (memmove 0x1001 0x1000 3 (\<lambda>a. a)) 0x1003 = ld8 (\<lambda>a. a) 0x1002"
proof -
  have "2 < (3 :: usize)" by simp
  then have "ld8 (memmove 0x1001 0x1000 3 (\<lambda>a. a)) (0x1001 + 2) = ld8 (\<lambda>a. a) (0x1000 + 2)"
    using memmove_correct[of "0x1000" 3 "0x1001" "\<lambda>a. a"] by fastforce
  then show ?thesis by simp
qed

lemma memcpy_correct:
  assumes src: "unat src + unat n \<le> 2 ^ 64" and dest: "unat dest + unat n \<le> 2 ^ 64"
    and disj: "unat dest + unat n \<le> unat src \<or> unat src + unat n \<le> unat dest"
  shows "(\<forall>k<n. ld8 (memcpy dest src n m) (dest + k) = ld8 m (src + k)) \<and>
    (\<forall>a. (\<forall>k<n. a \<noteq> dest + k) \<longrightarrow> ld8 (memcpy dest src n m) a = ld8 m a)"
proof -
  have "dest + j \<noteq> src + k" if "j < k" "k < n" for j k
  proof -
    have "j < n" using that by simp
    then have "unat (dest + j) \<noteq> unat (src + k)"
      using disj that src dest
      by (auto simp: unat_no_wrap[of _ n] word_less_nat_alt)
    then show ?thesis by auto
  qed
  from memcpy_loop_spec[OF this, where i = 0 and m = m] show ?thesis
    by (simp add: memcpy_def)
qed

text \<open>The bytes \<^verbatim>\<open>memset\<close> writes.\<close>

theorem memset_correct:
  "(\<forall>k<n. ld8 (memset dest val n m) (dest + k) = ucast val) \<and>
    (\<forall>a. (\<forall>k<n. a \<noteq> dest + k) \<longrightarrow> ld8 (memset dest val n m) a = ld8 m a)"
  using memset_loop_spec[of 0 n dest "ucast val" m] by (simp add: memset_def)

text \<open>When \<^verbatim>\<open>memcmp\<close> finds two ranges equal.\<close>

theorem memcmp_zero_iff:
  "memcmp a b n m = 0 \<longleftrightarrow> (\<forall>k<n. ld8 m (a + k) = ld8 m (b + k))"
  using memcmp_loop_zero[of a b n 0 m] by (simp add: memcmp_def)

theorem memset_correct_witness:
  "ld8 (memset 0x1000 0xAB 4 (\<lambda>_. 0)) 0x1003 = 0xAB \<and>
   ld8 (memset 0x1000 0xAB 0 (\<lambda>_. 0)) 0x1000 = ld8 (\<lambda>_. 0) 0x1000"
proof -
  have "3 < (4 :: usize)" by simp
  then have "ld8 (memset 0x1000 0xAB 4 (\<lambda>_. 0)) (0x1000 + 3) = ucast (0xAB :: u32)"
    using memset_correct[of 4 "0x1000" "0xAB" "\<lambda>_. 0"] by blast
  then show ?thesis using memset_correct[of 0 "0x1000" "0xAB" "\<lambda>_. 0"] by simp
qed

theorem memcmp_zero_iff_witness: "memcmp 0x1000 0x2000 8 (\<lambda>_. 0) = 0"
proof -
  have "\<forall>k<(8 :: usize). ld8 (\<lambda>_. 0) (0x1000 + k) = ld8 (\<lambda>_. 0) (0x2000 + k)"
    by (simp add: ld8_def get_byte_def)
  then show ?thesis using memcmp_zero_iff[of "0x1000" "0x2000" 8 "\<lambda>_. 0"] by simp
qed

section \<open>Processor state and the interrupt mask\<close>

text \<open>
  The registers the kernel programs and reads back. \<open>tlb\<close> caches translations: a page
  number is mapped to the leaf descriptor and the physical page it resolved to.
\<close>

record machine =
  mem :: memory
  tlb :: "u64 \<rightharpoonup> u64 \<times> u64"
  ttbr0_el1 :: u64
  mair_el1 :: u64
  tcr_el1 :: u64
  sctlr_el1 :: u64
  daif :: u64

definition read_u64 :: "usize \<Rightarrow> ('a machine_scheme, u64) kfn" where
  "read_u64 a = k_gets (\<lambda>s. mem s a)"

definition write_u64 :: "usize \<Rightarrow> u64 \<Rightarrow> ('a machine_scheme, unit) kfn" where
  "write_u64 a v = k_modify (\<lambda>s. s\<lparr>mem := (mem s)(a := v)\<rparr>)"

definition write_u8 :: "usize \<Rightarrow> u8 \<Rightarrow> ('a machine_scheme, unit) kfn" where
  "write_u8 a v = k_modify (\<lambda>s. s\<lparr>mem := st8 (mem s) a v\<rparr>)"

text \<open>Two states that differ in memory at most.\<close>

definition mem_only :: "'a machine_scheme \<Rightarrow> 'a machine_scheme \<Rightarrow> bool" where
  "mem_only s t \<longleftrightarrow> (\<exists>m. t = s\<lparr>mem := m\<rparr>)"

lemma mem_only_refl [simp]: "mem_only s s"
  unfolding mem_only_def by (rule exI[of _ "mem s"]) simp

lemma mem_only_write: "mem_only s t \<Longrightarrow> mem_only s (t\<lparr>mem := m\<rparr>)"
  by (auto simp: mem_only_def)

lemma mem_only_trans: "mem_only s t \<Longrightarrow> mem_only t u \<Longrightarrow> mem_only s u"
  by (auto simp: mem_only_def)

lemma mem_only_eq: "mem_only s t \<Longrightarrow> t = s\<lparr>mem := mem t\<rparr>"
  by (auto simp: mem_only_def)

lemma wp_read_u64 [wp_rules]: "wp (read_u64 a) Q = (\<lambda>s. Q (mem s a) s)"
  by (rule ext) (simp add: read_u64_def wp_rules)

lemma wp_write_u64 [wp_rules]: "wp (write_u64 a v) Q = (\<lambda>s. Q () (s\<lparr>mem := (mem s)(a := v)\<rparr>))"
  by (rule ext) (simp add: write_u64_def wp_rules)

lemma wp_write_u8 [wp_rules]: "wp (write_u8 a v) Q = (\<lambda>s. Q () (s\<lparr>mem := st8 (mem s) a v\<rparr>))"
  by (rule ext) (simp add: write_u8_def wp_rules)

text \<open>\<^verbatim>\<open>daifset #2\<close> and \<^verbatim>\<open>daifclr #2\<close> set and clear the I bit, bit 7 of DAIF.\<close>

definition DAIF_I :: u64 where
  "DAIF_I = 0x80"

definition irq_disable :: "('a machine_scheme, u64) kfn" where
  "irq_disable = k_bind (k_gets daif) (\<lambda>d.
     k_bind (k_modify (\<lambda>s. s\<lparr>daif := daif s OR DAIF_I\<rparr>)) (\<lambda>_. k_return d))"

definition irq_restore :: "u64 \<Rightarrow> ('a machine_scheme, unit) kfn" where
  "irq_restore d = k_modify (\<lambda>s. s\<lparr>daif := d\<rparr>)"

definition irq_enable :: "('a machine_scheme, unit) kfn" where
  "irq_enable = k_modify (\<lambda>s. s\<lparr>daif := daif s AND NOT DAIF_I\<rparr>)"

definition irqs_masked :: "'a machine_scheme \<Rightarrow> bool" where
  "irqs_masked s \<longleftrightarrow> daif s AND DAIF_I \<noteq> 0"

text \<open>
  The critical-section idiom \<^verbatim>\<open>let d = irq::disable(); ...; irq::restore(d);\<close> around a
  body: the body runs with interrupts masked, and the mask is as before afterwards.
\<close>

definition without_irqs :: "('a machine_scheme, 'b) kfn \<Rightarrow> ('a machine_scheme, 'b) kfn" where
  "without_irqs body = k_bind irq_disable (\<lambda>d.
     k_bind body (\<lambda>x. k_bind (irq_restore d) (\<lambda>_. k_return x)))"

lemma wp_irq_disable [wp_rules]:
  "wp irq_disable Q = (\<lambda>s. Q (daif s) (s\<lparr>daif := daif s OR DAIF_I\<rparr>))"
  by (rule ext) (simp add: irq_disable_def wp_rules)

lemma wp_irq_restore [wp_rules]: "wp (irq_restore d) Q = (\<lambda>s. Q () (s\<lparr>daif := d\<rparr>))"
  by (rule ext) (simp add: irq_restore_def wp_rules)

lemma wp_without_irqs [wp_rules]:
  "wp (without_irqs body) Q =
     (\<lambda>s. wp body (\<lambda>x t. Q x (t\<lparr>daif := daif s\<rparr>)) (s\<lparr>daif := daif s OR DAIF_I\<rparr>))"
  by (rule ext) (simp add: without_irqs_def wp_rules)

lemma irq_disable_masks: "irqs_masked (s\<lparr>daif := daif s OR DAIF_I\<rparr>)"
proof -
  have "bit ((daif s OR DAIF_I) AND DAIF_I) 7"
    by (simp add: DAIF_I_def bit_simps)
  then show ?thesis by (auto simp: irqs_masked_def)
qed

end
