(* ===== verification/Frames.thy ===== *)
theory Frames
  imports Machine
begin

unbundle bit_operations_syntax

text \<open>
  The physical frame allocator of \<^verbatim>\<open>kernel/src/frames.rs\<close>: a stack of free 4 KiB frames
  threaded through the frames themselves. The abstract view is the list of free frames;
  \<open>frames_inv\<close> says that the memory holds exactly that list, and every operation is shown
  to push and pop it. \<open>frame_pool\<close> is the interface the page tables, the loader and the
  heap rely on, interpreted here on the allocator.
\<close>

section \<open>The allocator\<close>

definition FRAME_SIZE :: usize where
  "FRAME_SIZE = 4096"

definition RAM_BASE :: usize where
  "RAM_BASE = 0x40000000"

definition RAM_SIZE :: usize where
  "RAM_SIZE = 128 * 1024 * 1024"

definition RAM_TOP :: usize where
  "RAM_TOP = RAM_BASE + RAM_SIZE"

record FrameAllocator =
  fa_head :: usize
  fa_free_count :: usize

definition FrameAllocator_new :: FrameAllocator where
  "FrameAllocator_new = \<lparr>fa_head = 0, fa_free_count = 0\<rparr>"

record frames_state = machine +
  FRAME_ALLOCATOR :: FrameAllocator

definition frame_align_up :: "usize \<Rightarrow> ('a frames_state_scheme, usize) kfn" where
  "frame_align_up addr = k_bind (k_add addr FRAME_SIZE) (\<lambda>a.
     k_return ((a - 1) AND NOT (FRAME_SIZE - 1)))"

definition set_head :: "usize \<Rightarrow> ('a frames_state_scheme, unit) kfn" where
  "set_head h = k_modify (\<lambda>s. s\<lparr>FRAME_ALLOCATOR := (FRAME_ALLOCATOR s)\<lparr>fa_head := h\<rparr>\<rparr>)"

definition set_free_count :: "usize \<Rightarrow> ('a frames_state_scheme, unit) kfn" where
  "set_free_count n =
     k_modify (\<lambda>s. s\<lparr>FRAME_ALLOCATOR := (FRAME_ALLOCATOR s)\<lparr>fa_free_count := n\<rparr>\<rparr>)"

definition frame_push :: "usize \<Rightarrow> ('a frames_state_scheme, unit) kfn" where
  "frame_push frame =
     k_bind (k_gets (\<lambda>s. fa_head (FRAME_ALLOCATOR s))) (\<lambda>h.
     k_bind (write_u64 frame h) (\<lambda>_.
     k_bind (set_head frame) (\<lambda>_.
     k_bind (k_gets (\<lambda>s. fa_free_count (FRAME_ALLOCATOR s))) (\<lambda>n.
     k_bind (k_add n 1) set_free_count))))"

definition frame_pop :: "('a frames_state_scheme, usize option) kfn" where
  "frame_pop =
     k_bind (k_gets (\<lambda>s. fa_head (FRAME_ALLOCATOR s))) (\<lambda>frame.
     if frame = 0 then k_return None
     else
       k_bind (read_u64 frame) (\<lambda>next.
       k_bind (set_head next) (\<lambda>_.
       k_bind (k_gets (\<lambda>s. fa_free_count (FRAME_ALLOCATOR s))) (\<lambda>n.
       k_bind (k_sub n 1) (\<lambda>n'.
       k_bind (set_free_count n') (\<lambda>_.
       k_return (Some frame)))))))"

text \<open>The loop of \<^verbatim>\<open>add_region\<close>; \<^verbatim>\<open>frame + FRAME_SIZE\<close> is overflow-checked.\<close>

function add_region_loop :: "usize \<Rightarrow> usize \<Rightarrow> ('a frames_state_scheme, unit) kfn" where
  "add_region_loop frame region_end =
     (if 2 ^ 64 \<le> unat frame + unat FRAME_SIZE then k_panic ArithmeticOverflow
      else if frame + FRAME_SIZE \<le> region_end then
        k_bind (frame_push frame) (\<lambda>_. add_region_loop (frame + FRAME_SIZE) region_end)
      else k_return ())"
  by pat_completeness auto
termination
  by (relation "measure (\<lambda>(frame, region_end). 2 ^ 64 - unat frame)")
    (auto simp: FRAME_SIZE_def unat_word_ariths)

declare add_region_loop.simps [simp del]

definition add_region :: "usize \<Rightarrow> usize \<Rightarrow> ('a frames_state_scheme, unit) kfn" where
  "add_region start region_end = k_bind (frame_align_up start) (\<lambda>frame. add_region_loop frame region_end)"

text \<open>\<open>kernel_end\<close> is the address of the linker symbol \<^verbatim>\<open>_kernel_end\<close>.\<close>

definition init_frames :: "usize \<Rightarrow> ('a frames_state_scheme, unit) kfn" where
  "init_frames kernel_end =
     k_bind (frame_align_up kernel_end) (\<lambda>start. add_region start RAM_TOP)"

definition alloc_frame :: "('a frames_state_scheme, usize option) kfn" where
  "alloc_frame = frame_pop"

definition free_frame :: "usize \<Rightarrow> ('a frames_state_scheme, unit) kfn" where
  "free_frame frame = frame_push frame"

definition free_frame_at :: "usize \<Rightarrow> ('a frames_state_scheme, unit) kfn" where
  "free_frame_at pa = frame_push pa"

definition free_frame_count :: "('a frames_state_scheme, usize) kfn" where
  "free_frame_count = k_gets (\<lambda>s. fa_free_count (FRAME_ALLOCATOR s))"

section \<open>The free list in memory\<close>

definition valid_frame :: "usize \<Rightarrow> bool" where
  "valid_frame f \<longleftrightarrow> page_aligned f \<and> RAM_BASE \<le> f \<and> f < RAM_TOP"

text \<open>\<open>free_chain m h fs\<close>: following the links of \<open>m\<close> from \<open>h\<close> visits \<open>fs\<close> and ends at 0.\<close>

fun free_chain :: "memory \<Rightarrow> usize \<Rightarrow> usize list \<Rightarrow> bool" where
  "free_chain m h [] \<longleftrightarrow> h = 0"
| "free_chain m h (f # fs) \<longleftrightarrow> h = f \<and> f \<noteq> 0 \<and> free_chain m (m f) fs"

definition frames_inv :: "usize list \<Rightarrow> 'a frames_state_scheme \<Rightarrow> bool" where
  "frames_inv fs s \<longleftrightarrow>
     free_chain (mem s) (fa_head (FRAME_ALLOCATOR s)) fs \<and> distinct fs \<and>
     (\<forall>f \<in> set fs. valid_frame f) \<and> unat (fa_free_count (FRAME_ALLOCATOR s)) = length fs"

lemma valid_frame_nonzero: "valid_frame f \<Longrightarrow> f \<noteq> 0"
  by (auto simp: valid_frame_def RAM_BASE_def)

lemma free_chain_cong: "(\<And>f. f \<in> set fs \<Longrightarrow> m' f = m f) \<Longrightarrow> free_chain m' h fs = free_chain m h fs"
  by (induction fs arbitrary: h) auto

text \<open>The chain determines the list: the pool is a function of the machine state.\<close>

lemma free_chain_unique: "free_chain m h fs \<Longrightarrow> free_chain m h gs \<Longrightarrow> fs = gs"
proof (induction fs arbitrary: h gs)
  case Nil
  then show ?case by (cases gs) auto
next
  case (Cons f fs)
  then show ?case by (cases gs) auto
qed

lemma frames_inv_unique: "frames_inv fs s \<Longrightarrow> frames_inv gs s \<Longrightarrow> fs = gs"
  by (auto simp: frames_inv_def dest: free_chain_unique)


lemma valid_frame_unat: "valid_frame f \<longleftrightarrow>
    unat f mod 4096 = 0 \<and> 0x40000000 \<le> unat f \<and> unat f < 0x48000000"
  by (simp add: valid_frame_def page_aligned_iff_mod RAM_BASE_def RAM_TOP_def RAM_SIZE_def
      word_le_nat_alt word_less_nat_alt)

lemma valid_frames_card: "card (Collect valid_frame) \<le> 32768"
proof -
  have "unat ` Collect valid_frame \<subseteq> (\<lambda>k. 4096 * k) ` {0x40000..<0x48000}"
  proof
    fix n assume "n \<in> unat ` Collect valid_frame"
    then have "n mod 4096 = 0" "0x40000000 \<le> n" "n < 0x48000000"
      by (auto simp: valid_frame_unat)
    then have "n = 4096 * (n div 4096)" "n div 4096 \<in> {0x40000..<0x48000}" by auto
    then show "n \<in> (\<lambda>k. 4096 * k) ` {0x40000..<0x48000}" by blast
  qed
  then have "card (unat ` Collect valid_frame) \<le> card {0x40000..<0x48000::nat}"
    by (rule surj_card_le[rotated]) simp
  moreover have "inj_on unat (Collect valid_frame)"
    by (rule inj_onI) (simp add: word_unat_eq_iff)
  ultimately show ?thesis by (simp add: card_image)
qed

lemma frames_inv_length: "frames_inv fs s \<Longrightarrow> length fs \<le> 32768"
proof -
  assume "frames_inv fs s"
  then have "distinct fs" "set fs \<subseteq> Collect valid_frame" by (auto simp: frames_inv_def)
  then have "length fs \<le> card (Collect valid_frame)"
    by (metis distinct_card card_mono finite)
  with valid_frames_card show ?thesis by simp
qed

lemma wp_set_head [wp_rules]:
  "wp (set_head h) Q = (\<lambda>s. Q () (s\<lparr>FRAME_ALLOCATOR := (FRAME_ALLOCATOR s)\<lparr>fa_head := h\<rparr>\<rparr>))"
  by (rule ext) (simp add: set_head_def wp_rules)

lemma wp_set_free_count [wp_rules]:
  "wp (set_free_count n) Q =
     (\<lambda>s. Q () (s\<lparr>FRAME_ALLOCATOR := (FRAME_ALLOCATOR s)\<lparr>fa_free_count := n\<rparr>\<rparr>))"
  by (rule ext) (simp add: set_free_count_def wp_rules)

text \<open>What a pop and a push do to the state, beside the free list.\<close>

definition pop_state :: "usize \<Rightarrow> 'a frames_state_scheme \<Rightarrow> 'a frames_state_scheme" where
  "pop_state f s = s\<lparr>FRAME_ALLOCATOR := \<lparr>fa_head = mem s f,
     fa_free_count = fa_free_count (FRAME_ALLOCATOR s) - 1\<rparr>\<rparr>"

definition push_state :: "usize \<Rightarrow> 'a frames_state_scheme \<Rightarrow> 'a frames_state_scheme" where
  "push_state f s = s\<lparr>mem := (mem s)(f := fa_head (FRAME_ALLOCATOR s)),
     FRAME_ALLOCATOR := \<lparr>fa_head = f,
       fa_free_count = fa_free_count (FRAME_ALLOCATOR s) + 1\<rparr>\<rparr>"

lemma frame_pop_empty: "frames_inv [] s \<Longrightarrow> frame_pop s = Inr (None, s)"
  by (simp add: frames_inv_def frame_pop_def run_simps)

lemma frame_pop_cons:
  assumes "frames_inv (f # fs) s"
  shows "frame_pop s = Inr (Some f, pop_state f s)" and "frames_inv fs (pop_state f s)"
proof -
  have "unat (fa_free_count (FRAME_ALLOCATOR s)) = Suc (length fs)"
    using assms by (simp add: frames_inv_def)
  then have le: "1 \<le> fa_free_count (FRAME_ALLOCATOR s)"
    and sub: "unat (fa_free_count (FRAME_ALLOCATOR s) - 1) = length fs"
    by (auto simp: word_le_nat_alt unat_sub)
  show "frame_pop s = Inr (Some f, pop_state f s)"
    using assms le
    by (simp add: frames_inv_def frame_pop_def pop_state_def run_simps set_head_def
        set_free_count_def read_u64_def)
  show "frames_inv fs (pop_state f s)"
    using assms sub by (simp add: frames_inv_def pop_state_def)
qed

lemma frame_push_ok:
  assumes inv: "frames_inv fs s" and f: "valid_frame f" "f \<notin> set fs"
  shows "frame_push f s = Inr ((), push_state f s)" and "frames_inv (f # fs) (push_state f s)"
proof -
  have n: "unat (fa_free_count (FRAME_ALLOCATOR s)) = length fs" "length fs \<le> 32768"
    using inv frames_inv_length by (auto simp: frames_inv_def)
  then have add: "unat (fa_free_count (FRAME_ALLOCATOR s) + 1) = Suc (length fs)"
    by (simp add: unat_word_ariths)
  show "frame_push f s = Inr ((), push_state f s)"
    using n by (simp add: frame_push_def push_state_def run_simps set_head_def
        set_free_count_def write_u64_def)
  have "free_chain ((mem s)(f := fa_head (FRAME_ALLOCATOR s))) (fa_head (FRAME_ALLOCATOR s)) fs"
    using inv f(2) by (subst free_chain_cong[where m = "mem s"]) (auto simp: frames_inv_def)
  then show "frames_inv (f # fs) (push_state f s)"
    using inv f add by (auto simp: frames_inv_def push_state_def valid_frame_nonzero)
qed

lemma frame_align_up_ok:
  assumes "unat a + 4096 < 2 ^ 64"
  obtains r where "frame_align_up a s = Inr (r, s)" "page_aligned r" 
    "unat a \<le> unat r" "unat r < unat a + 4096"
proof -
  let ?r = "((a + 4096) - 1) AND NOT 0xFFF"
  have "unat ((a + 4096) - 1) = unat a + 4095"
    using assms by (simp add: unat_word_ariths unat_sub word_le_nat_alt)
  then have r: "unat ?r = (unat a + 4095) - (unat a + 4095) mod 4096"
    by (simp only: unat_and_not_0xFFF)
  then have r4: "unat ?r = 4096 * ((unat a + 4095) div 4096)"
    by (simp only: minus_mod_eq_mult_div)
  have "checked_add a FRAME_SIZE = Some (a + 4096)"
    using assms by (simp add: checked_add_def FRAME_SIZE_def)
  then have "frame_align_up a s = Inr (?r, s)"
    by (simp only: frame_align_up_def k_add_def option.case run_bind run_return sum.case prod.case)
      (simp add: FRAME_SIZE_def)
  moreover have "page_aligned ?r" unfolding page_aligned_iff_mod r4 by simp
  moreover have "unat a \<le> unat ?r" "unat ?r < unat a + 4096" unfolding r4 by linarith+
  ultimately show ?thesis by (rule that)
qed

lemma frame_align_up_aligned:
  assumes "page_aligned a" "unat a + 4096 < 2 ^ 64"
  shows "frame_align_up a s = Inr (a, s)"
proof -
  from frame_align_up_ok[OF assms(2), of s] obtain r where r: "frame_align_up a s = Inr (r, s)" "page_aligned r" 
    "unat a \<le> unat r" "unat r < unat a + 4096" .
  with assms(1) have "unat r = unat a"
    using page_less_iff[of "unat a" "unat r"] unfolding page_aligned_iff_mod by linarith
  then have "r = a" by (simp add: word_unat_eq_iff)
  with r(1) show ?thesis by simp
qed

lemma valid_frame_next:
  assumes "valid_frame f" "f + 4096 \<le> RAM_TOP"
  shows "unat (f + 4096) = unat f + 4096"
  using assms by (simp add: valid_frame_unat unat_word_ariths)

lemma add_region_loop_ok:
  assumes "frames_inv fs s" "page_aligned frame" "RAM_BASE \<le> frame" "frame \<le> RAM_TOP"
    and "\<And>f. f \<in> set fs \<Longrightarrow> f < frame"
  shows "wp (add_region_loop frame RAM_TOP)
    (\<lambda>_ t. \<exists>gs. frames_inv gs t \<and> set gs = set fs \<union> {f. valid_frame f \<and> frame \<le> f}) s"
  using assms
proof (induction "0x48000000 - unat frame" arbitrary: frame fs s rule: less_induct)
  case less
  have top: "unat RAM_TOP = 0x48000000" by (simp add: RAM_TOP_def RAM_BASE_def RAM_SIZE_def)
  have fr: "unat frame mod 4096 = 0" "0x40000000 \<le> unat frame" "unat frame \<le> 0x48000000"
    using less.prems(2-4) top by (auto simp: page_aligned_iff_mod RAM_BASE_def word_le_nat_alt)
  have nx: "unat (frame + 4096) = unat frame + 4096"
    using fr by (simp add: unat_word_ariths)
  show ?case
  proof (cases "frame + 4096 \<le> RAM_TOP")
    case True
    then have lt: "unat frame + 4096 \<le> 0x48000000" using nx top by (simp add: word_le_nat_alt)
    then have v: "valid_frame frame" using fr by (simp add: valid_frame_unat)
    have nin: "frame \<notin> set fs" using less.prems(5) by blast
    note push = frame_push_ok[OF less.prems(1) v nin]
    have step: "wp (add_region_loop (frame + 4096) RAM_TOP)
        (\<lambda>_ t. \<exists>gs. frames_inv gs t \<and>
           set gs = set (frame # fs) \<union> {f. valid_frame f \<and> frame + 4096 \<le> f}) (push_state frame s)"
    proof (rule less.hyps)
      show "0x48000000 - unat (frame + 4096) < 0x48000000 - unat frame" using nx lt by simp
      show "frames_inv (frame # fs) (push_state frame s)" by (rule push(2))
      show "page_aligned (frame + 4096)" using fr nx by (simp add: page_aligned_iff_mod)
      show "RAM_BASE \<le> frame + 4096" using fr nx by (simp add: RAM_BASE_def word_le_nat_alt)
      show "frame + 4096 \<le> RAM_TOP" by (rule True)
      show "f < frame + 4096" if "f \<in> set (frame # fs)" for f
        using that less.prems(5)[of f] nx by (auto simp: word_less_nat_alt)
    qed
    have sets: "set (frame # fs) \<union> {f. valid_frame f \<and> frame + 4096 \<le> f}
        = set fs \<union> {f. valid_frame f \<and> frame \<le> f}"
    proof -
      have "f = frame \<or> frame + 4096 \<le> f" if "valid_frame f" "frame \<le> f" for f
      proof -
        have "unat f mod 4096 = 0" "unat frame \<le> unat f"
          using that by (auto simp: valid_frame_unat word_le_nat_alt)
        with fr(1) have "unat f = unat frame \<or> unat frame + 4096 \<le> unat f"
          using page_less_iff[of "unat frame" "unat f"] by linarith
        then show ?thesis using nx by (auto simp: word_le_nat_alt word_unat_eq_iff)
      qed
      moreover have "frame \<le> f" if "frame + 4096 \<le> f" for f
        using that nx by (simp add: word_le_nat_alt)
      ultimately show ?thesis using v by auto
    qed
    have unf: "add_region_loop frame RAM_TOP s = add_region_loop (frame + 4096) RAM_TOP (push_state frame s)"
      using True nx fr push(1)
      by (subst add_region_loop.simps) (simp add: FRAME_SIZE_def run_simps)
    show ?thesis using step unfolding sets wp_def unf .
  next
    case False
    then have "\<not> unat frame + 4096 \<le> 0x48000000" using nx top by (simp add: word_le_nat_alt)
    then have "unat frame = 0x48000000"
      using fr page_less_iff[of "unat frame" "0x48000000"] by simp
    then have "{f. valid_frame f \<and> frame \<le> f} = {}"
      by (auto simp: valid_frame_unat word_le_nat_alt)
    with False nx fr less.prems(1) show ?thesis
      by (subst add_region_loop.simps) (auto simp: FRAME_SIZE_def wp_rules)
  qed
qed

lemma init_frames_pool:
  assumes k: "RAM_BASE \<le> kernel_end" "kernel_end \<le> RAM_TOP"
    and s: "FRAME_ALLOCATOR s = FrameAllocator_new"
  shows "wp (init_frames kernel_end)
    (\<lambda>_ t. \<exists>fs. frames_inv fs t \<and> set fs = {f. valid_frame f \<and> kernel_end \<le> f}) s"
proof -
  have top: "unat RAM_TOP = 0x48000000" by (simp add: RAM_TOP_def RAM_BASE_def RAM_SIZE_def)
  have ke: "0x40000000 \<le> unat kernel_end" "unat kernel_end \<le> 0x48000000"
    using k top by (auto simp: RAM_BASE_def word_le_nat_alt)
  then have "unat kernel_end + 4096 < 2 ^ 64" by simp
  from frame_align_up_ok[OF this, of s] obtain r where
    r: "frame_align_up kernel_end s = Inr (r, s)" "page_aligned r"
      "unat kernel_end \<le> unat r" "unat r < unat kernel_end + 4096" .
  have r_top: "unat r \<le> 0x48000000"
    using r(2,4) ke(2) page_less_iff[of "0x48000000" "unat r"]
    unfolding page_aligned_iff_mod by simp
  have r2: "frame_align_up r s = Inr (r, s)"
    using r r_top by (intro frame_align_up_aligned) auto
  have inv0: "frames_inv [] s" using s by (simp add: frames_inv_def FrameAllocator_new_def)
  have "wp (add_region_loop r RAM_TOP)
      (\<lambda>_ t. \<exists>gs. frames_inv gs t \<and> set gs = set [] \<union> {f. valid_frame f \<and> r \<le> f}) s"
    using r ke r_top top by (intro add_region_loop_ok[OF inv0]) (auto simp: RAM_BASE_def word_le_nat_alt)
  moreover have "{f. valid_frame f \<and> r \<le> f} = {f. valid_frame f \<and> kernel_end \<le> f}"
  proof -
    have "r \<le> f \<longleftrightarrow> kernel_end \<le> f" if "valid_frame f" for f
    proof -
      have "unat f mod 4096 = 0" using that by (simp add: valid_frame_unat)
      with r(2-4) have "unat r \<le> unat f \<longleftrightarrow> unat kernel_end \<le> unat f"
        using page_less_iff[of "unat f" "unat r"] unfolding page_aligned_iff_mod by linarith
      then show ?thesis by (simp add: word_le_nat_alt)
    qed
    then show ?thesis by auto
  qed
  ultimately show ?thesis
    by (simp add: init_frames_def add_region_def wp_def run_simps r(1) r2)
qed

lemma alloc_frame_empty: "frames_inv [] s \<Longrightarrow> alloc_frame s = Inr (None, s)"
  by (simp add: alloc_frame_def frame_pop_empty)

lemma alloc_frame_cons:
  assumes "frames_inv (f # fs) s"
  shows "alloc_frame s = Inr (Some f, pop_state f s)" and "frames_inv fs (pop_state f s)"
  using frame_pop_cons[OF assms] by (auto simp: alloc_frame_def)

lemma free_frame_ok:
  assumes "frames_inv fs s" and "valid_frame f" and "f \<notin> set fs"
  shows "free_frame f s = Inr ((), push_state f s)" and "frames_inv (f # fs) (push_state f s)"
  using frame_push_ok[OF assms] by (auto simp: free_frame_def)

lemma alloc_frame_cases:
  assumes "frames_inv fs s"
  obtains (empty) "fs = []" "alloc_frame s = Inr (None, s)"
  | (some) f gs where "fs = f # gs" "alloc_frame s = Inr (Some f, pop_state f s)"
      "frames_inv gs (pop_state f s)"
  using assms alloc_frame_empty alloc_frame_cons by (cases fs) blast+

lemma frames_inv_write:
  assumes inv: "frames_inv fs s" and out: "page_of a \<notin> set fs"
  shows "frames_inv fs (s\<lparr>mem := (mem s)(a := v)\<rparr>)"
proof -
  have "((mem s)(a := v)) f = mem s f" if "f \<in> set fs" for f
  proof -
    have "page_aligned f" using inv that by (auto simp: frames_inv_def valid_frame_def)
    then have "page_of f = f" by simp
    with out that have "f \<noteq> a" by metis
    then show ?thesis by simp
  qed
  then have "free_chain ((mem s)(a := v)) h fs = free_chain (mem s) h fs" for h
    by (rule free_chain_cong)
  then show ?thesis using inv by (simp add: frames_inv_def)
qed

section \<open>The interface of a frame pool\<close>

primrec alloc_many :: "('s, 'f option) kfn \<Rightarrow> nat \<Rightarrow> ('s, 'f list) kfn" where
  "alloc_many alloc 0 = k_return []"
| "alloc_many alloc (Suc n) =
     k_bind alloc (\<lambda>r. k_bind (k_expect ''out of frames'' r) (\<lambda>f.
     k_bind (alloc_many alloc n) (\<lambda>fs. k_return (f # fs))))"

locale frame_pool =
  fixes alloc :: "('s, 'f option) kfn"
    and free :: "'f \<Rightarrow> ('s, unit) kfn"
    and pool :: "'f list \<Rightarrow> 's \<Rightarrow> bool"
    and usable :: "'f \<Rightarrow> bool"
  assumes alloc_empty: "pool [] s \<Longrightarrow> wp alloc (\<lambda>r t. r = None \<and> pool [] t) s"
    and alloc_cons: "pool (f # fs) s \<Longrightarrow> wp alloc (\<lambda>r t. r = Some f \<and> pool fs t) s"
    and free_push: "pool fs s \<Longrightarrow> usable f \<Longrightarrow> f \<notin> set fs \<Longrightarrow> wp (free f) (\<lambda>_ t. pool (f # fs) t) s"
    and pool_usable: "pool fs s \<Longrightarrow> f \<in> set fs \<Longrightarrow> usable f"
    and pool_distinct: "pool fs s \<Longrightarrow> distinct fs"
begin

lemma alloc_many_ok:
  "pool (gs @ fs) s \<Longrightarrow> wp (alloc_many alloc (length gs)) (\<lambda>r t. r = gs \<and> pool fs t) s"
proof (induction gs arbitrary: s)
  case Nil
  then show ?case by (simp add: wp_rules)
next
  case (Cons g gs)
  from Cons.prems have "wp alloc (\<lambda>r t. r = Some g \<and> pool (gs @ fs) t) s"
    using alloc_cons by simp
  then show ?case
    by (simp add: wp_rules) (erule wp_mono, use Cons.IH in \<open>auto elim: wp_mono\<close>)
qed

lemma alloc_many_short:
  "pool fs s \<Longrightarrow> length fs < n \<Longrightarrow> alloc_many alloc n s = Inl (Expect ''out of frames'')"
proof (induction fs arbitrary: n s)
  case Nil
  then obtain k where "n = Suc k" by (cases n) auto
  with alloc_empty[OF Nil.prems(1)] show ?case
    by (auto simp: run_simps elim: wpE)
next
  case (Cons f fs)
  then obtain k where "n = Suc k" by (cases n) auto
  with alloc_cons[OF Cons.prems(1)] Cons.IH Cons.prems(2) show ?case
    by (fastforce simp: run_simps elim: wpE)
qed

lemma free_many_ok:
  assumes "pool fs s" and "\<And>g. g \<in> set gs \<Longrightarrow> usable g" and "distinct gs" and "set gs \<inter> set fs = {}"
  shows "wp (k_for gs free) (\<lambda>_ t. pool (rev gs @ fs) t) s"
  using assms
proof (induction gs arbitrary: fs s)
  case Nil
  then show ?case by (simp add: wp_rules)
next
  case (Cons g gs)
  have "wp (free g) (\<lambda>_ t. pool (g # fs) t) s"
    using Cons.prems by (intro free_push) auto
  then show ?case
    unfolding k_for.simps wp_bind
    by (rule wp_mono) (use Cons.IH[of "g # fs"] Cons.prems in auto)
qed

lemma alloc_free_many:
  assumes "pool (gs @ fs) s"
  shows "wp (k_bind (alloc_many alloc (length gs)) (\<lambda>r. k_for r free))
    (\<lambda>_ t. pool (rev gs @ fs) t) s"
  using pool_distinct[OF assms] pool_usable[OF assms]
  by (simp add: wp_rules) (rule wp_mono[OF alloc_many_ok[OF assms]], auto intro!: free_many_ok)

lemma free_alloc_lifo:
  assumes "pool fs s" and "usable f" and "f \<notin> set fs"
  shows "wp (k_bind (free f) (\<lambda>_. alloc)) (\<lambda>r t. r = Some f \<and> pool fs t) s"
  using free_push[OF assms] by (simp add: wp_rules) (erule wp_mono, erule alloc_cons)

end

interpretation fp: frame_pool alloc_frame free_frame frames_inv valid_frame
proof unfold_locales
  show "wp alloc_frame (\<lambda>r t. r = None \<and> frames_inv [] t) s" if "frames_inv [] s" for s :: "'a frames_state_scheme"
    using that by (simp add: wp_def alloc_frame_empty)
  show "wp alloc_frame (\<lambda>r t. r = Some f \<and> frames_inv fs t) s" if "frames_inv (f # fs) s" for f fs and s :: "'a frames_state_scheme"
    using alloc_frame_cons[OF that] by (simp add: wp_def)
  show "wp (free_frame f) (\<lambda>_ t. frames_inv (f # fs) t) s"
    if "frames_inv fs s" "valid_frame f" "f \<notin> set fs" for f fs and s :: "'a frames_state_scheme"
    using free_frame_ok[OF that] by (simp add: wp_def)
qed (auto simp: frames_inv_def)

section \<open>Clients never share a frame\<close>

inductive pool_run :: "usize set \<Rightarrow> usize set \<Rightarrow> 'a frames_state_scheme \<Rightarrow> bool" for U where
  start: "frames_inv fs s \<Longrightarrow> set fs = U \<Longrightarrow> pool_run U {} s"
| alloc: "pool_run U live s \<Longrightarrow> alloc_frame s = Inr (Some f, t) \<Longrightarrow> pool_run U (insert f live) t"
| free: "pool_run U live s \<Longrightarrow> f \<in> live \<Longrightarrow> free_frame f s = Inr ((), t) \<Longrightarrow> pool_run U (live - {f}) t"
| store: "pool_run U live s \<Longrightarrow> page_of a \<in> live \<Longrightarrow>
    pool_run U live (s\<lparr>mem := (mem s)(a := v)\<rparr>)"

lemma pool_run_inv:
  "pool_run U live s \<Longrightarrow> \<exists>fs. frames_inv fs s \<and> set fs = U - live \<and> live \<subseteq> U \<and> (\<forall>f\<in>live. valid_frame f)"
proof (induction rule: pool_run.induct)
  case (start fs s)
  then show ?case by blast
next
  case (alloc live s f t)
  then obtain fs where fs: "frames_inv fs s" "set fs = U - live" "live \<subseteq> U" "\<forall>f\<in>live. valid_frame f" by blast
  from fs(1) show ?case
  proof (cases rule: alloc_frame_cases)
    case empty
    with alloc.hyps(2) show ?thesis by simp
  next
    case (some g gs)
    with alloc.hyps(2) have "f = g" "t = pop_state g s" by auto
    moreover have "distinct fs" "valid_frame g" using fs(1) some(1) by (auto simp: frames_inv_def)
    ultimately show ?thesis using some fs by (intro exI[of _ gs]) auto
  qed
next
  case (free live s f t)
  then obtain fs where fs: "frames_inv fs s" "set fs = U - live" "live \<subseteq> U" "\<forall>f\<in>live. valid_frame f" by blast
  then have "valid_frame f" "f \<notin> set fs" using free.hyps(2) by auto
  from free_frame_ok[OF fs(1) this] free.hyps fs show ?case
    by (intro exI[of _ "f # fs"]) auto
next
  case (store live s a v)
  then obtain fs where fs: "frames_inv fs s" "set fs = U - live" "live \<subseteq> U" "\<forall>f\<in>live. valid_frame f" by blast
  with store.hyps(2) have "page_of a \<notin> set fs" by auto
  from frames_inv_write[OF fs(1) this] fs show ?case by blast
qed

section \<open>Pools with given frames\<close>

text \<open>A state whose free list holds exactly the frames \<open>fs\<close>, in that order.\<close>

fun link_mem :: "usize list \<Rightarrow> memory" where
  "link_mem [] = (\<lambda>_. 0)"
| "link_mem (f # fs) = (link_mem fs)(f := (case fs of [] \<Rightarrow> 0 | g # _ \<Rightarrow> g))"

definition pool_of :: "usize list \<Rightarrow> 'a frames_state_scheme \<Rightarrow> 'a frames_state_scheme" where
  "pool_of fs s = s\<lparr>mem := link_mem fs,
     FRAME_ALLOCATOR := \<lparr>fa_head = (case fs of [] \<Rightarrow> 0 | f # _ \<Rightarrow> f), fa_free_count = of_nat (length fs)\<rparr>\<rparr>"

lemma free_chain_link_mem:
  assumes "distinct fs" "\<forall>f \<in> set fs. f \<noteq> 0"
  shows "free_chain (link_mem fs) (case fs of [] \<Rightarrow> 0 | f # _ \<Rightarrow> f) fs"
  using assms
proof (induction fs)
  case (Cons f fs)
  then have "free_chain (link_mem fs) (case fs of [] \<Rightarrow> 0 | f # _ \<Rightarrow> f) fs" by simp
  moreover have keep: "free_chain (link_mem (f # fs)) h fs = free_chain (link_mem fs) h fs" for h
    using Cons.prems(1) by (intro free_chain_cong) auto
  moreover have hd: "link_mem (f # fs) f = (case fs of [] \<Rightarrow> 0 | g # _ \<Rightarrow> g)" by simp
  ultimately show ?case using Cons.prems(2) by (simp add: hd keep del: link_mem.simps)
qed simp

lemma frames_inv_pool_of:
  assumes "distinct fs" "\<forall>f \<in> set fs. valid_frame f"
  shows "frames_inv fs (pool_of fs s)"
proof -
  have "length fs \<le> card (Collect valid_frame)"
    using assms by (metis distinct_card card_mono finite mem_Collect_eq subsetI)
  then have "unat (of_nat (length fs) :: usize) = length fs"
    using valid_frames_card by (simp add: unat_of_nat)
  then show ?thesis
    using assms free_chain_link_mem[of fs] valid_frame_nonzero by (auto simp: frames_inv_def pool_of_def)
qed

definition sample_frames :: "usize list" where
  "sample_frames = map (\<lambda>k. 0x40100000 + 0x1000 * of_nat k) [0..<12]"

lemma sample_frames_list: "sample_frames = [0x40100000, 0x40101000, 0x40102000, 0x40103000, 0x40104000, 0x40105000, 0x40106000, 0x40107000, 0x40108000, 0x40109000, 0x4010A000, 0x4010B000]"
  by (simp add: sample_frames_def upt_rec)

lemma sample_frames_ok: "distinct sample_frames" "\<forall>f \<in> set sample_frames. valid_frame f"
  by (simp_all add: sample_frames_list valid_frame_def page_aligned_def RAM_BASE_def RAM_TOP_def RAM_SIZE_def)

definition off_machine :: frames_state where
  "off_machine = \<lparr>mem = (\<lambda>_. 0), tlb = Map.empty, ttbr0_el1 = 0, mair_el1 = 0, tcr_el1 = 0, sctlr_el1 = 0,
     daif = 0, FRAME_ALLOCATOR = FrameAllocator_new\<rparr>"

section \<open>Properties of the pool\<close>

text \<open>
  C21. init_frames puts exactly the page-aligned frames between the kernel image and the top of
  RAM on the free list.
\<close>

theorem init_frames_fills_pool:
  assumes "RAM_BASE \<le> kernel_end" and "kernel_end \<le> RAM_TOP"
    and "FRAME_ALLOCATOR s = FrameAllocator_new"
  shows "wp (init_frames kernel_end)
    (\<lambda>_ t. \<exists>fs. frames_inv fs t \<and> set fs = {f. valid_frame f \<and> kernel_end \<le> f}) s"
  by (rule init_frames_pool[OF assms])

theorem init_frames_fills_pool_witness:
  "wp (init_frames 0x40200000)
    (\<lambda>_ t. \<exists>fs. frames_inv fs t \<and> set fs = {f. valid_frame f \<and> 0x40200000 \<le> f}) off_machine"
  by (rule init_frames_fills_pool) (simp_all add: RAM_BASE_def RAM_TOP_def RAM_SIZE_def off_machine_def)

text \<open>
  C9. However allocations, frees and stores to live frames interleave, alloc_frame returns a
  frame of RAM that no client holds.
\<close>

theorem alloc_never_hands_out_twice:
  assumes "pool_run U live s" and "alloc_frame s = Inr (Some f, t)"
  shows "f \<in> U - live \<and> valid_frame f"
proof -
  from pool_run_inv[OF assms(1)] obtain fs where fs: "frames_inv fs s" "set fs = U - live" by blast
  from fs(1) show ?thesis
    by (cases rule: alloc_frame_cases) (use assms(2) fs in \<open>auto simp: frames_inv_def\<close>)
qed

theorem alloc_never_hands_out_twice_witness:
  "0x40101000 \<in> set sample_frames - {0x40100000} \<and> valid_frame 0x40101000"
proof -
  let ?s = "pool_of sample_frames off_machine"
  have inv: "frames_inv (0x40100000 # 0x40101000 # drop 2 sample_frames) ?s"
    using frames_inv_pool_of[OF sample_frames_ok] by (simp add: sample_frames_list)
  have "pool_run (set sample_frames) {} ?s"
    by (rule pool_run.start[OF inv]) (auto simp: sample_frames_list)
  from pool_run.alloc[OF this alloc_frame_cons(1)[OF inv]]
  have "pool_run (set sample_frames) {0x40100000} (pop_state 0x40100000 ?s)" .
  from alloc_never_hands_out_twice[OF this alloc_frame_cons(1)[OF alloc_frame_cons(2)[OF inv]]]
  show ?thesis .
qed

text \<open>
  C22. Allocating several frames and freeing them gives back the same pool, in LIFO order.
\<close>

theorem alloc_free_round_trip:
  assumes "frames_inv (gs @ fs) s"
  shows "wp (k_bind (alloc_many alloc_frame (length gs)) (\<lambda>r. k_for r free_frame))
    (\<lambda>_ t. frames_inv (rev gs @ fs) t) s"
  by (rule fp.alloc_free_many[OF assms])

theorem alloc_free_round_trip_witness:
  "wp (k_bind (alloc_many alloc_frame (length [0x40100000 :: usize, 0x40101000])) (\<lambda>r. k_for r free_frame))
    (\<lambda>_ t. frames_inv (rev [0x40100000, 0x40101000] @ drop 2 sample_frames) t) (pool_of sample_frames off_machine)"
proof (rule alloc_free_round_trip)
  show "frames_inv ([0x40100000, 0x40101000] @ drop 2 sample_frames) (pool_of sample_frames off_machine)"
    using frames_inv_pool_of[OF sample_frames_ok] by (simp add: sample_frames_list)
qed

end
