(* ===== verification/Mmu.thy ===== *)
theory Mmu
  imports Frames
begin

unbundle bit_operations_syntax

text \<open>
  The page tables of \<^verbatim>\<open>kernel/src/mmu.rs\<close>: descriptors, the boot identity map, mapping,
  unmapping and translating single pages, and creating, activating and freeing address
  spaces. Tables live in physical memory (the field \<open>mem\<close>), in frames of the pool; the
  memory barriers of the source have no effect on a single core, the \<^verbatim>\<open>tlbi\<close>
  instructions remove entries of the field \<open>tlb\<close>.
  \<open>Page_Tables\<close> reasons about the trees these operations build.
\<close>

section \<open>Descriptors\<close>

definition ENTRIES :: nat where
  "ENTRIES = 512"

definition DESC_BLOCK :: u64 where "DESC_BLOCK = 0b01"
definition DESC_TABLE :: u64 where "DESC_TABLE = 0b11"
definition DESC_VALID :: u64 where "DESC_VALID = 0b01"
definition DESC_PAGE :: u64 where "DESC_PAGE = 0b11"

definition ATTR_IDX_DEVICE :: u64 where "ATTR_IDX_DEVICE = 4"
definition SH_INNER :: u64 where "SH_INNER = 0x300"
definition AF :: u64 where "AF = 0x400"
definition PXN :: u64 where "PXN = 0x20000000000000"
definition UXN :: u64 where "UXN = 0x40000000000000"

definition NORMAL_BLOCK :: u64 where
  "NORMAL_BLOCK = DESC_BLOCK OR SH_INNER OR AF OR UXN"

definition DEVICE_BLOCK :: u64 where
  "DEVICE_BLOCK = DESC_BLOCK OR ATTR_IDX_DEVICE OR AF OR PXN OR UXN"

definition ADDR_MASK :: u64 where
  "ADDR_MASK = 0x0000FFFFFFFFF000"

definition PAGE_KERNEL_RW :: u64 where
  "PAGE_KERNEL_RW = DESC_PAGE OR SH_INNER OR AF OR UXN OR PXN"

definition AP_EL0_RW :: u64 where "AP_EL0_RW = 0x40"
definition AP_EL0_RO :: u64 where "AP_EL0_RO = 0xC0"

definition PAGE_USER_RW :: u64 where
  "PAGE_USER_RW = DESC_PAGE OR AP_EL0_RW OR SH_INNER OR AF OR UXN OR PXN"

definition PAGE_USER_RX :: u64 where
  "PAGE_USER_RX = DESC_PAGE OR AP_EL0_RO OR SH_INNER OR AF OR PXN"

definition BLOCK_2MIB :: usize where
  "BLOCK_2MIB = 2 * 1024 * 1024"

definition RAM_BLOCKS :: nat where
  "RAM_BLOCKS = 64"

definition MAIR :: u64 where
  "MAIR = 0x4FF"

definition TCR :: u64 where
  "TCR = 0x180803510"

definition USER_BASE :: usize where
  "USER_BASE = 0x8000000000"

definition USER_L0_IDX :: usize where
  "USER_L0_IDX = drop_bit 39 USER_BASE"

section \<open>State and tables\<close>

text \<open>\<open>ic_synced\<close> logs the cache lines made visible to instruction fetch.\<close>

record mmu_state = frames_state +
  KERNEL_L1 :: usize
  KERNEL_TTBR0 :: usize
  INSTALLED :: usize
  ic_synced :: "usize list"

definition kernel_ttbr0 :: "('a mmu_state_scheme, u64) kfn" where
  "kernel_ttbr0 = k_gets KERNEL_TTBR0"

definition table_slots :: "usize list" where
  "table_slots = map of_nat [0..<ENTRIES]"

definition alloc_table :: "('a mmu_state_scheme, usize) kfn" where
  "alloc_table =
     k_bind alloc_frame (\<lambda>r.
     k_bind (k_expect ''out of frames while building page tables'' r) (\<lambda>table.
     k_bind (k_for table_slots (\<lambda>i. write_u64 (tadd table i) 0)) (\<lambda>_.
     k_return table)))"

definition tlbi_vmalle1 :: "('a machine_scheme, unit) kfn" where
  "tlbi_vmalle1 = k_modify (\<lambda>s. s\<lparr>tlb := Map.empty\<rparr>)"

definition tlbi_vaae1 :: "u64 \<Rightarrow> ('a machine_scheme, unit) kfn" where
  "tlbi_vaae1 page = k_modify (\<lambda>s. s\<lparr>tlb := (tlb s)(page := None)\<rparr>)"

definition init_mmu :: "('a mmu_state_scheme, unit) kfn" where
  "init_mmu =
     k_bind alloc_table (\<lambda>l0.
     k_bind alloc_table (\<lambda>l1.
     k_bind alloc_table (\<lambda>l2.
     k_bind (k_for (map of_nat [0..<RAM_BLOCKS]) (\<lambda>i.
       write_u64 (tadd l2 i) ((RAM_BASE + i * BLOCK_2MIB) OR NORMAL_BLOCK))) (\<lambda>_.
     k_bind (write_u64 (tadd l1 0) DEVICE_BLOCK) (\<lambda>_.
     k_bind (write_u64 (tadd l1 1) (l2 OR DESC_TABLE)) (\<lambda>_.
     k_bind (write_u64 (tadd l0 0) (l1 OR DESC_TABLE)) (\<lambda>_.
     k_bind (k_modify (\<lambda>s. s\<lparr>KERNEL_L1 := l1\<rparr>)) (\<lambda>_.
     k_bind (k_modify (\<lambda>s. s\<lparr>KERNEL_TTBR0 := l0\<rparr>)) (\<lambda>_.
     k_bind tlbi_vmalle1 (\<lambda>_.
     k_bind (k_modify (\<lambda>s. s\<lparr>mair_el1 := MAIR, tcr_el1 := TCR, ttbr0_el1 := l0\<rparr>)) (\<lambda>_.
     k_modify (\<lambda>s. s\<lparr>sctlr_el1 := sctlr_el1 s OR (1 OR 4 OR 0x1000)\<rparr>))))))))))))"

definition get_or_create :: "usize \<Rightarrow> usize \<Rightarrow> ('a mmu_state_scheme, usize) kfn" where
  "get_or_create table index =
     k_bind (read_u64 (tadd table index)) (\<lambda>entry.
     if entry AND DESC_VALID \<noteq> 0 then
       k_bind (k_assert (entry AND DESC_TABLE = DESC_TABLE)
         ''expected a table descriptor while walking, found a block'') (\<lambda>_.
       k_return (entry AND ADDR_MASK))
     else
       k_bind alloc_table (\<lambda>next.
       k_bind (write_u64 (tadd table index) (next OR DESC_TABLE)) (\<lambda>_.
       k_return next)))"

definition current_ttbr0 :: "('a mmu_state_scheme, u64) kfn" where
  "current_ttbr0 = k_gets ttbr0_el1"

definition l0_ptr :: "u64 \<Rightarrow> usize" where
  "l0_ptr ttbr0 = ttbr0 AND ADDR_MASK"

definition live_l0 :: "('a mmu_state_scheme, usize) kfn" where
  "live_l0 = k_bind current_ttbr0 (\<lambda>t. k_return (l0_ptr t))"

text \<open>The nine index bits of a virtual address at one level of the walk.\<close>

definition table_index :: "usize \<Rightarrow> nat \<Rightarrow> usize" where
  "table_index va shift = drop_bit shift va AND 0x1FF"

definition map_page_in :: "usize \<Rightarrow> usize \<Rightarrow> usize \<Rightarrow> u64 \<Rightarrow> ('a mmu_state_scheme, unit) kfn" where
  "map_page_in l0 va pa flags =
     k_bind (get_or_create l0 (table_index va 39)) (\<lambda>l1.
     k_bind (get_or_create l1 (table_index va 30)) (\<lambda>l2.
     k_bind (get_or_create l2 (table_index va 21)) (\<lambda>l3.
     k_bind (write_u64 (tadd l3 (table_index va 12)) ((pa AND ADDR_MASK) OR flags)) (\<lambda>_.
     tlbi_vaae1 (drop_bit 12 va)))))"

definition map_page :: "usize \<Rightarrow> usize \<Rightarrow> u64 \<Rightarrow> ('a mmu_state_scheme, unit) kfn" where
  "map_page va pa flags = k_bind live_l0 (\<lambda>l0. map_page_in l0 va pa flags)"

text \<open>
  The loop \<^verbatim>\<open>for shift in [39, 30, 21]\<close> of \<^verbatim>\<open>unmap_page_in\<close> and \<^verbatim>\<open>translate\<close>: descend
  while the entry is a table descriptor, \<open>None\<close> where the source returns early.
\<close>

fun walk_tables :: "memory \<Rightarrow> usize \<Rightarrow> nat list \<Rightarrow> usize \<Rightarrow> usize option" where
  "walk_tables m table [] va = Some table"
| "walk_tables m table (shift # shifts) va =
     (let entry = m (tadd table (table_index va shift)) in
      if entry AND DESC_TABLE \<noteq> DESC_TABLE then None
      else walk_tables m (entry AND ADDR_MASK) shifts va)"

definition unmap_page_in :: "usize \<Rightarrow> usize \<Rightarrow> ('a mmu_state_scheme, unit) kfn" where
  "unmap_page_in l0 va =
     k_bind (k_gets (\<lambda>s. walk_tables (mem s) l0 [39, 30, 21] va)) (\<lambda>w.
     case w of
       None \<Rightarrow> k_return ()
     | Some table \<Rightarrow>
         k_bind (write_u64 (tadd table (table_index va 12)) 0) (\<lambda>_.
         tlbi_vaae1 (drop_bit 12 va)))"

definition unmap_page :: "usize \<Rightarrow> ('a mmu_state_scheme, unit) kfn" where
  "unmap_page va = k_bind live_l0 (\<lambda>l0. unmap_page_in l0 va)"

definition translate_in :: "memory \<Rightarrow> u64 \<Rightarrow> usize \<Rightarrow> usize option" where
  "translate_in m ttbr0 va =
     (case walk_tables m (l0_ptr ttbr0) [39, 30, 21] va of
        None \<Rightarrow> None
      | Some table \<Rightarrow>
          (let entry = m (tadd table (table_index va 12)) in
           if entry AND DESC_VALID = 0 then None
           else Some ((entry AND ADDR_MASK) OR (va AND 0xFFF))))"

definition translate :: "u64 \<Rightarrow> usize \<Rightarrow> ('a mmu_state_scheme, usize option) kfn" where
  "translate ttbr0 va = k_gets (\<lambda>s. translate_in (mem s) ttbr0 va)"

section \<open>Address spaces\<close>

definition new_address_space :: "('a mmu_state_scheme, u64) kfn" where
  "new_address_space =
     k_bind alloc_table (\<lambda>l0.
     k_bind (k_gets KERNEL_L1) (\<lambda>kernel_l1.
     k_bind (k_assert (kernel_l1 \<noteq> 0) ''new_address_space before init_mmu'') (\<lambda>_.
     k_bind (write_u64 (tadd l0 0) (kernel_l1 OR DESC_TABLE)) (\<lambda>_.
     k_return l0))))"

definition activate :: "u64 \<Rightarrow> ('a mmu_state_scheme, unit) kfn" where
  "activate ttbr0 = without_irqs (
     k_bind (k_gets INSTALLED) (\<lambda>installed.
     k_when (installed \<noteq> ttbr0) (
       k_bind (k_modify (\<lambda>s. s\<lparr>INSTALLED := ttbr0\<rparr>)) (\<lambda>_.
       k_bind (k_modify (\<lambda>s. s\<lparr>ttbr0_el1 := ttbr0\<rparr>)) (\<lambda>_.
       tlbi_vmalle1)))))"

primrec free_subtree :: "nat \<Rightarrow> usize \<Rightarrow> ('a mmu_state_scheme, unit) kfn" where
  "free_subtree 0 table = free_frame_at table"
| "free_subtree (Suc levels_below) table =
     k_bind (k_for table_slots (\<lambda>i.
       k_bind (read_u64 (tadd table i)) (\<lambda>entry.
       k_when (entry AND DESC_TABLE = DESC_TABLE)
         (free_subtree levels_below (entry AND ADDR_MASK))))) (\<lambda>_.
     free_frame_at table)"

definition free_address_space :: "u64 \<Rightarrow> ('a mmu_state_scheme, unit) kfn" where
  "free_address_space root =
     (let l0 = root AND ADDR_MASK in
      k_bind (read_u64 (tadd l0 USER_L0_IDX)) (\<lambda>e1.
      k_bind (k_when (e1 AND DESC_TABLE = DESC_TABLE) (free_subtree 2 (e1 AND ADDR_MASK))) (\<lambda>_.
      free_frame_at l0)))"

text \<open>
  Cache maintenance over \<open>[pa, pa + len)\<close>: the data-side clean and the instruction-side
  invalidate visit the same 64-byte lines; \<open>None\<close> is the overflow of \<^verbatim>\<open>p += LINE\<close>.
\<close>

function cache_lines :: "usize \<Rightarrow> usize \<Rightarrow> usize list option" where
  "cache_lines p limit =
     (if p < limit then
        (case checked_add p 64 of
           None \<Rightarrow> None
         | Some q \<Rightarrow> map_option (Cons p) (cache_lines q limit))
      else Some [])"
  by pat_completeness auto
termination
  by (relation "measure (\<lambda>(p, limit). 2 ^ 64 - unat p)")
    (auto simp: checked_add_def unat_word_ariths split: if_splits)

declare cache_lines.simps [simp del]

definition sync_instruction_cache :: "usize \<Rightarrow> usize \<Rightarrow> ('a mmu_state_scheme, unit) kfn" where
  "sync_instruction_cache pa len =
     (let start = pa AND NOT (64 - 1) in
      k_bind (k_add pa len) (\<lambda>limit.
      case cache_lines start limit of
        None \<Rightarrow> k_panic ArithmeticOverflow
      | Some lines \<Rightarrow> k_modify (\<lambda>s. s\<lparr>ic_synced := ic_synced s @ lines\<rparr>)))"

end
