(* ===== verification/Page_Tables.thy ===== *)
theory Page_Tables
  imports Mmu
begin

unbundle bit_operations_syntax

text \<open>
  The trees of page tables in memory. Every address space has its own root, and slot 0 of
  each root leads to one shared level-1 table. The invariant \<open>pt_inv\<close> says that two paths
  reach the same table only if they are the same path of the same space, or of the
  shared part. Its consequence is the lemma behind every mapping theorem: hanging a fresh
  table into an empty slot adds one path and changes no other.
\<close>

section \<open>Table descriptors\<close>

definition is_table :: "u64 \<Rightarrow> bool" where
  "is_table e \<longleftrightarrow> e AND DESC_TABLE = DESC_TABLE"

lemma ADDR_MASK_bit: "bit ADDR_MASK n \<longleftrightarrow> 12 \<le> n \<and> n < 48"
proof -
  have eq: "ADDR_MASK = mask 48 AND NOT (mask 12)"
    by (simp add: ADDR_MASK_def mask_eq_exp_minus_1)
  show ?thesis unfolding eq by (auto simp: bit_simps)
qed

lemma DESC_TABLE_mask: "DESC_TABLE = mask 2"
  by (simp add: DESC_TABLE_def mask_eq_exp_minus_1)

lemma valid_frame_bit: "valid_frame f \<Longrightarrow> bit f n \<Longrightarrow> 12 \<le> n \<and> n < 31"
proof -
  assume f: "valid_frame f" and n: "bit f n"
  then have "unat f < 2 ^ 31" by (simp add: valid_frame_unat)
  then have "take_bit 31 f = f" by (rule take_bit_word_self)
  with n have "n < 31" by (metis bit_take_bit_iff)
  moreover have "12 \<le> n"
    using f n page_aligned_bit[of f n] by (force simp: valid_frame_def not_le)
  ultimately show ?thesis by simp
qed

lemma frame_desc_addr [simp]: "valid_frame f \<Longrightarrow> (f OR DESC_TABLE) AND ADDR_MASK = f"
  by (rule bit_word_eqI) (auto simp: bit_simps ADDR_MASK_bit DESC_TABLE_mask dest: valid_frame_bit)

lemma frame_addr [simp]: "valid_frame f \<Longrightarrow> f AND ADDR_MASK = f"
  by (rule bit_word_eqI) (auto simp: bit_simps ADDR_MASK_bit dest: valid_frame_bit)

lemma is_table_desc [simp]: "is_table (f OR DESC_TABLE)"
  unfolding is_table_def by (rule bit_word_eqI) (auto simp: bit_simps)

lemma is_table_0 [simp]: "\<not> is_table 0"
  by (simp add: is_table_def DESC_TABLE_def)

lemma is_table_valid: "is_table e \<Longrightarrow> e AND DESC_VALID \<noteq> 0"
proof
  assume "is_table e" "e AND DESC_VALID = 0"
  then have "bit (e AND DESC_TABLE) 0" "\<not> bit (e AND DESC_VALID) 0"
    by (auto simp: is_table_def DESC_TABLE_mask bit_simps)
  then show False by (simp add: DESC_TABLE_mask DESC_VALID_def bit_simps)
qed

section \<open>Trees of tables\<close>

text \<open>The table reached from \<open>t\<close> by following the slots of a path.\<close>

fun tbl :: "memory \<Rightarrow> usize \<Rightarrow> usize list \<Rightarrow> usize option" where
  "tbl m t [] = Some t"
| "tbl m t (i # p) =
     (if is_table (m (tadd t i)) then tbl m (m (tadd t i) AND ADDR_MASK) p else None)"

definition is_path :: "usize list \<Rightarrow> bool" where
  "is_path p \<longleftrightarrow> length p \<le> 3 \<and> (\<forall>i \<in> set p. i < 0x200)"

text \<open>A path through slot 0 leads to the tables all address spaces share.\<close>

definition shared :: "usize list \<Rightarrow> bool" where
  "shared p \<longleftrightarrow> p \<noteq> [] \<and> hd p = 0"

lemma walk_tables_tbl: "walk_tables m t shifts va = tbl m t (map (table_index va) shifts)"
  by (induction shifts arbitrary: t) (auto simp: is_table_def Let_def)

lemma tbl_append: "tbl m t (p @ q) = (case tbl m t p of None \<Rightarrow> None | Some u \<Rightarrow> tbl m u q)"
  by (induction p arbitrary: t) auto

lemma tbl_snoc:
  "tbl m t (p @ [i]) = (case tbl m t p of None \<Rightarrow> None | Some u \<Rightarrow>
     if is_table (m (tadd u i)) then Some (m (tadd u i) AND ADDR_MASK) else None)"
  by (simp add: tbl_append split: option.splits)

lemma is_path_snoc: "is_path (p @ [i]) \<longleftrightarrow> length p < 3 \<and> is_path p \<and> i < 0x200"
  by (auto simp: is_path_def)

lemma is_path_Nil [simp]: "is_path []"
  by (simp add: is_path_def)

lemma shared_Nil [simp]: "\<not> shared []"
  by (simp add: shared_def)

lemma shared_snoc: "shared (p @ [i]) \<longleftrightarrow> (if p = [] then i = 0 else shared p)"
  by (auto simp: shared_def)

definition pt_inv :: "usize set \<Rightarrow> usize \<Rightarrow> memory \<Rightarrow> bool" where
  "pt_inv R K m \<longleftrightarrow>
     (\<forall>r\<in>R. m (tadd r 0) = K OR DESC_TABLE) \<and>
     (\<forall>r\<in>R. \<forall>p t. is_path p \<longrightarrow> tbl m r p = Some t \<longrightarrow> valid_frame t) \<and>
     (\<forall>r\<in>R. \<forall>r'\<in>R. \<forall>p p' t. is_path p \<longrightarrow> is_path p' \<longrightarrow> tbl m r p = Some t \<longrightarrow>
        tbl m r' p' = Some t \<longrightarrow> p = p' \<and> (r = r' \<or> shared p)) \<and>
     (\<forall>r\<in>R. \<forall>p t i. is_path (p @ [i]) \<longrightarrow> \<not> shared (p @ [i]) \<longrightarrow> tbl m r p = Some t \<longrightarrow>
        is_table (m (tadd t i)) \<or> m (tadd t i) = 0) \<and> valid_frame K"

definition tables :: "usize set \<Rightarrow> memory \<Rightarrow> usize set" where
  "tables R m = {t. \<exists>r\<in>R. \<exists>p. is_path p \<and> tbl m r p = Some t}"

lemma pt_inv_root: "pt_inv R K m \<Longrightarrow> r \<in> R \<Longrightarrow> m (tadd r 0) = K OR DESC_TABLE"
  by (simp add: pt_inv_def)

lemma pt_inv_valid: "pt_inv R K m \<Longrightarrow> r \<in> R \<Longrightarrow> is_path p \<Longrightarrow> tbl m r p = Some t \<Longrightarrow> valid_frame t"
  unfolding pt_inv_def by blast

lemma pt_inv_inj:
  "pt_inv R K m \<Longrightarrow> r \<in> R \<Longrightarrow> r' \<in> R \<Longrightarrow> is_path p \<Longrightarrow> is_path p' \<Longrightarrow>
   tbl m r p = Some t \<Longrightarrow> tbl m r' p' = Some t \<Longrightarrow> p = p' \<and> (r = r' \<or> shared p)"
  unfolding pt_inv_def by blast

lemma pt_inv_entry:
  "pt_inv R K m \<Longrightarrow> r \<in> R \<Longrightarrow> is_path (p @ [i]) \<Longrightarrow> \<not> shared (p @ [i]) \<Longrightarrow> tbl m r p = Some t \<Longrightarrow>
   is_table (m (tadd t i)) \<or> m (tadd t i) = 0"
  unfolding pt_inv_def by blast

lemma pt_inv_K: "pt_inv R K m \<Longrightarrow> valid_frame K"
  by (simp add: pt_inv_def)

lemma pt_inv_valid_root: "pt_inv R K m \<Longrightarrow> r \<in> R \<Longrightarrow> valid_frame r"
  using pt_inv_valid[of R K m r "[]"] by simp

lemma valid_frame_aligned: "valid_frame f \<Longrightarrow> page_aligned f"
  by (simp add: valid_frame_def)

lemma tablesI: "r \<in> R \<Longrightarrow> is_path p \<Longrightarrow> tbl m r p = Some t \<Longrightarrow> t \<in> tables R m"
  by (auto simp: tables_def)

lemma tables_valid: "pt_inv R K m \<Longrightarrow> t \<in> tables R m \<Longrightarrow> valid_frame t"
  by (auto simp: tables_def dest: pt_inv_valid)

text \<open>Two roots agree below slot 0.\<close>

lemma tbl_shared:
  assumes "pt_inv R K m" "r \<in> R" "r' \<in> R" "shared p"
  shows "tbl m r p = tbl m r' p"
  using assms by (cases p) (auto simp: shared_def pt_inv_root)

text \<open>
  The walk only reads slots of the tables on its path: memory that agrees on the tables
  of the tree gives the same walk.
\<close>

lemma tbl_cong:
  assumes "\<And>q i u. is_path (q @ [i]) \<Longrightarrow> tbl m r q = Some u \<Longrightarrow> m' (tadd u i) = m (tadd u i)"
    and "is_path p"
  shows "tbl m' r p = tbl m r p"
  using assms(2)
proof (induction p rule: rev_induct)
  case Nil
  then show ?case by simp
next
  case (snoc i p)
  then have "tbl m' r p = tbl m r p" by (simp add: is_path_snoc)
  with assms(1)[OF snoc.prems] show ?case by (auto simp: tbl_snoc split: option.splits)
qed

lemma tadd_distinct:
  "valid_frame t \<Longrightarrow> valid_frame u \<Longrightarrow> i < 0x200 \<Longrightarrow> j < 0x200 \<Longrightarrow> tadd t i = tadd u j \<longleftrightarrow> t = u \<and> i = j"
  by (simp add: tadd_eq_iff valid_frame_aligned)

text \<open>Hanging a fresh, zeroed table into an empty slot adds exactly one path.\<close>

definition installs :: "usize set \<Rightarrow> usize \<Rightarrow> memory \<Rightarrow> usize \<Rightarrow> usize list \<Rightarrow> usize \<Rightarrow> usize \<Rightarrow> usize \<Rightarrow>
    memory \<Rightarrow> bool" where
  "installs R K m r q i t f m' \<longleftrightarrow>
     pt_inv R K m \<and> r \<in> R \<and> is_path (q @ [i]) \<and> tbl m r q = Some t \<and>
     \<not> is_table (m (tadd t i)) \<and> valid_frame f \<and> f \<notin> tables R m \<and>
     m' (tadd t i) = f OR DESC_TABLE \<and> (\<forall>j < 0x200. m' (tadd f j) = 0) \<and>
     (\<forall>u \<in> tables R m. \<forall>j < 0x200. (u, j) \<noteq> (t, i) \<longrightarrow> m' (tadd u j) = m (tadd u j))"

lemma installs_slot: "installs R K m r q i t f m' \<Longrightarrow> \<not> (q = [] \<and> i = 0)"
  by (auto simp: installs_def dest: pt_inv_root)

lemma tbl_installs:
  assumes ins: "installs R K m r q i t f m'" and r': "r' \<in> R" and "is_path p"
  shows "tbl m' r' p = (if p = q @ [i] \<and> (r' = r \<or> shared p) then Some f else tbl m r' p)"
  using assms(3)
proof (induction p rule: rev_induct)
  case Nil
  then show ?case by simp
next
  case (snoc j p)
  then have p: "is_path p" "j < 0x200" by (auto simp: is_path_snoc)
  note IH = snoc.IH[OF p(1)] and not_slot0 = installs_slot[OF ins]
  from ins have inv: "pt_inv R K m" and r: "r \<in> R" and path: "is_path (q @ [i])"
    and t: "tbl m r q = Some t" and empty: "\<not> is_table (m (tadd t i))" and f: "valid_frame f"
    and hook: "m' (tadd t i) = f OR DESC_TABLE"
    by (auto simp: installs_def)
  show ?case
  proof (cases "p = q @ [i] \<and> (r' = r \<or> shared p)")
    case True
    have "tbl m r' p = tbl m r p" using True tbl_shared[OF inv r' r] by auto
    also have "\<dots> = None" using True t empty by (simp add: tbl_snoc)
    finally have "tbl m r' (p @ [j]) = None" by (simp add: tbl_snoc)
    moreover have "tbl m' r' p = Some f" using IH unfolding if_P[OF True] .
    then have "tbl m' r' (p @ [j]) = None" using ins p(2) by (simp add: tbl_snoc installs_def)
    ultimately show ?thesis using True by simp
  next
    case False
    then have eq: "tbl m' r' p = tbl m r' p" using IH by auto
    show ?thesis
    proof (cases "tbl m r' p")
      case None
      then have "p \<noteq> q \<or> \<not> (r' = r \<or> shared p)" using t tbl_shared[OF inv r' r] by auto
      with None eq not_slot0 show ?thesis by (auto simp: tbl_snoc shared_snoc split: if_splits)
    next
      case (Some u)
      then have u: "u \<in> tables R m" using r' p by (auto intro: tablesI)
      show ?thesis
      proof (cases "u = t \<and> j = i")
        case True
        then have "p = q \<and> (r' = r \<or> shared p)"
          using pt_inv_inj[OF inv r' r p(1) _ Some, of q] t path by (auto simp: is_path_snoc)
        then show ?thesis using True eq Some hook f by (auto simp: tbl_snoc shared_snoc)
      next
        case ne: False
        then have "m' (tadd u j) = m (tadd u j)" using ins u p(2) by (auto simp: installs_def)
        then have "tbl m' r' (p @ [j]) = tbl m r' (p @ [j])" using eq Some by (simp add: tbl_snoc)
        moreover have "\<not> (p = q \<and> j = i \<and> (r' = r \<or> shared (p @ [j])))"
          using ne Some t not_slot0 tbl_shared[OF inv r' r, of p]
          by (auto simp: shared_snoc split: if_splits)
        ultimately show ?thesis by auto
      qed
    qed
  qed
qed

lemma tables_installs:
  assumes ins: "installs R K m r q i t f m'"
  shows "tables R m' = insert f (tables R m)"
proof -
  from ins have r: "r \<in> R" "is_path (q @ [i])" and inv: "pt_inv R K m"
    and none: "tbl m r (q @ [i]) = None" by (auto simp: installs_def tbl_snoc)
  have "tbl m r' (q @ [i]) = None" if "r' \<in> R" "r' = r \<or> shared (q @ [i])" for r'
    using that none tbl_shared[OF inv r(1) that(1)] by auto
  then have keep: "tbl m' r' p = Some u" if "r' \<in> R" "is_path p" "tbl m r' p = Some u" for r' p u
    using that tbl_installs[OF ins that(1,2)] by auto
  show ?thesis
  proof (intro set_eqI iffI)
    fix u assume "u \<in> tables R m'"
    then obtain r' p where "r' \<in> R" "is_path p" "tbl m' r' p = Some u" by (auto simp: tables_def)
    then show "u \<in> insert f (tables R m)"
      by (auto simp: tbl_installs[OF ins] split: if_splits intro: tablesI)
  next
    fix u assume "u \<in> insert f (tables R m)"
    moreover have "f \<in> tables R m'" using tablesI[OF r] tbl_installs[OF ins r] by simp
    ultimately show "u \<in> tables R m'" by (auto simp: tables_def dest: keep)
  qed
qed

lemma pt_inv_installs:
  assumes ins: "installs R K m r q i t f m'"
  shows "pt_inv R K m'"
proof -
  from ins have inv: "pt_inv R K m" and f: "valid_frame f" "f \<notin> tables R m"
    and t: "tbl m r q = Some t" "r \<in> R" "is_path (q @ [i])"
    by (auto simp: installs_def)
  note tbl' = tbl_installs[OF ins]
  have same: "m' (tadd u j) = m (tadd u j)" if "u \<in> tables R m" "j < 0x200" "(u, j) \<noteq> (t, i)" for u j
    using ins that by (auto simp: installs_def)
  have old: "tbl m r' p \<noteq> Some f" if "r' \<in> R" "is_path p" for r' p
    using f(2) that by (auto intro: tablesI)
  show ?thesis
    unfolding pt_inv_def
  proof (intro conjI ballI allI impI)
    fix r' assume r': "r' \<in> R"
    have "(r', 0) \<noteq> (t, i)"
    proof
      assume "(r', 0) = (t, i)"
      then have "q = []" using pt_inv_inj[OF inv r' t(2), of "[]" q] t by (auto simp: is_path_snoc)
      then show False using installs_slot[OF ins] \<open>(r', 0) = (t, i)\<close> by simp
    qed
    then show "m' (tadd r' 0) = K OR DESC_TABLE"
      using same[of r' 0] r' tablesI[of r' R "[]" m] pt_inv_root[OF inv r'] by auto
  next
    fix r' p u assume "r' \<in> R" "is_path p" "tbl m' r' p = Some u"
    then show "valid_frame u" using f inv by (auto simp: tbl' split: if_splits dest: pt_inv_valid)
  next
    fix r1 r2 p1 p2 u
    assume *: "r1 \<in> R" "r2 \<in> R" "is_path p1" "is_path p2" "tbl m' r1 p1 = Some u" "tbl m' r2 p2 = Some u"
    then have "p1 = p2 \<and> (r1 = r2 \<or> shared p1)"
      using pt_inv_inj[OF inv *(1-4)] old[OF *(1,3)] old[OF *(2,4)] by (auto simp: tbl' split: if_splits)
    then show "p1 = p2" "r1 = r2 \<or> shared p1" by auto
  next
    fix r' p u j
    assume *: "r' \<in> R" "is_path (p @ [j])" "\<not> shared (p @ [j])" "tbl m' r' p = Some u"
    then have p: "is_path p" "j < 0x200" by (auto simp: is_path_snoc)
    show "is_table (m' (tadd u j)) \<or> m' (tadd u j) = 0"
    proof (cases "p = q @ [i] \<and> (r' = r \<or> shared p)")
      case True
      have "u = f" using tbl'[OF *(1) p(1)] *(4) unfolding if_P[OF True] by simp
      then show ?thesis using ins p(2) by (auto simp: installs_def)
    next
      case False
      have u: "tbl m r' p = Some u" using tbl'[OF *(1) p(1)] *(4) unfolding if_not_P[OF False] by simp
      show ?thesis
      proof (cases "(u, j) = (t, i)")
        case True
        then show ?thesis using ins by (auto simp: installs_def)
      next
        case False
        then have "m' (tadd u j) = m (tadd u j)"
          using same[OF tablesI[OF *(1) p(1) u] p(2)] by simp
        then show ?thesis using pt_inv_entry[OF inv *(1-3) u] by simp
      qed
    qed
  qed (rule pt_inv_K[OF inv])
qed

section \<open>Leaf descriptors\<close>

text \<open>The slots a virtual address selects at levels 0, 1 and 2, and its page.\<close>

definition va_path :: "usize \<Rightarrow> usize list" where
  "va_path va = [table_index va 39, table_index va 30, table_index va 21]"

text \<open>The level-3 descriptor of a virtual address, 0 where a table is missing.\<close>

definition leaf :: "memory \<Rightarrow> usize \<Rightarrow> usize \<Rightarrow> u64" where
  "leaf m r va = (case tbl m r (va_path va) of
     None \<Rightarrow> 0 | Some t \<Rightarrow> m (tadd t (table_index va 12)))"

definition same_page :: "usize \<Rightarrow> usize \<Rightarrow> bool" where
  "same_page va va' \<longleftrightarrow> va_path va = va_path va' \<and> table_index va 12 = table_index va' 12"

lemma table_index_less [simp]: "table_index va k < 0x200"
  by (simp add: table_index_def and_0x1FF_less)

lemma is_path_va_path [simp]: "is_path (va_path va)"
  by (simp add: is_path_def va_path_def)

lemma shared_va_path: "shared (va_path va) \<longleftrightarrow> table_index va 39 = 0"
  by (simp add: shared_def va_path_def)

lemma va_path_eqD: "va_path va' = va_path va \<Longrightarrow> table_index va' 39 = table_index va 39"
  by (simp add: va_path_def)

lemma translate_in_leaf:
  assumes "valid_frame r"
  shows "translate_in m r va = (if leaf m r va AND DESC_VALID = 0 then None
     else Some ((leaf m r va AND ADDR_MASK) OR (va AND 0xFFF)))"
  using assms
  by (simp add: translate_in_def leaf_def walk_tables_tbl va_path_def l0_ptr_def Let_def
      split: option.splits)

lemma leaf_installs:
  assumes ins: "installs R K m r q i t f m'" and r': "r' \<in> R"
  shows "leaf m' r' va = leaf m r' va"
proof (cases "va_path va = q @ [i] \<and> (r' = r \<or> shared (va_path va))")
  case True
  from ins have inv: "pt_inv R K m" "r \<in> R" and none: "tbl m r (q @ [i]) = None"
    by (auto simp: installs_def tbl_snoc)
  have "tbl m r' (va_path va) = None"
    using True none tbl_shared[OF inv r'] by auto
  moreover have "tbl m' r' (va_path va) = Some f"
    using tbl_installs[OF ins r' is_path_va_path, of va] unfolding if_P[OF True] .
  ultimately show ?thesis using ins by (simp add: leaf_def installs_def)
next
  case False
  have eq: "tbl m' r' (va_path va) = tbl m r' (va_path va)"
    using tbl_installs[OF ins r' is_path_va_path, of va] unfolding if_not_P[OF False] .
  have "m' (tadd u (table_index va 12)) = m (tadd u (table_index va 12))"
    if u: "tbl m r' (va_path va) = Some u" for u
  proof -
    have "length q < 3" using ins by (simp add: installs_def is_path_def)
    then have "q \<noteq> va_path va" by (auto simp: va_path_def)
    then have "u \<noteq> t"
      using ins u r' pt_inv_inj[of R K m r' r "va_path va" q u] by (auto simp: installs_def is_path_snoc)
    then show ?thesis using ins tablesI[OF r' is_path_va_path u] by (simp add: installs_def)
  qed
  then show ?thesis by (simp add: leaf_def eq split: option.splits)
qed

text \<open>Writing a level-3 slot changes one leaf, in the spaces that share its table.\<close>

lemma tbl_leaf_write:
  assumes inv: "pt_inv R K m" "r \<in> R" "tbl m r (va_path va) = Some t" "i < 0x200" "r' \<in> R" "is_path p"
  shows "tbl (m(tadd t i := v)) r' p = tbl m r' p"
proof (rule tbl_cong[OF _ assms(6)])
  fix q j u assume *: "is_path (q @ [j])" "tbl m r' q = Some u"
  then have "q \<noteq> va_path va" "is_path q" "j < 0x200" by (auto simp: is_path_def va_path_def)
  moreover from this have "u \<noteq> t" using pt_inv_inj[OF inv(1,5,2) _ _ *(2)] inv(3) by auto
  moreover have "valid_frame u" "valid_frame t"
    using pt_inv_valid[OF inv(1)] *(2) \<open>is_path q\<close> inv(2,3,5) is_path_va_path by blast+
  ultimately show "(m(tadd t i := v)) (tadd u j) = m (tadd u j)"
    using inv(4) by (auto simp: tadd_distinct)
qed

lemma leaf_write:
  assumes inv: "pt_inv R K m" "r \<in> R" "tbl m r (va_path va) = Some t" and r': "r' \<in> R"
  shows "leaf (m(tadd t (table_index va 12) := v)) r' va' =
    (if same_page va' va \<and> (r' = r \<or> table_index va 39 = 0) then v else leaf m r' va')"
proof -
  let ?m = "m(tadd t (table_index va 12) := v)"
  have eq: "tbl ?m r' (va_path va') = tbl m r' (va_path va')"
    using tbl_leaf_write[OF inv table_index_less r'] by simp
  show ?thesis
  proof (cases "tbl m r' (va_path va')")
    case None
    then have "\<not> (va_path va' = va_path va \<and> (r' = r \<or> table_index va 39 = 0))"
      using inv(3) tbl_shared[OF inv(1,2) r', of "va_path va"] by (auto simp: shared_va_path)
    with None eq show ?thesis by (auto simp: leaf_def same_page_def)
  next
    case (Some u)
    have vf: "valid_frame u" "valid_frame t"
      using pt_inv_valid[OF inv(1)] Some inv(2,3) r' is_path_va_path by blast+
    have "u = t \<longleftrightarrow> va_path va' = va_path va \<and> (r' = r \<or> table_index va 39 = 0)"
      using pt_inv_inj[OF inv(1) r' inv(2) _ _ Some, of "va_path va"] inv(3) Some
        tbl_shared[OF inv(1,2) r', of "va_path va"]
        va_path_eqD[of va' va]
      by (auto simp: shared_va_path)
    with Some eq vf show ?thesis by (auto simp: leaf_def same_page_def tadd_distinct)
  qed
qed

lemma pt_inv_leaf_write:
  assumes inv: "pt_inv R K m" "r \<in> R" "tbl m r (va_path va) = Some t" "i < 0x200"
  shows "pt_inv R K (m(tadd t i := v))" and "tables R (m(tadd t i := v)) = tables R m"
proof -
  let ?m = "m(tadd t i := v)"
  note eq = tbl_leaf_write[OF assms]
  show "tables R ?m = tables R m" by (auto simp: tables_def eq cong: conj_cong bex_cong)
  have keep: "?m (tadd u j) = m (tadd u j)" if "r' \<in> R" "tbl m r' p = Some u" "is_path (p @ [j])" for r' p u j
  proof -
    have p: "is_path p" "j < 0x200" "p \<noteq> va_path va" using that(3) by (auto simp: is_path_def va_path_def)
    then have "u \<noteq> t" using pt_inv_inj[OF inv(1) that(1) inv(2) _ _ that(2)] inv(3) by auto
    moreover have "valid_frame u" "valid_frame t"
      using pt_inv_valid[OF inv(1)] that p inv(2,3) is_path_va_path by blast+
    ultimately show ?thesis using p inv(4) by (auto simp: tadd_distinct)
  qed
  show "pt_inv R K ?m"
    unfolding pt_inv_def
  proof (intro conjI ballI allI impI)
    fix r' assume "r' \<in> R"
    then show "?m (tadd r' 0) = K OR DESC_TABLE"
      using keep[of r' "[]" r' 0] pt_inv_root[OF inv(1)] by (simp add: is_path_def)
  next
    fix r' p u assume "r' \<in> R" "is_path p" "tbl ?m r' p = Some u"
    then show "valid_frame u" by (auto simp: eq intro: pt_inv_valid[OF inv(1)])
  next
    fix r1 r2 p1 p2 u
    assume *: "r1 \<in> R" "r2 \<in> R" "is_path p1" "is_path p2" "tbl ?m r1 p1 = Some u" "tbl ?m r2 p2 = Some u"
    then show "p1 = p2" "r1 = r2 \<or> shared p1"
      using pt_inv_inj[OF inv(1) *(1-4)] by (auto simp: eq)
  next
    fix r' p u j
    assume *: "r' \<in> R" "is_path (p @ [j])" "\<not> shared (p @ [j])" "tbl ?m r' p = Some u"
    then have u: "tbl m r' p = Some u" by (simp add: eq is_path_snoc)
    show "is_table (?m (tadd u j)) \<or> ?m (tadd u j) = 0"
      using pt_inv_entry[OF inv(1) *(1-3) u] keep[OF *(1) u *(2)] by simp
  qed (rule pt_inv_K[OF inv(1)])
qed

section \<open>Block descriptors\<close>

text \<open>The block descriptor in slot \<open>i\<close> of the table at path \<open>p\<close>, if there is one.\<close>

definition blk :: "memory \<Rightarrow> usize \<Rightarrow> usize list \<Rightarrow> usize \<Rightarrow> u64 option" where
  "blk m r p i = (case tbl m r p of None \<Rightarrow> None | Some t \<Rightarrow>
     if m (tadd t i) AND DESC_VALID \<noteq> 0 \<and> \<not> is_table (m (tadd t i)) then Some (m (tadd t i)) else None)"

definition same_blocks :: "usize set \<Rightarrow> memory \<Rightarrow> memory \<Rightarrow> bool" where
  "same_blocks R m m' \<longleftrightarrow> (\<forall>r\<in>R. \<forall>p i. is_path (p @ [i]) \<longrightarrow> blk m' r p i = blk m r p i)"

lemma same_blocks_refl: "same_blocks R m m"
  by (simp add: same_blocks_def)

lemma same_blocks_trans: "same_blocks R m m' \<Longrightarrow> same_blocks R m' m'' \<Longrightarrow> same_blocks R m m''"
  by (simp add: same_blocks_def)

lemma installs_same:
  "installs R K m r q i t f m' \<Longrightarrow> u \<in> tables R m \<Longrightarrow> j < 0x200 \<Longrightarrow> (u, j) \<noteq> (t, i) \<Longrightarrow>
   m' (tadd u j) = m (tadd u j)"
  by (simp add: installs_def)

lemma same_blocks_installs:
  assumes ins: "installs R K m r q i t f m'" and inval: "m (tadd t i) AND DESC_VALID = 0"
  shows "same_blocks R m m'"
  unfolding same_blocks_def
proof (intro ballI allI impI)
  fix r' p j assume r': "r' \<in> R" and "is_path (p @ [j])"
  then have p: "is_path p" "j < 0x200" by (auto simp: is_path_snoc)
  from ins have inv: "pt_inv R K m" "r \<in> R" and none: "tbl m r (q @ [i]) = None"
    by (auto simp: installs_def tbl_snoc)
  show "blk m' r' p j = blk m r' p j"
  proof (cases "p = q @ [i] \<and> (r' = r \<or> shared p)")
    case True
    have "tbl m' r' p = Some f" using tbl_installs[OF ins r' p(1)] unfolding if_P[OF True] .
    moreover have "tbl m r' p = None" using True none tbl_shared[OF inv r'] by auto
    ultimately show ?thesis using ins p(2) by (simp add: blk_def installs_def)
  next
    case False
    have eq: "tbl m' r' p = tbl m r' p" using tbl_installs[OF ins r' p(1)] unfolding if_not_P[OF False] .
    show ?thesis
    proof (cases "tbl m r' p")
      case (Some u)
      show ?thesis
      proof (cases "(u, j) = (t, i)")
        case True
        then show ?thesis using Some eq inval ins by (simp add: blk_def installs_def)
      next
        case False
        then show ?thesis
          using Some eq installs_same[OF ins tablesI[OF r' p(1) Some] p(2)] by (simp add: blk_def)
      qed
    qed (simp add: blk_def eq)
  qed
qed

lemma same_blocks_leaf_write:
  assumes inv: "pt_inv R K m" "r \<in> R" "tbl m r (va_path va) = Some t" "i < 0x200"
  shows "same_blocks R m (m(tadd t i := v))"
  unfolding same_blocks_def
proof (intro ballI allI impI)
  fix r' p j assume r': "r' \<in> R" and pj: "is_path (p @ [j])"
  then have p: "is_path p" "j < 0x200" "p \<noteq> va_path va" by (auto simp: is_path_def va_path_def)
  have "(m(tadd t i := v)) (tadd u j) = m (tadd u j)" if u: "tbl m r' p = Some u" for u
  proof -
    have "u \<noteq> t" using pt_inv_inj[OF inv(1) r' inv(2) p(1) _ u] p(3) inv(3) by auto
    moreover have "valid_frame u" "valid_frame t"
      using pt_inv_valid[OF inv(1)] r' u p inv(2,3) is_path_va_path by blast+
    ultimately show ?thesis using p inv(4) by (auto simp: tadd_distinct)
  qed
  then show "blk (m(tadd t i := v)) r' p j = blk m r' p j"
    using tbl_leaf_write[OF inv r' p(1)] by (simp add: blk_def split: option.splits)
qed

end
