(* ===== verification/Address_Spaces.thy ===== *)
theory Address_Spaces
  imports Page_Tables
begin

unbundle bit_operations_syntax

text \<open>
  What the operations of \<^verbatim>\<open>mmu.rs\<close> do to the address spaces: mapping and unmapping a page
  change one leaf of one space, a new space shares the kernel and nothing else, freeing a
  space returns exactly its private tables to the pool, and the boot tables are an
  identity map for the hardware walk.
\<close>

section \<open>Fresh tables\<close>

definition vm_only :: "'a mmu_state_scheme \<Rightarrow> 'a mmu_state_scheme \<Rightarrow> bool" where
  "vm_only s s' \<longleftrightarrow> s' = s\<lparr>mem := mem s', tlb := tlb s', FRAME_ALLOCATOR := FRAME_ALLOCATOR s'\<rparr>"

lemma vm_only_refl [simp]: "vm_only s s"
  by (simp add: vm_only_def)

lemma vm_only_trans: "vm_only s t \<Longrightarrow> vm_only t u \<Longrightarrow> vm_only s u"
  unfolding vm_only_def by (metis (no_types, lifting) frames_state.surjective frames_state.update_convs(1)
      machine.update_convs(1) machine.update_convs(2))

lemma vm_only_write [simp]: "vm_only s (s\<lparr>mem := m\<rparr>)"
  by (simp add: vm_only_def)

lemma table_slots_set: "i \<in> set table_slots \<longleftrightarrow> i < 0x200"
proof
  assume "i \<in> set table_slots"
  then obtain n where "n < 512" "i = of_nat n" by (auto simp: table_slots_def ENTRIES_def)
  then show "i < 0x200" by (simp add: word_less_nat_alt unat_of_nat)
next
  assume "i < 0x200"
  then have "unat i < 512" "i = of_nat (unat i)" by (simp_all add: word_less_nat_alt)
  then show "i \<in> set table_slots" by (auto simp: table_slots_def ENTRIES_def intro!: image_eqI)
qed

lemma alloc_table_ok:
  assumes "frames_inv (f # fs) s"
  shows "wp alloc_table (\<lambda>t s'. t = f \<and> frames_inv fs s' \<and> (\<forall>i < 0x200. mem s' (tadd f i) = 0) \<and>
    (\<forall>a. page_of a \<noteq> f \<longrightarrow> mem s' a = mem s a) \<and> tlb s' = tlb s \<and> vm_only s s') s"
proof -
  let ?I = "\<lambda>pre s'. frames_inv fs s' \<and> (\<forall>i \<in> set pre. mem s' (tadd f i) = 0) \<and>
    (\<forall>a. page_of a \<noteq> f \<longrightarrow> mem s' a = mem s a) \<and> tlb s' = tlb s \<and> vm_only s s'"
  have f: "page_aligned f" "f \<notin> set fs" using assms by (auto simp: frames_inv_def valid_frame_def)
  have "wp (k_for table_slots (\<lambda>i. write_u64 (tadd f i) 0)) (\<lambda>_. ?I table_slots) (pop_state f s)"
  proof (rule wp_for)
    fix pre x post t assume xs: "table_slots = pre @ x # post" and I: "?I pre t"
    have "x \<in> set table_slots" unfolding xs by simp
    then have x: "x < 0x200" by (simp only: table_slots_set)
    then have "frames_inv fs (t\<lparr>mem := (mem t)(tadd f x := 0)\<rparr>)"
      using I f by (intro frames_inv_write) auto
    moreover have "vm_only s (t\<lparr>mem := (mem t)(tadd f x := 0)\<rparr>)"
      using I vm_only_trans vm_only_write by blast
    ultimately show "wp (write_u64 (tadd f x) 0) (\<lambda>_. ?I (pre @ [x])) t"
      using I x f by (auto simp: wp_rules)
  next
    show "?I [] (pop_state f s)"
      using alloc_frame_cons[OF assms] by (auto simp: pop_state_def vm_only_def)
  qed
  then show ?thesis
    using alloc_frame_cons[OF assms]
    by (auto simp: alloc_table_def wp_rules table_slots_set wp_def run_simps split: sum.splits)
qed

lemma alloc_table_empty:
  "frames_inv [] s \<Longrightarrow> alloc_table s = Inl (Expect ''out of frames while building page tables'')"
  by (simp add: alloc_table_def run_simps alloc_frame_empty)

section \<open>The invariant of the address spaces\<close>

definition vm_inv :: "usize set \<Rightarrow> usize list \<Rightarrow> 'a mmu_state_scheme \<Rightarrow> bool" where
  "vm_inv R fs s \<longleftrightarrow> frames_inv fs s \<and> pt_inv R (KERNEL_L1 s) (mem s) \<and> tables R (mem s) \<inter> set fs = {}"

text \<open>
  A step of the memory manager: the invariant holds again, tables and free frames together
  are the same frames, and memory outside them is untouched.
\<close>

definition vm_step :: "usize set \<Rightarrow> usize list \<Rightarrow> 'a mmu_state_scheme \<Rightarrow> usize list \<Rightarrow> 'a mmu_state_scheme \<Rightarrow> bool" where
  "vm_step R fs s gs s' \<longleftrightarrow> vm_inv R gs s' \<and> vm_only s s' \<and>
     tables R (mem s') \<union> set gs = tables R (mem s) \<union> set fs \<and>
     (\<forall>a. page_of a \<notin> tables R (mem s) \<union> set fs \<longrightarrow> mem s' a = mem s a)"

lemma vm_step_refl: "vm_inv R fs s \<Longrightarrow> vm_step R fs s fs s"
  by (simp add: vm_step_def)

lemma vm_step_trans: "vm_step R fs s gs t \<Longrightarrow> vm_step R gs t hs u \<Longrightarrow> vm_step R fs s hs u"
  unfolding vm_step_def using vm_only_trans by metis

lemma vm_only_KERNEL_L1: "vm_only s s' \<Longrightarrow> KERNEL_L1 s' = KERNEL_L1 s"
  unfolding vm_only_def by (metis mmu_state.select_convs(1) mmu_state.surjective frames_state.update_convs(1)
      machine.update_convs(1) machine.update_convs(2))


lemma vm_step_tlb: "vm_step R fs s gs t \<Longrightarrow> vm_step R fs s gs (t\<lparr>tlb := T\<rparr>)"
  using vm_only_trans[of s t "t\<lparr>tlb := T\<rparr>"]
  by (simp add: vm_step_def vm_inv_def frames_inv_def vm_only_def[of t])

lemma vm_inv_tables: "vm_inv R fs s \<Longrightarrow> t \<in> tables R (mem s) \<Longrightarrow> valid_frame t \<and> t \<notin> set fs"
  by (auto simp: vm_inv_def dest: tables_valid)

text \<open>No block descriptor on the way: a slot on the path holds a table or is invalid.\<close>

definition no_block :: "memory \<Rightarrow> usize \<Rightarrow> usize list \<Rightarrow> bool" where
  "no_block m r p \<longleftrightarrow> (\<forall>q i rest t. p = q @ i # rest \<longrightarrow> tbl m r q = Some t \<longrightarrow>
     is_table (m (tadd t i)) \<or> m (tadd t i) AND DESC_VALID = 0)"

lemma no_block_entry:
  "no_block m r p \<Longrightarrow> p = q @ i # rest \<Longrightarrow> tbl m r q = Some t \<Longrightarrow>
   is_table (m (tadd t i)) \<or> m (tadd t i) AND DESC_VALID = 0"
  unfolding no_block_def by blast

lemma no_block_private:
  assumes "pt_inv R K m" "r \<in> R" "is_path p" "\<not> shared p"
  shows "no_block m r p"
  unfolding no_block_def
proof (intro allI impI)
  fix q i rest t assume p: "p = q @ i # rest" and t: "tbl m r q = Some t"
  have "is_path (q @ [i])" "\<not> shared (q @ [i])" using assms(3,4) p by (auto simp: is_path_def shared_def hd_append split: if_splits)
  from pt_inv_entry[OF assms(1,2) this t] show "is_table (m (tadd t i)) \<or> m (tadd t i) AND DESC_VALID = 0"
    by auto
qed

lemma no_block_installs:
  assumes ins: "installs R K m r q i t f m'" and r': "r' \<in> R" and p: "is_path p" and nb: "no_block m r' p"
  shows "no_block m' r' p"
  unfolding no_block_def
proof (intro allI impI)
  fix q' j rest u assume eq: "p = q' @ j # rest" and u: "tbl m' r' q' = Some u"
  then have q': "is_path q'" "j < 0x200" using p by (auto simp: is_path_def)
  show "is_table (m' (tadd u j)) \<or> m' (tadd u j) AND DESC_VALID = 0"
  proof (cases "q' = q @ [i] \<and> (r' = r \<or> shared q')")
    case True
    have "u = f" using tbl_installs[OF ins r' q'(1)] u unfolding if_P[OF True] by simp
    then show ?thesis using ins q'(2) by (simp add: installs_def)
  next
    case False
    have u': "tbl m r' q' = Some u"
      using tbl_installs[OF ins r' q'(1)] u unfolding if_not_P[OF False] by simp
    show ?thesis
    proof (cases "(u, j) = (t, i)")
      case True
      then show ?thesis using ins by (simp add: installs_def)
    next
      case False
      then have "m' (tadd u j) = m (tadd u j)"
        using installs_same[OF ins tablesI[OF r' q'(1) u'] q'(2)] by simp
      then show ?thesis using no_block_entry[OF nb eq u'] by simp
    qed
  qed
qed

lemma tbl_installs_mono:
  assumes ins: "installs R K m r q i t f m'" and "r' \<in> R" "is_path p" "tbl m r' p = Some u"
  shows "tbl m' r' p = Some u"
proof -
  have no: "\<not> (p = q @ [i] \<and> (r' = r \<or> shared p))"
  proof
    assume *: "p = q @ [i] \<and> (r' = r \<or> shared p)"
    from ins have inv: "pt_inv R K m" "r \<in> R" and none: "tbl m r (q @ [i]) = None"
      by (auto simp: installs_def tbl_snoc)
    from * have "tbl m r' p = None" using none tbl_shared[OF inv assms(2)] by auto
    with assms(4) show False by simp
  qed
  from tbl_installs[OF assms(1-3)] assms(4) show ?thesis unfolding if_not_P[OF no] by simp
qed

section \<open>Mapping a page\<close>

text \<open>Everything \<^verbatim>\<open>get_or_create\<close> promises about the walk, as one predicate.\<close>

definition grows :: "usize set \<Rightarrow> memory \<Rightarrow> memory \<Rightarrow> bool" where
  "grows R m m' \<longleftrightarrow>
     (\<forall>r\<in>R. \<forall>p u. is_path p \<longrightarrow> tbl m r p = Some u \<longrightarrow> tbl m' r p = Some u) \<and>
     (\<forall>r\<in>R. \<forall>va. leaf m' r va = leaf m r va) \<and>
     (\<forall>r\<in>R. \<forall>p. is_path p \<longrightarrow> no_block m r p \<longrightarrow> no_block m' r p) \<and> same_blocks R m m'"

lemma grows_refl: "grows R m m"
  by (simp add: grows_def same_blocks_refl)

lemma grows_trans: "grows R m m' \<Longrightarrow> grows R m' m'' \<Longrightarrow> grows R m m''"
  by (auto simp: grows_def intro: same_blocks_trans)

lemma grows_installs: "installs R K m r q i t f m' \<Longrightarrow> m (tadd t i) AND DESC_VALID = 0 \<Longrightarrow> grows R m m'"
  unfolding grows_def by (auto intro: tbl_installs_mono leaf_installs no_block_installs same_blocks_installs)

text \<open>The only tables a walk along \<open>path\<close> of space \<open>r\<close> adds are on that path.\<close>

definition grows_on :: "usize set \<Rightarrow> usize \<Rightarrow> usize list \<Rightarrow> memory \<Rightarrow> memory \<Rightarrow> bool" where
  "grows_on R r path m m' \<longleftrightarrow> (\<forall>r'\<in>R. \<forall>p u. is_path p \<longrightarrow> tbl m' r' p = Some u \<longrightarrow>
     tbl m r' p = Some u \<or> (r' = r \<or> shared p) \<and> p \<noteq> [] \<and> (\<exists>rest. path = p @ rest))"

lemma grows_on_refl: "grows_on R r path m m"
  by (simp add: grows_on_def)

lemma grows_on_trans:
  "grows_on R r path m m' \<Longrightarrow> grows_on R r path m' m'' \<Longrightarrow> grows_on R r path m m''"
  unfolding grows_on_def by blast

lemma grows_on_prefix: "grows_on R r p m m' \<Longrightarrow> grows_on R r (p @ q) m m'"
  unfolding grows_on_def by force

lemma grows_on_installs:
  assumes ins: "installs R K m r q i t f m'"
  shows "grows_on R r (q @ [i]) m m'"
  unfolding grows_on_def by (auto simp: tbl_installs[OF ins] split: if_splits)

lemma get_or_create_ok:
  assumes inv: "vm_inv R fs s" and r: "r \<in> R" "is_path (q @ [i])" "tbl (mem s) r q = Some t"
    and entry: "is_table (mem s (tadd t i)) \<or> mem s (tadd t i) AND DESC_VALID = 0 \<and> fs \<noteq> []"
  shows "wp (get_or_create t i) (\<lambda>u s'.
    let gs = (if is_table (mem s (tadd t i)) then fs else tl fs) in
      vm_step R fs s gs s' \<and> tbl (mem s') r (q @ [i]) = Some u \<and> grows R (mem s) (mem s') \<and>
      grows_on R r (q @ [i]) (mem s) (mem s') \<and> tlb s' = tlb s) s"
proof (cases "is_table (mem s (tadd t i))")
  case True
  then have "mem s (tadd t i) AND DESC_VALID \<noteq> 0" by (rule is_table_valid)
  with True r(3) show ?thesis
    by (simp add: get_or_create_def wp_rules Let_def is_table_def[symmetric] tbl_snoc
        vm_step_refl[OF inv] grows_refl grows_on_refl)
next
  case False
  with entry obtain f gs where fs: "fs = f # gs" and e: "mem s (tadd t i) AND DESC_VALID = 0"
    by (cases fs) auto
  have pt: "pt_inv R (KERNEL_L1 s) (mem s)" "frames_inv (f # gs) s" using inv fs by (auto simp: vm_inv_def)
  have tt: "t \<in> tables R (mem s)" using r by (auto intro: tablesI simp: is_path_snoc)
  have f: "valid_frame f" "f \<notin> tables R (mem s)" "f \<notin> set gs"
    using inv fs by (auto simp: vm_inv_def frames_inv_def)
  have i: "i < 0x200" using r(2) by (simp add: is_path_snoc)
  have t: "valid_frame t" "t \<notin> set gs" "t \<noteq> f" using vm_inv_tables[OF inv tt] fs by auto
  show ?thesis
    unfolding get_or_create_def wp_bind wp_read_u64 if_not_P[OF not_not[THEN iffD2, OF e]]
  proof (rule wp_mono[OF alloc_table_ok[OF pt(2)]], elim conjE, goal_cases)
    case (1 u s1)
    let ?s = "s1\<lparr>mem := (mem s1)(tadd t i := u OR DESC_TABLE)\<rparr>"
    have pages: "mem s1 (tadd v j) = mem s (tadd v j)" if "v \<in> tables R (mem s)" "j < 0x200" for v j
    proof -
      have "page_of (tadd v j) = v"
        using that vm_inv_tables[OF inv that(1)] by (simp add: valid_frame_aligned)
      then show ?thesis using 1 that(1) f(2) by metis
    qed
    have ins: "installs R (KERNEL_L1 s) (mem s) r q i t f (mem ?s)"
      unfolding installs_def
      using pt r False f t i 1 pages vm_inv_tables[OF inv]
      by (auto simp: tadd_distinct)
    have fr: "frames_inv gs ?s"
      using 1 t i by (intro frames_inv_write) (auto simp: valid_frame_aligned)
    have "vm_only s ?s" using 1 vm_only_trans vm_only_write by blast
    then have "vm_step R fs s gs ?s"
      using pt_inv_installs[OF ins] tables_installs[OF ins] fr fs f inv 1 tt t i
      by (auto simp: vm_step_def vm_inv_def vm_only_KERNEL_L1 valid_frame_aligned)
    then show ?case
      using False grows_installs[OF ins e] grows_on_installs[OF ins] tbl_installs[OF ins r(1,2)] fs 1
      by (simp add: wp_rules Let_def)
  qed
qed

lemma get_or_create_oom:
  assumes "frames_inv [] s" "mem s (tadd t i) AND DESC_VALID = 0"
  shows "get_or_create t i s = Inl (Expect ''out of frames while building page tables'')"
  using assms by (simp add: get_or_create_def run_simps read_u64_def alloc_table_empty)

lemma get_or_create_block:
  assumes "mem s (tadd t i) AND DESC_VALID \<noteq> 0" "\<not> is_table (mem s (tadd t i))"
  shows "get_or_create t i s =
    Inl (Assertion ''expected a table descriptor while walking, found a block'')"
  using assms by (simp add: get_or_create_def run_simps read_u64_def is_table_def)


text \<open>The state of the walk of \<^verbatim>\<open>map_page_in\<close> after \<open>k\<close> levels.\<close>

definition walk_state :: "usize set \<Rightarrow> usize list \<Rightarrow> 'a mmu_state_scheme \<Rightarrow> usize \<Rightarrow> usize list \<Rightarrow>
    nat \<Rightarrow> usize \<Rightarrow> 'a mmu_state_scheme \<Rightarrow> bool" where
  "walk_state R fs s r p k u s' \<longleftrightarrow> tbl (mem s') r (take k p) = Some u \<and>
     grows R (mem s) (mem s') \<and> grows_on R r p (mem s) (mem s') \<and> tlb s' = tlb s \<and>
     (\<exists>n \<le> k. vm_step R fs s (drop n fs) s' \<and> (tbl (mem s) r p \<noteq> None \<longrightarrow> n = 0))"

lemma tbl_prefix: "tbl m r (p @ q) \<noteq> None \<Longrightarrow> tbl m r p \<noteq> None"
  by (auto simp: tbl_append split: option.splits)

lemma get_or_create_wlp:
  assumes inv: "vm_inv R fs s" and r: "r \<in> R" "is_path (q @ [i])" "tbl (mem s) r q = Some t"
  shows "wlp (get_or_create t i) (\<lambda>u s'.
    let gs = (if is_table (mem s (tadd t i)) then fs else tl fs) in
      vm_step R fs s gs s' \<and> tbl (mem s') r (q @ [i]) = Some u \<and> grows R (mem s) (mem s') \<and>
      grows_on R r (q @ [i]) (mem s) (mem s') \<and> tlb s' = tlb s) s"
proof -
  let ?e = "mem s (tadd t i)"
  have "frames_inv fs s" using inv by (simp add: vm_inv_def)
  then consider "is_table ?e \<or> ?e AND DESC_VALID = 0 \<and> fs \<noteq> []" | e where "get_or_create t i s = Inl e"
    using get_or_create_block[of s t i] get_or_create_oom[of s t i] by blast
  then show ?thesis
  proof cases
    case 1
    then show ?thesis by (rule wp_wlp[OF get_or_create_ok[OF assms]])
  qed (simp add: wlp_def)
qed

text \<open>One level down: what \<^verbatim>\<open>get_or_create\<close> guarantees extends the walk.\<close>

lemma walk_state_extend:
  assumes r: "r \<in> R" and p: "is_path p" "k < length p"
    and W: "walk_state R fs s r p k t s1"
  obtains n where "n \<le> k" "vm_inv R (drop n fs) s1" "is_path (take k p @ [p ! k])"
    "tbl (mem s1) r (take k p) = Some t"
    "tbl (mem s) r p \<noteq> None \<Longrightarrow> is_table (mem s1 (tadd t (p ! k)))"
    "\<And>u s'. (let gs = (if is_table (mem s1 (tadd t (p ! k))) then drop n fs else tl (drop n fs)) in
        vm_step R (drop n fs) s1 gs s' \<and> tbl (mem s') r (take k p @ [p ! k]) = Some u \<and>
        grows R (mem s1) (mem s') \<and> grows_on R r (take k p @ [p ! k]) (mem s1) (mem s') \<and>
        tlb s' = tlb s1) \<Longrightarrow> walk_state R fs s r p (Suc k) u s'"
proof -
  from W obtain n where n: "n \<le> k" "vm_step R fs s (drop n fs) s1" "tbl (mem s) r p \<noteq> None \<longrightarrow> n = 0"
    and t: "tbl (mem s1) r (take k p) = Some t" and g: "grows R (mem s) (mem s1)" "tlb s1 = tlb s"
      "grows_on R r p (mem s) (mem s1)"
    by (auto simp: walk_state_def)
  let ?i = "p ! k" and ?e = "mem s1 (tadd t (p ! k))"
  have split: "p = take k p @ ?i # drop (Suc k) p" using p(2) by (simp add: id_take_nth_drop)
  have pk: "is_path (take k p @ [?i])" and take: "take (Suc k) p = take k p @ [?i]"
    using p by (auto simp: is_path_def take_Suc_conv_app_nth dest: in_set_takeD)
  have full: "is_table ?e" if "tbl (mem s) r p \<noteq> None"
  proof -
    have "tbl (mem s1) r p \<noteq> None" using that g(1) r p(1) by (auto simp: grows_def)
    then have "tbl (mem s1) r (take k p @ [?i] @ drop (Suc k) p) \<noteq> None" using split by simp
    then have "tbl (mem s1) r (take k p @ [?i]) \<noteq> None"
      using tbl_prefix[of "mem s1" r "take k p @ [?i]" "drop (Suc k) p"] by simp
    then show ?thesis using t by (simp add: tbl_snoc split: if_splits)
  qed
  show thesis
  proof (rule that[OF n(1) _ pk t full])
    show "vm_inv R (drop n fs) s1" using n(2) by (simp add: vm_step_def)
    fix u s'
    assume *: "let gs = (if is_table ?e then drop n fs else tl (drop n fs)) in
      vm_step R (drop n fs) s1 gs s' \<and> tbl (mem s') r (take k p @ [?i]) = Some u \<and>
      grows R (mem s1) (mem s') \<and> grows_on R r (take k p @ [?i]) (mem s1) (mem s') \<and> tlb s' = tlb s1"
    let ?n = "if is_table ?e then n else Suc n"
    have "?n \<le> Suc k" "tbl (mem s) r p \<noteq> None \<longrightarrow> ?n = 0" using n full by auto
    moreover have "vm_step R fs s (drop ?n fs) s'"
      using * n(2) vm_step_trans by (auto simp: Let_def drop_Suc tl_drop split: if_splits)
    moreover have "grows_on R r (take (Suc k) p @ drop (Suc k) p) (mem s1) (mem s')"
      by (rule grows_on_prefix, unfold take) (use * in \<open>simp add: Let_def\<close>)
    then have "grows_on R r p (mem s1) (mem s')" by simp
    then have "grows_on R r p (mem s) (mem s')" using g(3) grows_on_trans by blast
    ultimately show "walk_state R fs s r p (Suc k) u s'"
      unfolding walk_state_def using * g take grows_trans by (auto simp: Let_def)
  qed
qed

lemma walk_state_step:
  assumes r: "r \<in> R" and p: "is_path p" "k < length p" and nb: "no_block (mem s) r p"
    and room: "tbl (mem s) r p \<noteq> None \<or> length p \<le> length fs"
    and W: "walk_state R fs s r p k t s1"
  shows "wp (get_or_create t (p ! k)) (walk_state R fs s r p (Suc k)) s1"
proof -
  let ?e = "mem s1 (tadd t (p ! k))"
  have split: "p = take k p @ p ! k # drop (Suc k) p" using p(2) by (simp add: id_take_nth_drop)
  have "no_block (mem s1) r p" using W r p(1) nb by (simp add: walk_state_def grows_def)
  moreover have "tbl (mem s1) r (take k p) = Some t" using W by (simp add: walk_state_def)
  ultimately have e: "is_table ?e \<or> ?e AND DESC_VALID = 0" using no_block_entry[OF _ split] by blast
  from walk_state_extend[OF r p W] show ?thesis
  proof cases
    case (1 n)
    have "is_table ?e \<or> ?e AND DESC_VALID = 0 \<and> drop n fs \<noteq> []" using e 1(1,5) room p(2) by auto
    from get_or_create_ok[OF 1(2) r 1(3,4) this] show ?thesis by (rule wp_mono) (rule 1(6))
  qed
qed

lemma walk_state_wlp:
  assumes r: "r \<in> R" and p: "is_path p" "k < length p" and W: "walk_state R fs s r p k t s1"
  shows "wlp (get_or_create t (p ! k)) (walk_state R fs s r p (Suc k)) s1"
  using walk_state_extend[OF r p W]
proof cases
  case (1 n)
  from get_or_create_wlp[OF 1(2) r 1(3,4)] show ?thesis by (rule wlp_mono) (rule 1(6))
qed

lemma walk_state_init: "vm_inv R fs s \<Longrightarrow> walk_state R fs s r p 0 r s"
  by (auto simp: walk_state_def grows_refl grows_on_refl intro: vm_step_refl)

definition new_tables :: "memory \<Rightarrow> usize \<Rightarrow> usize \<Rightarrow> nat" where
  "new_tables m r va = (if tbl m r (va_path va) = None then 3 else 0)"

text \<open>The effect of a write to the level-3 slot of an address, in every space.\<close>

definition leaf_update :: "usize set \<Rightarrow> memory \<Rightarrow> usize \<Rightarrow> usize \<Rightarrow> u64 \<Rightarrow> memory \<Rightarrow> bool" where
  "leaf_update R m r va d m' \<longleftrightarrow> (\<forall>r'\<in>R. \<forall>va'. leaf m' r' va' =
     (if same_page va' va \<and> (r' = r \<or> table_index va 39 = 0) then d else leaf m r' va')) \<and>
     same_blocks R m m'"

lemma leaf_slot_write:
  assumes inv: "vm_inv R fs s" and r: "r \<in> R" "tbl (mem s) r (va_path va) = Some t"
  shows "vm_step R fs s fs (s\<lparr>mem := (mem s)(tadd t (table_index va 12) := d)\<rparr>)"
    and "leaf_update R (mem s) r va d ((mem s)(tadd t (table_index va 12) := d))"
proof -
  let ?m = "(mem s)(tadd t (table_index va 12) := d)"
  have pt: "pt_inv R (KERNEL_L1 s) (mem s)" using inv by (simp add: vm_inv_def)
  have t: "t \<in> tables R (mem s)" by (rule tablesI[OF r(1) is_path_va_path r(2)])
  note vt = vm_inv_tables[OF inv t]
  have "frames_inv fs (s\<lparr>mem := ?m\<rparr>)"
    using inv vt by (intro frames_inv_write) (auto simp: vm_inv_def valid_frame_aligned)
  then show "vm_step R fs s fs (s\<lparr>mem := ?m\<rparr>)"
    using pt_inv_leaf_write[OF pt r table_index_less] inv t vt
    by (auto simp: vm_step_def vm_inv_def valid_frame_aligned)
  show "leaf_update R (mem s) r va d ?m"
    using leaf_write[OF pt r] same_blocks_leaf_write[OF pt r table_index_less] by (simp add: leaf_update_def)
qed

lemma va_path_nth: "va_path va ! 0 = table_index va 39" "va_path va ! Suc 0 = table_index va 30"
  "va_path va ! Suc (Suc 0) = table_index va 21" "length (va_path va) = Suc (Suc (Suc 0))"
  by (auto simp: va_path_def)

lemma walk_state_finish:
  assumes inv: "vm_inv R fs s" and r: "r \<in> R"
    and W: "walk_state R fs s r (va_path va) (Suc (Suc (Suc 0))) t s1"
    and s2: "s2 = s1\<lparr>mem := (mem s1)(tadd t (table_index va 12) := d)\<rparr>"
  shows "\<exists>n \<le> new_tables (mem s) r va. vm_step R fs s (drop n fs) (s2\<lparr>tlb := T\<rparr>) \<and>
      leaf_update R (mem s) r va d (mem s2) \<and> grows_on R r (va_path va) (mem s) (mem s2)"
proof -
  let ?p = "va_path va"
  have take3: "take (Suc (Suc (Suc 0))) ?p = ?p" by (simp add: va_path_def)
  from W obtain n where n: "n \<le> 3" "vm_step R fs s (drop n fs) s1" "tbl (mem s) r ?p \<noteq> None \<longrightarrow> n = 0"
    and t: "tbl (mem s1) r ?p = Some t" and g: "grows R (mem s) (mem s1)"
    and go: "grows_on R r ?p (mem s) (mem s1)"
    using take3 unfolding walk_state_def numeral_3_eq_3 by auto
  from n(2) have inv1: "vm_inv R (drop n fs) s1" by (simp add: vm_step_def)
  note w = leaf_slot_write[OF inv1 r t, of d, folded s2]
  have "vm_step R fs s (drop n fs) (s2\<lparr>tlb := T\<rparr>)" using vm_step_tlb[OF vm_step_trans[OF n(2) w(1)]] .
  moreover have "leaf (mem s1) r' va' = leaf (mem s) r' va'" if "r' \<in> R" for r' va'
    using g that by (simp add: grows_def)
  with w(2) have "leaf_update R (mem s) r va d (mem s2)"
    using g same_blocks_trans unfolding leaf_update_def s2 grows_def by (auto split: if_split)
  moreover have "n \<le> new_tables (mem s) r va" using n by (auto simp: new_tables_def)
  moreover have "tbl (mem s2) r' p = tbl (mem s1) r' p" if "r' \<in> R" "is_path p" for r' p
  proof -
    have "pt_inv R (KERNEL_L1 s1) (mem s1)" using inv1 by (simp add: vm_inv_def)
    from tbl_leaf_write[OF this r t table_index_less that] show ?thesis by (simp add: s2)
  qed
  then have "grows_on R r ?p (mem s) (mem s2)" using go by (simp add: grows_on_def)
  ultimately show ?thesis by blast
qed

definition mapped :: "usize set \<Rightarrow> usize list \<Rightarrow> 'a mmu_state_scheme \<Rightarrow> usize \<Rightarrow> usize \<Rightarrow> u64 \<Rightarrow>
    'a mmu_state_scheme \<Rightarrow> bool" where
  "mapped R fs s r va d s' \<longleftrightarrow> (\<exists>n \<le> new_tables (mem s) r va. vm_step R fs s (drop n fs) s') \<and>
     leaf_update R (mem s) r va d (mem s') \<and> grows_on R r (va_path va) (mem s) (mem s') \<and>
     tlb s' = (tlb s)(drop_bit 12 va := None)"

lemma walk_state_mapped:
  assumes inv: "vm_inv R fs s" and r: "r \<in> R"
    and W: "walk_state R fs s r (va_path va) (Suc (Suc (Suc 0))) t s1"
  shows "mapped R fs s r va d (s1\<lparr>mem := (mem s1)(tadd t (table_index va 12) := d),
      tlb := (tlb s1)(drop_bit 12 va := None)\<rparr>)"
proof -
  have "tlb s1 = tlb s" using W by (simp add: walk_state_def)
  then show ?thesis
    using walk_state_finish[OF inv r W refl, where d = d and T = "(tlb s)(drop_bit 12 va := None)"]
    by (auto simp: mapped_def)
qed

lemma map_page_in_ok:
  assumes inv: "vm_inv R fs s" and r: "r \<in> R" and nb: "no_block (mem s) r (va_path va)"
    and room: "new_tables (mem s) r va \<le> length fs"
  shows "wp (map_page_in r va pa flags) (\<lambda>_. mapped R fs s r va ((pa AND ADDR_MASK) OR flags)) s"
proof -
  let ?p = "va_path va"
  have room': "tbl (mem s) r ?p \<noteq> None \<or> length ?p \<le> length fs"
    using room by (auto simp: new_tables_def va_path_nth split: if_splits)
  note step = walk_state_step[OF r is_path_va_path _ nb room']
  show ?thesis
    unfolding map_page_in_def tlbi_vaae1_def wp_bind wp_write_u64 wp_modify
    apply (rule wp_mono[OF step[of 0, unfolded va_path_nth, OF _ walk_state_init[OF inv]]], simp)
    apply (rule wp_mono[OF step[of "Suc 0", unfolded va_path_nth]], simp, assumption)
    apply (rule wp_mono[OF step[of "Suc (Suc 0)", unfolded va_path_nth]], simp, assumption)
    subgoal for _ _ _ _ t s1
      using walk_state_mapped[OF inv r, of va t s1] by simp
    done
qed

lemma map_page_in_wlp:
  assumes inv: "vm_inv R fs s" and r: "r \<in> R"
  shows "wlp (map_page_in r va pa flags) (\<lambda>_. mapped R fs s r va ((pa AND ADDR_MASK) OR flags)) s"
proof -
  note step = walk_state_wlp[OF r is_path_va_path]
  show ?thesis
    unfolding map_page_in_def tlbi_vaae1_def write_u64_def wlp_bind wlp_modify
    apply (rule wlp_mono[OF step[of 0, unfolded va_path_nth, OF _ walk_state_init[OF inv]]], simp)
    apply (rule wlp_mono[OF step[of "Suc 0", unfolded va_path_nth]], simp, assumption)
    apply (rule wlp_mono[OF step[of "Suc (Suc 0)", unfolded va_path_nth]], simp, assumption)
    subgoal for _ _ _ _ t s1
      using walk_state_mapped[OF inv r, of va t s1] by simp
    done
qed

section \<open>Spaces a change of memory does not touch\<close>

lemma pt_inv_mono: "pt_inv R K m \<Longrightarrow> R' \<subseteq> R \<Longrightarrow> pt_inv R' K m"
  unfolding pt_inv_def by (intro conjI) blast+

lemma tables_mono: "R' \<subseteq> R \<Longrightarrow> tables R' m \<subseteq> tables R m"
  by (auto simp: tables_def)

text \<open>Memory that agrees on the tables of a set of spaces describes the same spaces.\<close>

lemma spaces_cong:
  assumes inv: "pt_inv R K m" and same: "\<forall>u \<in> tables R m. \<forall>j < 0x200. m' (tadd u j) = m (tadd u j)"
  shows "pt_inv R K m'" and "tables R m' = tables R m" and "r \<in> R \<Longrightarrow> leaf m' r va = leaf m r va"
    and "r \<in> R \<Longrightarrow> is_path p \<Longrightarrow> tbl m' r p = tbl m r p" and "same_blocks R m m'"
proof -
  have eq: "tbl m' r p = tbl m r p" if "r \<in> R" "is_path p" for r p
  proof (rule tbl_cong[OF _ that(2)])
    fix q i u assume "is_path (q @ [i])" "tbl m r q = Some u"
    then have "u \<in> tables R m" "i < 0x200" using tablesI[OF that(1), of q] by (auto simp: is_path_snoc)
    then show "m' (tadd u i) = m (tadd u i)" using same by blast
  qed
  then show "r \<in> R \<Longrightarrow> is_path p \<Longrightarrow> tbl m' r p = tbl m r p" .
  show "tables R m' = tables R m" by (auto simp: tables_def eq cong: conj_cong bex_cong)
  show "leaf m' r va = leaf m r va" if "r \<in> R"
    using same tablesI[OF that is_path_va_path] eq[OF that is_path_va_path]
    by (simp add: leaf_def split: option.splits)
  have entry: "m' (tadd u i) = m (tadd u i)" if "r \<in> R" "is_path (p @ [i])" "tbl m r p = Some u" for r p i u
  proof -
    have "u \<in> tables R m" "i < 0x200" using tablesI[OF that(1) _ that(3)] that(2) by (auto simp: is_path_snoc)
    then show ?thesis using same by blast
  qed
  show "same_blocks R m m'"
    by (auto simp: same_blocks_def blk_def eq entry is_path_snoc split: option.splits)
  show "pt_inv R K m'"
    unfolding pt_inv_def
  proof (intro conjI ballI allI impI)
    fix r assume "r \<in> R"
    then show "m' (tadd r 0) = K OR DESC_TABLE"
      using entry[of r "[]" 0 r] pt_inv_root[OF inv] by (simp add: is_path_def)
  next
    fix r p t assume "r \<in> R" "is_path p" "tbl m' r p = Some t"
    then show "valid_frame t" using pt_inv_valid[OF inv] by (simp add: eq)
  next
    fix r r' p p' t
    assume *: "r \<in> R" "r' \<in> R" "is_path p" "is_path p'" "tbl m' r p = Some t" "tbl m' r' p' = Some t"
    then show "p = p'" "r = r' \<or> shared p" using pt_inv_inj[OF inv *(1-4)] by (auto simp: eq)
  next
    fix r p t i assume *: "r \<in> R" "is_path (p @ [i])" "\<not> shared (p @ [i])" "tbl m' r p = Some t"
    then have "tbl m r p = Some t" by (simp add: eq is_path_snoc)
    then show "is_table (m' (tadd t i)) \<or> m' (tadd t i) = 0"
      using pt_inv_entry[OF inv *(1-3)] entry[OF *(1,2)] by simp
  qed (rule pt_inv_K[OF inv])
qed

section \<open>Unmapping a page\<close>

lemma va_path_not_Nil [simp]: "va_path va \<noteq> []"
  by (simp add: va_path_def)

lemma unmap_page_in_ok:
  assumes inv: "vm_inv R fs s" and r: "r \<in> R"
  shows "wp (unmap_page_in r va) (\<lambda>_ s'. vm_step R fs s fs s' \<and> leaf_update R (mem s) r va 0 (mem s') \<and>
    tlb s' = (if tbl (mem s) r (va_path va) = None then tlb s else (tlb s)(drop_bit 12 va := None))) s"
proof (cases "tbl (mem s) r (va_path va)")
  case None
  have pt: "pt_inv R (KERNEL_L1 s) (mem s)" using inv by (simp add: vm_inv_def)
  have "leaf (mem s) r' va' = 0" if "r' \<in> R" "same_page va' va" "r' = r \<or> table_index va 39 = 0" for r' va'
    using None that tbl_shared[OF pt r that(1), of "va_path va"]
    by (auto simp: leaf_def same_page_def shared_va_path)
  then have "leaf_update R (mem s) r va 0 (mem s)" by (auto simp: leaf_update_def same_blocks_refl)
  then show ?thesis
    using None vm_step_refl[OF inv]
    by (simp add: unmap_page_in_def wp_rules walk_tables_tbl va_path_def[symmetric])
next
  case (Some t)
  then show ?thesis
    using leaf_slot_write[OF inv r Some, of 0] vm_step_tlb
    by (simp add: unmap_page_in_def wp_rules walk_tables_tbl va_path_def[symmetric] tlbi_vaae1_def)
qed

section \<open>Creating an address space\<close>

lemma pt_inv_new_root:
  assumes inv: "pt_inv R K m" and r: "r \<in> R" and f: "valid_frame f" "f \<notin> tables R m"
    and root: "m' (tadd f 0) = K OR DESC_TABLE" and zeros: "\<forall>i < 0x200. 0 < i \<longrightarrow> m' (tadd f i) = 0"
    and sames: "\<forall>u \<in> tables R m. \<forall>j < 0x200. m' (tadd u j) = m (tadd u j)"
  shows "pt_inv (insert f R) K m'"
    and "tables (insert f R) m' = insert f (tables R m)"
    and "r' \<in> R \<Longrightarrow> is_path p \<Longrightarrow> tbl m' r' p = tbl m r' p"
    and "is_path p \<Longrightarrow> tbl m' f p = (if p = [] then Some f else if shared p then tbl m r p else None)"
proof -
  note zero = zeros[rule_format] and same = sames[rule_format]
  have old: "tbl m' r' p = tbl m r' p" if "r' \<in> R" "is_path p" for r' p
    using that(2) by (rule tbl_cong[rotated]) (use that in \<open>auto simp: is_path_snoc intro!: same intro: tablesI\<close>)
  then show "r' \<in> R \<Longrightarrow> is_path p \<Longrightarrow> tbl m' r' p = tbl m r' p" .
  have new: "tbl m' f p = (if p = [] then Some f else if shared p then tbl m r p else None)" if "is_path p" for p
  proof (cases p)
    case (Cons i q)
    have i: "i < 0x200" using that Cons by (simp add: is_path_def)
    show ?thesis
    proof (cases "i = 0")
      case True
      have "tbl m' f p = tbl m' r p"
        using Cons True root same[of r 0] pt_inv_root[OF inv r] tablesI[OF r, of "[]" m] by simp
      then show ?thesis using Cons True old[OF r that] by (simp add: shared_def)
    next
      case False
      then have "m' (tadd f i) = 0" using zero[of i] i by (simp add: word_neq_0_conv)
      then show ?thesis using Cons False by (simp add: shared_def)
    qed
  qed simp
  then show "is_path p \<Longrightarrow> tbl m' f p = (if p = [] then Some f else if shared p then tbl m r p else None)" .
  have sub: "tables R m \<subseteq> tables (insert f R) m'" by (auto simp: tables_def old cong: conj_cong bex_cong)
  have "f \<in> tables (insert f R) m'" by (rule tablesI[of _ _ "[]"]) auto
  moreover have "tables (insert f R) m' \<subseteq> insert f (tables R m)"
  proof
    fix u assume "u \<in> tables (insert f R) m'"
    then obtain r' p where "r' \<in> insert f R" "is_path p" "tbl m' r' p = Some u" by (auto simp: tables_def)
    then show "u \<in> insert f (tables R m)"
      using r by (auto simp: old new split: if_splits intro: tablesI)
  qed
  ultimately show "tables (insert f R) m' = insert f (tables R m)" using sub by blast
  show "pt_inv (insert f R) K m'"
    unfolding pt_inv_def
  proof (intro conjI ballI allI impI)
    fix r' assume "r' \<in> insert f R"
    then show "m' (tadd r' 0) = K OR DESC_TABLE"
      using root same[of r' 0] pt_inv_root[OF inv, of r'] tablesI[of r' R "[]" m] by auto
  next
    fix r' p u assume "r' \<in> insert f R" "is_path p" "tbl m' r' p = Some u"
    then show "valid_frame u"
      using f r pt_inv_valid[OF inv] by (auto simp: old new split: if_splits)
  next
    fix r1 r2 p1 p2 u
    assume *: "r1 \<in> insert f R" "r2 \<in> insert f R" "is_path p1" "is_path p2"
      "tbl m' r1 p1 = Some u" "tbl m' r2 p2 = Some u"
    have notf: "tbl m r' p \<noteq> Some f" if "r' \<in> R" "is_path p" for r' p
      using f(2) that by (auto intro: tablesI)
    have origin: "p = [] \<and> r' = f \<and> u = f \<or> (\<exists>x\<in>R. tbl m x p = Some u \<and> (x = r' \<or> shared p))"
      if "r' \<in> insert f R" "is_path p" "tbl m' r' p = Some u" for r' p
      using that r by (auto simp: old new split: if_splits)
    have "p1 = p2 \<and> (r1 = r2 \<or> shared p1)"
      using origin[OF *(1,3,5)] origin[OF *(2,4,6)]
      by (elim disjE conjE bexE) (use notf *(3,4) pt_inv_inj[OF inv _ _ *(3,4)] in blast)+
    then show "p1 = p2" "r1 = r2 \<or> shared p1" by auto
  next
    fix r' p u j
    assume *: "r' \<in> insert f R" "is_path (p @ [j])" "\<not> shared (p @ [j])" "tbl m' r' p = Some u"
    then have p: "is_path p" "j < 0x200" by (auto simp: is_path_snoc)
    show "is_table (m' (tadd u j)) \<or> m' (tadd u j) = 0"
    proof (cases "r' \<in> R")
      case True
      then have u: "tbl m r' p = Some u" using * p by (simp add: old)
      show ?thesis using pt_inv_entry[OF inv True *(2,3) u] same[OF tablesI[OF True p(1) u] p(2)] by simp
    next
      case False
      then have "r' = f" using * by simp
      then have "p = [] \<and> u = f \<and> j \<noteq> 0"
        using * p by (auto simp: new shared_snoc split: if_splits)
      then show ?thesis using zero p by (simp add: word_neq_0_conv)
    qed
  qed (rule pt_inv_K[OF inv])
qed

lemma new_address_space_ok:
  assumes inv: "vm_inv R (f # fs) s" and r: "r \<in> R"
  shows "wp new_address_space (\<lambda>root s'. root = f \<and> f \<notin> R \<and> vm_inv (insert f R) fs s' \<and> vm_only s s' \<and>
    tlb s' = tlb s \<and>
    (\<forall>r'\<in>R. \<forall>va. leaf (mem s') r' va = leaf (mem s) r' va) \<and> same_blocks R (mem s) (mem s') \<and>
    (\<forall>va. leaf (mem s') f va = (if table_index va 39 = 0 then leaf (mem s) r va else 0)) \<and>
    (\<forall>p i. is_path (p @ [i]) \<longrightarrow> shared p \<longrightarrow> blk (mem s') f p i = blk (mem s) r p i) \<and>
    tables (insert f R) (mem s') = insert f (tables R (mem s)) \<and>
    (\<forall>i < 0x200. 0 < i \<longrightarrow> mem s' (tadd f i) = 0) \<and>
    (\<forall>a. page_of a \<notin> tables R (mem s) \<union> set (f # fs) \<longrightarrow> mem s' a = mem s a)) s"
proof -
  let ?K = "KERNEL_L1 s"
  have pt: "pt_inv R ?K (mem s)" "frames_inv (f # fs) s" using inv by (auto simp: vm_inv_def)
  have f: "valid_frame f" "f \<notin> tables R (mem s)" "f \<notin> set fs"
    using inv by (auto simp: vm_inv_def frames_inv_def)
  have fR: "f \<notin> R" using f(2) tablesI[of f R "[]"] by auto
  have K: "?K \<noteq> 0" using pt_inv_K[OF pt(1)] valid_frame_nonzero by auto
  show ?thesis
    unfolding new_address_space_def wp_bind
  proof (rule wp_mono[OF alloc_table_ok[OF pt(2)]], elim conjE, goal_cases)
    case (1 u s1)
    let ?s = "s1\<lparr>mem := (mem s1)(tadd f 0 := ?K OR DESC_TABLE)\<rparr>"
    have K1: "KERNEL_L1 s1 = ?K" using 1 by (simp add: vm_only_KERNEL_L1)
    have same: "mem ?s (tadd v j) = mem s (tadd v j)" if "v \<in> tables R (mem s)" "j < 0x200" for v j
    proof -
      have "page_of (tadd v j) = v" "page_of (tadd f 0) = f"
        using that f(1) vm_inv_tables[OF inv that(1)] by (simp_all add: valid_frame_aligned)
      then show ?thesis using 1 that(1) f(2) by (metis fun_upd_other machine.select_convs(1) machine.surjective machine.update_convs(1))
    qed
    have zero: "mem ?s (tadd f i) = 0" if "0 < i" "i < 0x200" for i
      using 1 that f(1) by (auto simp: tadd_distinct)
    have zeros: "\<forall>i < 0x200. 0 < i \<longrightarrow> mem ?s (tadd f i) = 0" using zero by blast
    have slots: "\<forall>i < 0x200. 0 < i \<longrightarrow> tadd f i \<noteq> tadd f 0 \<and> mem s1 (tadd f i) = 0"
      using 1 f(1) by (auto simp: tadd_distinct)
    have sames: "\<forall>u \<in> tables R (mem s). \<forall>j < 0x200. mem ?s (tadd u j) = mem s (tadd u j)" using same by blast
    have root: "mem ?s (tadd f 0) = ?K OR DESC_TABLE" by simp
    note new = pt_inv_new_root[where m' = "mem ?s", OF pt(1) r f(1,2) root zeros sames]
    have fr: "frames_inv fs ?s"
      using 1 f by (intro frames_inv_write) (auto simp: valid_frame_aligned)
    have "tables (insert f R) (mem ?s) \<inter> set fs = {}"
      unfolding new(2) using f inv by (auto simp: vm_inv_def)
    then have vi: "vm_inv (insert f R) fs ?s" using fr new(1) K1 by (simp add: vm_inv_def)
    have vo: "vm_only s ?s" using 1 vm_only_trans vm_only_write by blast
    have tix: "table_index va 12 < 0x200" for va by simp
    have leaf1: "leaf (mem ?s) r' va = leaf (mem s) r' va" if "r' \<in> R" for r' va
      using spaces_cong(3)[OF pt(1) sames that] .
    have blocks: "same_blocks R (mem s) (mem ?s)" using spaces_cong(5)[OF pt(1) sames] .
    have leaf2: "leaf (mem ?s) f va = (if table_index va 39 = 0 then leaf (mem s) r va else 0)" for va
      using new(4)[OF is_path_va_path, of va] same[OF tablesI[OF r is_path_va_path] tix]
      by (auto simp: leaf_def shared_va_path split: option.splits)
    have blk2: "blk (mem ?s) f p i = blk (mem s) r p i" if "is_path (p @ [i])" "shared p" for p i
    proof -
      have p: "is_path p" "i < 0x200" "p \<noteq> []" using that by (auto simp: is_path_snoc)
      then have "tbl (mem ?s) f p = tbl (mem s) r p" using new(4)[OF p(1)] that(2) by simp
      then show ?thesis
        using same[OF tablesI[OF r p(1)] p(2)] by (simp add: blk_def split: option.splits)
    qed
    have out: "mem ?s a = mem s a" if "page_of a \<notin> tables R (mem s) \<union> set (f # fs)" for a
      using that 1 f(1) by (auto simp: valid_frame_aligned)
    show ?case
      using 1 K K1 vi vo leaf1 leaf2 blk2 blocks out fR new(2) slots valid_frame_aligned[OF f(1)] by (simp add: wp_rules)
  qed
qed

section \<open>Freeing an address space\<close>

definition short :: "nat \<Rightarrow> usize list \<Rightarrow> bool" where
  "short l p \<longleftrightarrow> length p \<le> l \<and> (\<forall>i \<in> set p. i < 0x200)"

definition subtables :: "nat \<Rightarrow> memory \<Rightarrow> usize \<Rightarrow> usize set" where
  "subtables l m t = {u. \<exists>p. short l p \<and> tbl m t p = Some u}"

definition tree_inj :: "nat \<Rightarrow> memory \<Rightarrow> usize \<Rightarrow> bool" where
  "tree_inj l m t \<longleftrightarrow> (\<forall>p p' u. short l p \<longrightarrow> short l p' \<longrightarrow> tbl m t p = Some u \<longrightarrow>
     tbl m t p' = Some u \<longrightarrow> p = p')"

text \<open>The subtrees hanging from the slots \<open>is\<close> of a table.\<close>

definition children :: "nat \<Rightarrow> memory \<Rightarrow> usize \<Rightarrow> usize set \<Rightarrow> usize set" where
  "children l m t is = (\<Union>i \<in> {i \<in> is. is_table (m (tadd t i))}. subtables l m (m (tadd t i) AND ADDR_MASK))"

lemma children_mono: "is \<subseteq> js \<Longrightarrow> children l m t is \<subseteq> children l m t js"
  by (auto simp: children_def)

lemma is_path_short: "is_path p \<longleftrightarrow> short 3 p"
  by (simp add: is_path_def short_def)

lemma short_Cons: "short (Suc l) (i # p) \<longleftrightarrow> i < 0x200 \<and> short l p"
  by (auto simp: short_def)

lemma short_Nil [simp]: "short l []"
  by (simp add: short_def)

lemma subtables_self: "t \<in> subtables l m t"
  unfolding subtables_def by (auto intro!: exI[of _ "[]"])

lemma subtables_0: "subtables 0 m t = {t}"
  by (auto simp: subtables_def short_def)

lemma subtables_Suc: "subtables (Suc l) m t = insert t (children l m t {i. i < 0x200})"
proof (intro set_eqI iffI)
  fix u assume "u \<in> subtables (Suc l) m t"
  then obtain p where p: "short (Suc l) p" "tbl m t p = Some u" by (auto simp: subtables_def)
  then show "u \<in> insert t (children l m t {i. i < 0x200})"
    by (cases p) (auto simp: short_Cons children_def subtables_def split: if_splits)
next
  fix u assume "u \<in> insert t (children l m t {i. i < 0x200})"
  then show "u \<in> subtables (Suc l) m t"
  proof
    assume "u \<in> children l m t {i. i < 0x200}"
    then obtain i p where "i < 0x200" "is_table (m (tadd t i))" "short l p" "tbl m (m (tadd t i) AND ADDR_MASK) p = Some u"
      by (auto simp: children_def subtables_def)
    then show ?thesis unfolding subtables_def by (auto simp: short_Cons intro!: exI[of _ "i # p"])
  qed (simp add: subtables_self)
qed

lemma tree_inj_child:
  assumes "tree_inj (Suc l) m t" "i < 0x200" "is_table (m (tadd t i))"
  shows "tree_inj l m (m (tadd t i) AND ADDR_MASK)"
  unfolding tree_inj_def
proof (intro allI impI)
  fix p p' u
  assume "short l p" "short l p'" "tbl m (m (tadd t i) AND ADDR_MASK) p = Some u"
    "tbl m (m (tadd t i) AND ADDR_MASK) p' = Some u"
  with assms(2,3) have "short (Suc l) (i # p)" "short (Suc l) (i # p')" "tbl m t (i # p) = Some u"
    "tbl m t (i # p') = Some u" by (simp_all add: short_Cons)
  then have "i # p = i # p'" using assms(1) unfolding tree_inj_def by blast
  then show "p = p'" by simp
qed

lemma tree_inj_disjoint:
  assumes "tree_inj (Suc l) m t" "i < 0x200" "i \<notin> is" "\<forall>j \<in> is. j < 0x200" "is_table (m (tadd t i))"
  shows "subtables l m (m (tadd t i) AND ADDR_MASK) \<inter> children l m t is = {}"
    and "t \<notin> subtables l m (m (tadd t i) AND ADDR_MASK)"
proof -
  have eq: "i # p = p'"
    if "short l p" "tbl m (m (tadd t i) AND ADDR_MASK) p = Some u" "short (Suc l) p'" "tbl m t p' = Some u" for p p' u
  proof -
    have "short (Suc l) (i # p)" "tbl m t (i # p) = Some u" using that assms(2,5) by (simp_all add: short_Cons)
    then show ?thesis using that(3,4) assms(1) unfolding tree_inj_def by blast
  qed
  show "t \<notin> subtables l m (m (tadd t i) AND ADDR_MASK)"
    using eq[of _ t "[]"] by (auto simp: subtables_def)
  show "subtables l m (m (tadd t i) AND ADDR_MASK) \<inter> children l m t is = {}"
  proof (rule ccontr)
    assume "\<not> ?thesis"
    then obtain u p j p' where "short l p" "tbl m (m (tadd t i) AND ADDR_MASK) p = Some u"
      and j: "j \<in> is" "is_table (m (tadd t j))" "short l p'" "tbl m (m (tadd t j) AND ADDR_MASK) p' = Some u"
      by (auto simp: subtables_def children_def)
    with eq[of p u "j # p'"] assms(3,4) show False by (auto simp: short_Cons)
  qed
qed

lemma tbl_cong_short:
  assumes "\<forall>u \<in> subtables l m t. \<forall>i < 0x200. m' (tadd u i) = m (tadd u i)" and "short l p"
  shows "tbl m' t p = tbl m t p"
  using assms(2)
proof (induction p rule: rev_induct)
  case Nil
  then show ?case by simp
next
  case (snoc i p)
  then have p: "short l p" "i < 0x200" by (auto simp: short_def)
  then have "tbl m' t p = tbl m t p" using snoc.IH by simp
  moreover have "m' (tadd u i) = m (tadd u i)" if "tbl m t p = Some u" for u
    using assms(1) p that by (auto simp: subtables_def)
  ultimately show ?case by (auto simp: tbl_snoc split: option.splits)
qed

lemma subtables_cong:
  assumes "\<forall>u \<in> subtables l m t. \<forall>i < 0x200. m' (tadd u i) = m (tadd u i)"
  shows "subtables l m' t = subtables l m t" and "tree_inj l m' t = tree_inj l m t"
  using tbl_cong_short[OF assms] by (auto simp: subtables_def tree_inj_def)

lemma vm_only_push [simp]: "vm_only s (push_state f s)"
  by (simp add: push_state_def vm_only_def)

text \<open>What freeing the set \<open>U\<close> of tables does.\<close>

definition frees :: "usize set \<Rightarrow> usize list \<Rightarrow> 'a mmu_state_scheme \<Rightarrow> 'a mmu_state_scheme \<Rightarrow> bool" where
  "frees U fs s s' \<longleftrightarrow> (\<exists>gs. frames_inv (gs @ fs) s' \<and> set gs = U) \<and>
     (\<forall>a. a \<notin> U \<longrightarrow> mem s' a = mem s a) \<and> vm_only s s' \<and> tlb s' = tlb s"

lemma frees_trans: "frees U fs s t \<Longrightarrow> (\<And>gs. frames_inv (gs @ fs) t \<Longrightarrow> set gs = U \<Longrightarrow> frees V (gs @ fs) t u) \<Longrightarrow>
    frees (U \<union> V) fs s u"
proof -
  assume st: "frees U fs s t" and *: "\<And>gs. frames_inv (gs @ fs) t \<Longrightarrow> set gs = U \<Longrightarrow> frees V (gs @ fs) t u"
  from st obtain gs where gs: "frames_inv (gs @ fs) t" "set gs = U" by (auto simp: frees_def)
  from *[OF gs] obtain hs where "frames_inv (hs @ gs @ fs) u" "set hs = V" by (auto simp: frees_def)
  then have "frames_inv ((hs @ gs) @ fs) u \<and> set (hs @ gs) = U \<union> V" using gs by auto
  moreover have "vm_only s u" "tlb u = tlb s" "\<forall>a. a \<notin> U \<union> V \<longrightarrow> mem u a = mem s a"
    using st *[OF gs] vm_only_trans by (auto simp: frees_def)
  ultimately show ?thesis unfolding frees_def by blast
qed


lemma set_table_slots: "set table_slots = {i. i < 0x200}"
  by (auto simp: table_slots_set)

lemma table_slots_distinct: "distinct table_slots"
proof -
  have "inj_on (of_nat :: nat \<Rightarrow> usize) {0..<ENTRIES}"
    by (rule inj_onI) (simp add: ENTRIES_def word_unat_eq_iff unat_of_nat)
  then show ?thesis by (simp add: table_slots_def distinct_map)
qed

lemma frees_push:
  assumes "frees U fs s s1" and t: "valid_frame t" "t \<notin> U" "t \<notin> set fs"
  shows "wp (free_frame_at t) (\<lambda>_ s'. frees (insert t U) fs s s') s1"
proof -
  from assms obtain gs where gs: "frames_inv (gs @ fs) s1" "set gs = U" by (auto simp: frees_def)
  have "t \<notin> set (gs @ fs)" using gs t by simp
  note push = frame_push_ok[OF gs(1) t(1) this]
  have "frees (insert t U) fs s (push_state t s1)"
    unfolding frees_def
  proof (intro conjI allI impI)
    show "\<exists>gs. frames_inv (gs @ fs) (push_state t s1) \<and> set gs = insert t U"
      using push(2) gs(2) by (intro exI[of _ "t # gs"]) simp
    show "mem (push_state t s1) a = mem s a" if "a \<notin> insert t U" for a
      using that assms(1) by (simp add: push_state_def frees_def)
    show "vm_only s (push_state t s1)" using assms(1) vm_only_trans[OF _ vm_only_push] by (auto simp: frees_def)
    show "tlb (push_state t s1) = tlb s" using assms(1) by (simp add: push_state_def frees_def)
  qed
  then show ?thesis using push(1) by (simp add: free_frame_at_def wp_def)
qed

lemma frees_refl: "frames_inv fs s \<Longrightarrow> frees {} fs s s"
  by (simp add: frees_def)

lemma free_child:
  assumes IH: "\<And>t fs (s :: 'a mmu_state_scheme). frames_inv fs s \<Longrightarrow> tree_inj l (mem s) t \<Longrightarrow>
      \<forall>u \<in> subtables l (mem s) t. valid_frame u \<and> u \<notin> set fs \<Longrightarrow>
      wp (free_subtree l t) (\<lambda>_ s'. frees (subtables l (mem s) t) fs s s') s"
    and inj: "tree_inj (Suc l) (mem (s :: 'a mmu_state_scheme)) t"
    and ok: "\<forall>u \<in> subtables (Suc l) (mem s) t. valid_frame u \<and> u \<notin> set fs"
    and i: "i < 0x200" "i \<notin> is" "is \<subseteq> {i. i < 0x200}"
    and I: "frees (children l (mem s) t is) fs s s1"
  shows "wp (k_bind (read_u64 (tadd t i)) (\<lambda>entry.
      k_when (entry AND DESC_TABLE = DESC_TABLE) (free_subtree l (entry AND ADDR_MASK))))
    (\<lambda>_. frees (children l (mem s) t (insert i is)) fs s) s1"
proof -
  let ?m = "mem s" and ?F = "children l (mem s) t is"
  have t: "valid_frame t" using ok subtables_self by blast
  have F: "valid_frame u" if "u \<in> ?F" for u
    using ok children_mono[OF i(3)] that unfolding subtables_Suc by blast
  have kept: "mem s1 (tadd u j) = ?m (tadd u j)" if "valid_frame u" "u \<notin> ?F" "j < 0x200" for u j
  proof -
    have "tadd u j \<notin> ?F"
    proof
      assume c: "tadd u j \<in> ?F"
      then have "page_aligned (tadd u j)" using F by (simp add: valid_frame_def)
      then have "tadd u j = u" using page_of_tadd[of u j] that by (simp add: valid_frame_def)
      with c that(2) show False by simp
    qed
    then show ?thesis using I by (simp add: frees_def)
  qed
  have "t \<notin> ?F" using tree_inj_disjoint(2)[OF inj, of _ "{}"] i(3) by (auto simp: children_def)
  then have e: "mem s1 (tadd t i) = ?m (tadd t i)" using kept t i(1) by blast
  show ?thesis
  proof (cases "is_table (?m (tadd t i))")
    case False
    then have "children l ?m t (insert i is) = ?F" by (auto simp: children_def)
    then show ?thesis using False I e by (simp add: wp_rules is_table_def)
  next
    case True
    let ?c = "?m (tadd t i) AND ADDR_MASK"
    have un: "children l ?m t (insert i is) = ?F \<union> subtables l ?m ?c"
      and sub: "subtables l ?m ?c \<subseteq> children l ?m t {i. i < 0x200}"
      using True i(1) by (auto simp: children_def)
    have dis: "subtables l ?m ?c \<inter> ?F = {}"
      using tree_inj_disjoint(1)[OF inj i(1,2) _ True] i(3) by auto
    have val: "\<forall>u \<in> subtables l ?m ?c. valid_frame u \<and> u \<notin> set fs"
      using sub ok unfolding subtables_Suc by blast
    have cong: "subtables l (mem s1) ?c = subtables l ?m ?c" "tree_inj l (mem s1) ?c = tree_inj l ?m ?c"
      using subtables_cong[of l ?m ?c "mem s1"] kept dis val by blast+
    from I obtain gs where gs: "frames_inv (gs @ fs) s1" "set gs = ?F" by (auto simp: frees_def)
    have "wp (free_subtree l ?c) (\<lambda>_. frees (subtables l (mem s1) ?c) (gs @ fs) s1) s1"
      using tree_inj_child[OF inj i(1) True] dis val gs(2) by (intro IH[OF gs(1)]) (auto simp: cong)
    then have "wp (free_subtree l ?c) (\<lambda>_. frees (?F \<union> subtables l ?m ?c) fs s) s1"
      by (rule wp_mono) (rule frees_trans[OF I], metis append_eq_append_conv cong(1) frames_inv_unique gs(1))
    then show ?thesis using True e un by (simp add: wp_rules is_table_def)
  qed
qed

lemma free_subtree_ok:
  assumes "frames_inv fs s" and "tree_inj l (mem s) t"
    and "\<forall>u \<in> subtables l (mem s) t. valid_frame u \<and> u \<notin> set fs"
  shows "wp (free_subtree l t) (\<lambda>_ s'. frees (subtables l (mem s) t) fs s s') s"
  using assms
proof (induction l arbitrary: t fs s)
  case 0
  then have "valid_frame t" "t \<notin> set fs" by (auto simp: subtables_0)
  then show ?case unfolding free_subtree.simps subtables_0
    using frees_push[OF frees_refl[OF 0(1)]] by simp
next
  case (Suc l)
  let ?I = "\<lambda>pre s'. frees (children l (mem s) t (set pre)) fs s s'"
  have "wp (k_for table_slots (\<lambda>i. k_bind (read_u64 (tadd t i)) (\<lambda>entry.
      k_when (entry AND DESC_TABLE = DESC_TABLE) (free_subtree l (entry AND ADDR_MASK)))))
    (\<lambda>_. ?I table_slots) s"
  proof (rule wp_for)
    show "?I [] s" using Suc.prems(1) by (simp add: frees_def children_def)
  next
    fix pre i post s1 assume xs: "table_slots = pre @ i # post" and I: "?I pre s1"
    have slots: "i < 0x200" "i \<notin> set pre" "set pre \<subseteq> {i. i < 0x200}"
      using table_slots_distinct set_table_slots unfolding xs by auto
    show "wp (k_bind (read_u64 (tadd t i)) (\<lambda>entry.
        k_when (entry AND DESC_TABLE = DESC_TABLE) (free_subtree l (entry AND ADDR_MASK))))
      (\<lambda>_. ?I (pre @ [i])) s1"
      using free_child[OF _ Suc.prems(2,3) slots I] Suc.IH unfolding set_append list.set Un_insert_right Un_empty_right
      by blast
  qed
  then show ?case
    unfolding free_subtree.simps wp_bind
  proof (rule wp_mono)
    fix x s1 assume I: "?I table_slots s1"
    have I': "frees (children l (mem s) t {i. i < 0x200}) fs s s1" using I unfolding set_table_slots .
    have "t \<notin> children l (mem s) t {i. i < 0x200}"
      using tree_inj_disjoint(2)[OF Suc.prems(2), of _ "{}"] by (auto simp: children_def)
    then show "wp (free_frame_at t) (\<lambda>_. frees (subtables (Suc l) (mem s) t) fs s) s1"
      unfolding subtables_Suc
      using Suc.prems(3) subtables_self by (intro frees_push[OF I']) blast+
  qed
qed

text \<open>The tables only one space reaches.\<close>

definition private_tables :: "memory \<Rightarrow> usize \<Rightarrow> usize set" where
  "private_tables m r = {t. \<exists>p. is_path p \<and> \<not> shared p \<and> tbl m r p = Some t}"

text \<open>A space that maps pages in the user window and the kernel slot only.\<close>

definition window_only :: "memory \<Rightarrow> usize \<Rightarrow> bool" where
  "window_only m r \<longleftrightarrow> (\<forall>i < 0x200. i \<noteq> 0 \<longrightarrow> i \<noteq> USER_L0_IDX \<longrightarrow> \<not> is_table (m (tadd r i)))"

lemma USER_L0_IDX_1: "USER_L0_IDX = 1"
  by (simp add: USER_L0_IDX_def USER_BASE_def drop_bit_eq_div)

lemma private_tables_window:
  assumes "window_only m r"
  shows "private_tables m r = insert r (children 2 m r {USER_L0_IDX})"
proof (intro set_eqI iffI)
  fix u assume "u \<in> private_tables m r"
  then obtain p where p: "is_path p" "\<not> shared p" "tbl m r p = Some u" by (auto simp: private_tables_def)
  show "u \<in> insert r (children 2 m r {USER_L0_IDX})"
  proof (cases p)
    case (Cons i q)
    have i: "i < 0x200" "i \<noteq> 0" "short 2 q"
      using p Cons by (auto simp: is_path_def shared_def short_def)
    moreover have "is_table (m (tadd r i))" using p Cons by (auto split: if_splits)
    ultimately have "i = USER_L0_IDX" using assms by (auto simp: window_only_def)
    then show ?thesis using p Cons i by (auto simp: children_def subtables_def split: if_splits)
  qed (use p in simp)
next
  fix u assume "u \<in> insert r (children 2 m r {USER_L0_IDX})"
  then consider "u = r" | q where "is_table (m (tadd r USER_L0_IDX))" "short 2 q"
      "tbl m (m (tadd r USER_L0_IDX) AND ADDR_MASK) q = Some u"
    by (auto simp: children_def subtables_def)
  then show "u \<in> private_tables m r"
  proof cases
    case 1
    then show ?thesis by (auto simp: private_tables_def intro!: exI[of _ "[]"])
  next
    case 2
    then show ?thesis
      by (auto simp: private_tables_def is_path_def short_def shared_def USER_L0_IDX_1
          intro!: exI[of _ "1 # q"])
  qed
qed

lemma private_disjoint:
  assumes "pt_inv R K m" "r \<in> R"
  shows "private_tables m r \<inter> tables (R - {r}) m = {}"
  using pt_inv_inj[OF assms] by (fastforce simp: private_tables_def tables_def)

lemma private_tables_subset: "r \<in> R \<Longrightarrow> private_tables m r \<subseteq> tables R m"
  by (auto simp: private_tables_def tables_def)

lemma tables_private:
  assumes "pt_inv R K m" "r \<in> R" "r0 \<in> R" "r0 \<noteq> r"
  shows "tables R m = tables (R - {r}) m \<union> private_tables m r"
proof -
  have "u \<in> tables (R - {r}) m \<union> private_tables m r" if "r' \<in> R" "is_path p" "tbl m r' p = Some u" for r' p u
  proof (cases "r' = r")
    case True
    show ?thesis
    proof (cases "shared p")
      case True
      then have "tbl m r0 p = Some u" using tbl_shared[OF assms(1,3) that(1)] that(3) by simp
      then show ?thesis using assms that(2) by (auto intro: tablesI[of r0])
    qed (use True that in \<open>auto simp: private_tables_def\<close>)
  qed (use that in \<open>auto intro: tablesI\<close>)
  then have "tables R m \<subseteq> tables (R - {r}) m \<union> private_tables m r"
    unfolding tables_def[of R] by blast
  then show ?thesis
    using private_tables_subset[OF assms(2), of m] tables_mono[of "R - {r}" R m] by blast
qed

lemma tree_inj_window:
  assumes inv: "pt_inv R K m" "r \<in> R"
  shows "tree_inj (Suc 2) m r"
  unfolding tree_inj_def
proof (intro allI impI)
  fix p p' u
  assume "short (Suc 2) p" "short (Suc 2) p'" "tbl m r p = Some u" "tbl m r p' = Some u"
  then show "p = p'" using pt_inv_inj[OF inv(1) inv(2) inv(2)] by (simp add: is_path_short eval_nat_numeral)
qed

lemma frees_private_keep:
  assumes inv: "vm_inv R fs s" and r: "r \<in> R" and F: "frees (private_tables (mem s) r) fs s s'"
  shows "\<forall>u \<in> tables (R - {r}) (mem s). \<forall>j < 0x200. mem s' (tadd u j) = mem s (tadd u j)"
proof (intro ballI allI impI)
  fix u j :: usize assume u: "u \<in> tables (R - {r}) (mem s)" and j: "j < 0x200"
  have pt: "pt_inv R (KERNEL_L1 s) (mem s)" using inv by (simp add: vm_inv_def)
  have al: "page_aligned u"
    using u tables_mono[of "R - {r}" R "mem s"] vm_inv_tables[OF inv] valid_frame_aligned by blast
  have "tadd u j \<notin> private_tables (mem s) r"
  proof
    assume c: "tadd u j \<in> private_tables (mem s) r"
    then have "page_aligned (tadd u j)"
      using vm_inv_tables[OF inv] private_tables_subset[OF r] valid_frame_aligned by blast
    then have "tadd u j = u" using page_of_tadd[OF al j] by simp
    then show False using c u private_disjoint[OF pt r] by auto
  qed
  then show "mem s' (tadd u j) = mem s (tadd u j)" using F by (simp add: frees_def)
qed

lemma free_address_space_ok:
  assumes inv: "vm_inv R fs s" and r: "r \<in> R" and w: "window_only (mem s) r"
  shows "wp (free_address_space r) (\<lambda>_ s'. frees (private_tables (mem s) r) fs s s' \<and>
    (\<exists>gs. vm_inv (R - {r}) (gs @ fs) s' \<and> set gs = private_tables (mem s) r) \<and>
    (\<forall>r' \<in> R - {r}. \<forall>va. leaf (mem s') r' va = leaf (mem s) r' va) \<and>
    same_blocks (R - {r}) (mem s) (mem s')) s"
proof -
  let ?P = "private_tables (mem s) r" and ?C = "children 2 (mem s) r {USER_L0_IDX}"
  have pt: "pt_inv R (KERNEL_L1 s) (mem s)" "frames_inv fs s" using inv by (auto simp: vm_inv_def)
  have vr: "valid_frame r" using pt_inv_valid_root[OF pt(1) r] .
  have P: "?P = insert r ?C" by (rule private_tables_window[OF w])
  have val: "valid_frame u \<and> u \<notin> set fs" if "u \<in> ?P" for u
    using vm_inv_tables[OF inv] private_tables_subset[OF r] that by blast
  have tree: "tree_inj (Suc 2) (mem s) r" by (rule tree_inj_window[OF pt(1) r])
  have "wp (k_bind (read_u64 (tadd r USER_L0_IDX)) (\<lambda>e1.
      k_when (e1 AND DESC_TABLE = DESC_TABLE) (free_subtree 2 (e1 AND ADDR_MASK))))
    (\<lambda>_. frees ?C fs s) s"
  proof (cases "is_table (mem s (tadd r USER_L0_IDX))")
    case True
    let ?c = "mem s (tadd r USER_L0_IDX) AND ADDR_MASK"
    have C: "?C = subtables 2 (mem s) ?c" using True by (auto simp: children_def)
    have "tree_inj 2 (mem s) ?c"
      by (rule tree_inj_child[OF tree _ True]) (simp add: USER_L0_IDX_1)
    then have "wp (free_subtree 2 ?c) (\<lambda>_. frees ?C fs s) s"
      unfolding C using val P C by (intro free_subtree_ok[OF pt(2)]) auto
    then show ?thesis using True by (simp add: wp_rules is_table_def)
  next
    case False
    then have "?C = {}" by (auto simp: children_def)
    then show ?thesis using False frees_refl[OF pt(2)] by (simp add: wp_rules is_table_def)
  qed
  moreover have "r \<notin> ?C"
    using tree_inj_disjoint(2)[OF tree, of USER_L0_IDX "{}"] by (auto simp: children_def USER_L0_IDX_1)
  ultimately have "wp (free_address_space r) (\<lambda>_. frees ?P fs s) s"
    unfolding free_address_space_def frame_addr[OF vr] Let_def P wp_bind
    by (elim wp_mono) (use frees_push[of ?C fs s] vr val P in auto)
  then show ?thesis
  proof (rule wp_mono)
    fix x s' assume F: "frees ?P fs s s'"
    note keep = frees_private_keep[OF inv r F]
    note cong = spaces_cong[OF pt_inv_mono[OF pt(1)] keep, OF Diff_subset]
    from F obtain gs where gs: "frames_inv (gs @ fs) s'" "set gs = ?P" by (auto simp: frees_def)
    have "KERNEL_L1 s' = KERNEL_L1 s" using F by (simp add: frees_def vm_only_KERNEL_L1)
    then have "vm_inv (R - {r}) (gs @ fs) s'"
      using cong(1,2) gs private_disjoint[OF pt(1) r] tables_mono[of "R - {r}" R "mem s"] inv
      by (auto simp: vm_inv_def)
    then show "frees ?P fs s s' \<and> (\<exists>gs. vm_inv (R - {r}) (gs @ fs) s' \<and> set gs = ?P) \<and>
      (\<forall>r' \<in> R - {r}. \<forall>va. leaf (mem s') r' va = leaf (mem s) r' va) \<and>
      same_blocks (R - {r}) (mem s) (mem s')"
      using F gs(2) cong(3,5) by blast
  qed
qed

end
