(* ===== verification/Mmu_Hardware.thy ===== *)
theory Mmu_Hardware
  imports Address_Spaces
begin

unbundle bit_operations_syntax

text \<open>
  The processor side of translation: the four-level walk with 4 KiB granule and 48-bit
  addresses that \<^verbatim>\<open>TCR\<close> selects (blocks at levels 1 and 2, pages at level 3), and the
  TLB in front of it. The software of \<^verbatim>\<open>mmu.rs\<close> is shown to keep the TLB coherent with
  the live tables, and its boot tables to be an identity map for this walk.
\<close>

section \<open>The translation table walk of the processor\<close>

definition block_addr :: "nat \<Rightarrow> u64 \<Rightarrow> usize \<Rightarrow> usize" where
  "block_addr k e va = (e AND ADDR_MASK AND NOT (mask k)) OR (va AND mask k)"

definition hw_walk :: "memory \<Rightarrow> usize \<Rightarrow> usize \<Rightarrow> (u64 \<times> usize) option" where
  "hw_walk m r va =
     (if \<not> va < 0x1000000000000 then None else
      let e0 = m (tadd r (table_index va 39)) in
      if \<not> is_table e0 then None else
      let e1 = m (tadd (e0 AND ADDR_MASK) (table_index va 30)) in
      if e1 AND DESC_VALID = 0 then None
      else if \<not> is_table e1 then Some (e1, block_addr 30 e1 va) else
      let e2 = m (tadd (e1 AND ADDR_MASK) (table_index va 21)) in
      if e2 AND DESC_VALID = 0 then None
      else if \<not> is_table e2 then Some (e2, block_addr 21 e2 va) else
      let e3 = m (tadd (e2 AND ADDR_MASK) (table_index va 12)) in
      if is_table e3 then Some (e3, block_addr 12 e3 va) else None)"

lemma hw_walk_leaf:
  "hw_walk m r va =
     (if \<not> va < 0x1000000000000 then None else
      case blk m r [table_index va 39] (table_index va 30) of
        Some e \<Rightarrow> Some (e, block_addr 30 e va)
      | None \<Rightarrow> (case blk m r [table_index va 39, table_index va 30] (table_index va 21) of
          Some e \<Rightarrow> Some (e, block_addr 21 e va)
        | None \<Rightarrow> if is_table (leaf m r va) then Some (leaf m r va, block_addr 12 (leaf m r va) va) else None))"
  by (auto simp: hw_walk_def blk_def leaf_def va_path_def Let_def is_table_valid)

lemma is_path2: "is_path [table_index va 39, table_index va 30]" "is_path [table_index va 39, table_index va 30, table_index va 21]"
  by (simp_all add: is_path_def)

lemma hw_walk_same:
  assumes "same_blocks R m m'" "r \<in> R" "leaf m' r va = leaf m r va"
  shows "hw_walk m' r va = hw_walk m r va"
proof -
  have eq: "blk m' r [table_index va 39] (table_index va 30) = blk m r [table_index va 39] (table_index va 30)"
    "blk m' r [table_index va 39, table_index va 30] (table_index va 21) =
     blk m r [table_index va 39, table_index va 30] (table_index va 21)"
    using assms(1,2) is_path2[of va] by (simp_all add: same_blocks_def)
  show ?thesis unfolding hw_walk_leaf eq assms(3) ..
qed

text \<open>Software translation and the walk agree on pages mapped at level 3.\<close>

lemma hw_walk_page:
  assumes "va < 0x1000000000000" "is_table (leaf m r va)"
  shows "hw_walk m r va = Some (leaf m r va, (leaf m r va AND ADDR_MASK) OR (va AND 0xFFF))"
proof -
  obtain t where t: "tbl m r (va_path va) = Some t"
    using assms(2) by (auto simp: leaf_def split: option.splits)
  then have "blk m r [table_index va 39] (table_index va 30) = None"
    "blk m r [table_index va 39, table_index va 30] (table_index va 21) = None"
    by (auto simp: blk_def va_path_def split: if_splits)
  moreover have "leaf m r va AND ADDR_MASK AND NOT (mask 12) = leaf m r va AND ADDR_MASK"
    by (rule bit_word_eqI) (auto simp: bit_simps ADDR_MASK_bit)
  ultimately show ?thesis using assms by (simp add: hw_walk_leaf block_addr_def mask_0xFFF)
qed

section \<open>The translation lookaside buffer\<close>

text \<open>An entry caches, for a page number, the descriptor and output page the walk found.\<close>

definition tlb_ok :: "'a machine_scheme \<Rightarrow> bool" where
  "tlb_ok s \<longleftrightarrow> (\<forall>page d pa. tlb s page = Some (d, pa) \<longrightarrow>
     page < 0x10000000000000 \<and> hw_walk (mem s) (l0_ptr (ttbr0_el1 s)) (push_bit 12 page) = Some (d, pa))"

definition mmu_lookup :: "'a machine_scheme \<Rightarrow> usize \<Rightarrow> (u64 \<times> usize) option" where
  "mmu_lookup s va = (case tlb s (drop_bit 12 va) of
     Some (d, pa) \<Rightarrow> Some (d, pa OR (va AND 0xFFF))
   | None \<Rightarrow> hw_walk (mem s) (l0_ptr (ttbr0_el1 s)) va)"

lemma page_base: "push_bit 12 (drop_bit 12 va) = va AND NOT (mask 12)" for va :: usize
  by (rule bit_word_eqI) (auto simp: bit_simps)

lemma table_index_page:
  assumes "12 \<le> k" shows "table_index (va AND NOT (mask 12)) k = table_index va k"
  unfolding table_index_def mask_0x1FF by (rule bit_word_eqI) (use assms in \<open>auto simp: bit_simps dest: bit_imp_le_length\<close>)

lemma block_addr_page: "12 \<le> k \<Longrightarrow> block_addr k e (va AND NOT (mask 12)) OR (va AND 0xFFF) = block_addr k e va"
  unfolding block_addr_def mask_0xFFF by (rule bit_word_eqI) (auto simp: bit_simps)

lemma and_not_mask_less: "va AND NOT (mask 12) < 0x1000000000000 \<longleftrightarrow> va < (0x1000000000000 :: usize)"
proof -
  have "unat (va AND NOT (mask 12)) = unat va - unat va mod 4096"
    using unat_and_not_0xFFF[of va] by (simp only: mask_0xFFF)
  then have "unat (va AND NOT (mask 12)) = 4096 * (unat va div 4096)"
    by (simp only: minus_mod_eq_mult_div)
  moreover have "4096 * (unat va div 4096) < 0x1000000000000 \<longleftrightarrow> unat va div 4096 < 0x1000000000" by linarith
  moreover have "unat va div 4096 < 0x1000000000 \<longleftrightarrow> unat va < 0x1000000000000"
    by (simp add: div_less_iff_less_mult)
  ultimately show ?thesis by (simp only: word_less_nat_alt) simp
qed

lemma hw_walk_page_base:
  "map_option (\<lambda>(d, pa). (d, pa OR (va AND 0xFFF))) (hw_walk m r (va AND NOT (mask 12))) = hw_walk m r va"
  by (auto simp: hw_walk_def Let_def table_index_page block_addr_page and_not_mask_less)

text \<open>A coherent TLB is invisible.\<close>

lemma mmu_lookup_walk: "tlb_ok s \<Longrightarrow> mmu_lookup s va = hw_walk (mem s) (l0_ptr (ttbr0_el1 s)) va"
proof -
  assume ok: "tlb_ok s"
  show ?thesis
  proof (cases "tlb s (drop_bit 12 va)")
    case (Some dp)
    obtain d pa where dp: "dp = (d, pa)" by (cases dp)
    from Some ok dp have "hw_walk (mem s) (l0_ptr (ttbr0_el1 s)) (push_bit 12 (drop_bit 12 va)) = Some (d, pa)"
      unfolding tlb_ok_def by blast
    then have "hw_walk (mem s) (l0_ptr (ttbr0_el1 s)) (va AND NOT (mask 12)) = Some (d, pa)"
      by (simp only: page_base)
    then show ?thesis
      using hw_walk_page_base[of va "mem s" "l0_ptr (ttbr0_el1 s)"] Some dp by (simp add: mmu_lookup_def)
  qed (simp add: mmu_lookup_def)
qed

lemma table_index_bit:
  assumes "table_index va k = table_index va' k" "j < 9"
  shows "bit va (k + j) = bit va' (k + j)"
proof -
  have "bit (table_index va k) j = bit (table_index va' k) j" using assms(1) by simp
  then show ?thesis using assms(2) by (simp add: table_index_def mask_0x1FF bit_simps)
qed

lemma va_bit: "va < 0x1000000000000 \<Longrightarrow> bit va n \<Longrightarrow> n < 48" for va :: usize
proof -
  assume va: "va < 0x1000000000000" and n: "bit va n"
  from va have "take_bit 48 va = va" by (intro take_bit_word_self) (simp add: word_less_nat_alt)
  with n show "n < 48" by (metis bit_take_bit_iff)
qed

text \<open>On 48-bit addresses the four indices determine the page.\<close>

lemma same_page_drop_bit:
  assumes "same_page va va'" "va < 0x1000000000000" "va' < 0x1000000000000"
  shows "drop_bit 12 va = drop_bit 12 va'"
proof (rule bit_word_eqI)
  fix n :: nat
  have ix: "table_index va 12 = table_index va' 12" "table_index va 21 = table_index va' 21"
    "table_index va 30 = table_index va' 30" "table_index va 39 = table_index va' 39"
    using assms(1) by (auto simp: same_page_def va_path_def)
  consider "n < 9" | "9 \<le> n" "n < 18" | "18 \<le> n" "n < 27" | "27 \<le> n" "n < 36" | "36 \<le> n" by linarith
  then have "bit va (12 + n) = bit va' (12 + n)"
  proof cases
    case 2
    then show ?thesis using table_index_bit[OF ix(2), of "n - 9"] by simp
  next
    case 3
    then show ?thesis using table_index_bit[OF ix(3), of "n - 18"] by simp
  next
    case 4
    then show ?thesis using table_index_bit[OF ix(4), of "n - 27"] by simp
  next
    case 5
    then show ?thesis using va_bit[OF assms(2), of "12 + n"] va_bit[OF assms(3), of "12 + n"] by auto
  qed (use table_index_bit[OF ix(1)] in simp)
  then show "bit (drop_bit 12 va) n = bit (drop_bit 12 va') n" by (simp add: bit_simps)
qed

lemma push_drop_page: "page < 0x10000000000000 \<Longrightarrow> drop_bit 12 (push_bit 12 page) = page" for page :: u64
proof -
  assume "page < 0x10000000000000"
  then have t: "take_bit 52 page = page" by (intro take_bit_word_self) (simp add: word_less_nat_alt)
  have "bit page n \<Longrightarrow> n < 52" for n using t by (metis bit_take_bit_iff)
  then show ?thesis by (intro bit_word_eqI) (auto simp: bit_simps)
qed

lemma hw_walk_canonical: "hw_walk m r va = Some x \<Longrightarrow> va < 0x1000000000000"
  by (auto simp: hw_walk_def split: if_splits)

lemma tlb_ok_leaf_update:
  assumes ok: "tlb_ok s" and live: "l0_ptr (ttbr0_el1 s) \<in> R" and va: "va < 0x1000000000000"
    and upd: "leaf_update R (mem s) r va d (mem s')"
    and s': "tlb s' = (tlb s)(drop_bit 12 va := None)" "ttbr0_el1 s' = ttbr0_el1 s"
  shows "tlb_ok s'"
  unfolding tlb_ok_def
proof (intro allI impI)
  fix page d' pa assume "tlb s' page = Some (d', pa)"
  then have t: "tlb s page = Some (d', pa)" "page \<noteq> drop_bit 12 va" using s'(1) by (auto split: if_splits)
  let ?r = "l0_ptr (ttbr0_el1 s)" and ?va = "push_bit 12 page"
  from ok t(1) have w: "page < 0x10000000000000" "hw_walk (mem s) ?r ?va = Some (d', pa)"
    unfolding tlb_ok_def by blast+
  have "\<not> same_page ?va va"
    using same_page_drop_bit[OF _ hw_walk_canonical[OF w(2)] va] push_drop_page[OF w(1)] t(2) by auto
  then have "leaf (mem s') ?r ?va = leaf (mem s) ?r ?va" using upd live by (simp add: leaf_update_def)
  moreover have "same_blocks R (mem s) (mem s')" using upd by (simp add: leaf_update_def)
  ultimately have "hw_walk (mem s') ?r ?va = Some (d', pa)" using hw_walk_same[OF _ live] w(2) by simp
  then show "page < 0x10000000000000 \<and> hw_walk (mem s') (l0_ptr (ttbr0_el1 s')) ?va = Some (d', pa)"
    using w(1) s'(2) by simp
qed

lemma vm_only_ttbr0: "vm_only s s' \<Longrightarrow> ttbr0_el1 s' = ttbr0_el1 s"
  unfolding vm_only_def by (drule arg_cong[where f = ttbr0_el1]) simp

section \<open>Switching address spaces\<close>

definition installed_ok :: "'a mmu_state_scheme \<Rightarrow> bool" where
  "installed_ok s \<longleftrightarrow> INSTALLED s = 0 \<or> INSTALLED s = ttbr0_el1 s"

lemma activate_ok:
  assumes "installed_ok s" and "t \<noteq> 0"
  shows "wp (activate t) (\<lambda>_ s'. s' = s\<lparr>ttbr0_el1 := t, INSTALLED := t,
      tlb := (if INSTALLED s = t then tlb s else Map.empty)\<rparr>) s"
  using assms by (auto simp: activate_def wp_rules installed_ok_def tlbi_vmalle1_def)

lemma activate_tlb_ok:
  assumes "installed_ok s" and "t \<noteq> 0" and "tlb_ok s"
  shows "wp (activate t) (\<lambda>_ s'. ttbr0_el1 s' = t \<and> installed_ok s' \<and> tlb_ok s') s"
  using activate_ok[OF assms(1,2)]
  by (rule wp_mono) (use assms in \<open>auto simp: installed_ok_def tlb_ok_def\<close>)

section \<open>The boot tables\<close>

definition boot_tables :: "usize \<Rightarrow> usize \<Rightarrow> usize \<Rightarrow> memory \<Rightarrow> bool" where
  "boot_tables l0 l1 l2 m \<longleftrightarrow> (\<forall>i < 0x200.
     m (tadd l0 i) = (if i = 0 then l1 OR DESC_TABLE else 0) \<and>
     m (tadd l1 i) = (if i = 0 then DEVICE_BLOCK else if i = 1 then l2 OR DESC_TABLE else 0) \<and>
     m (tadd l2 i) = (if i < 64 then (RAM_BASE + i * BLOCK_2MIB) OR NORMAL_BLOCK else 0))"

lemma ram_slots_set: "i \<in> set (map of_nat [0..<RAM_BLOCKS]) \<longleftrightarrow> i < (64 :: usize)"
proof
  assume "i \<in> set (map of_nat [0..<RAM_BLOCKS])"
  then obtain n where "n < 64" "i = of_nat n" by (auto simp: RAM_BLOCKS_def)
  then show "i < 64" by (simp add: word_less_nat_alt unat_of_nat)
next
  assume "i < 64"
  then have "unat i < 64" "i = of_nat (unat i)" by (simp_all add: word_less_nat_alt)
  then show "i \<in> set (map of_nat [0..<RAM_BLOCKS])" by (auto simp: RAM_BLOCKS_def intro!: image_eqI)
qed

lemma lt_64_slot: "i < 64 \<Longrightarrow> i < 0x200" for i :: usize
  by (erule order.strict_trans) simp

lemma frames_inv_mem:
  "frames_inv fs s \<Longrightarrow> (\<And>f. f \<in> set fs \<Longrightarrow> m f = mem s f) \<Longrightarrow> frames_inv fs (s\<lparr>mem := m\<rparr>)"
  using free_chain_cong[of fs m "mem s"] by (simp add: frames_inv_def)

lemma fill_ram_blocks:
  assumes l2: "valid_frame l2"
  shows "wp (k_for (map of_nat [0..<RAM_BLOCKS]) (\<lambda>i.
      write_u64 (tadd l2 i) ((RAM_BASE + i * BLOCK_2MIB) OR NORMAL_BLOCK)))
    (\<lambda>_ t. mem_only s t \<and>
       (\<forall>i < 64. mem t (tadd l2 i) = (RAM_BASE + i * BLOCK_2MIB) OR NORMAL_BLOCK) \<and>
       (\<forall>a. (\<forall>i < 64. a \<noteq> tadd l2 i) \<longrightarrow> mem t a = mem s a)) s"
proof -
  let ?d = "\<lambda>i. (RAM_BASE + i * BLOCK_2MIB) OR NORMAL_BLOCK"
  let ?I = "\<lambda>pre t. mem_only s t \<and> (\<forall>i \<in> set pre. mem t (tadd l2 i) = ?d i) \<and>
    (\<forall>a. (\<forall>i \<in> set pre. a \<noteq> tadd l2 i) \<longrightarrow> mem t a = mem s a)"
  have "wp (k_for (map of_nat [0..<RAM_BLOCKS]) (\<lambda>i. write_u64 (tadd l2 i) (?d i)))
      (\<lambda>_. ?I (map of_nat [0..<RAM_BLOCKS])) s"
  proof (rule wp_for)
    fix pre i post t assume xs: "map of_nat [0..<RAM_BLOCKS] = pre @ i # post" and I: "?I pre t"
    have small: "j < 64" if "j \<in> set (pre @ i # post)" for j using that unfolding xs[symmetric] ram_slots_set .
    then have "tadd l2 j = tadd l2 i \<longleftrightarrow> j = i" if "j \<in> set pre" for j
      using l2 that small[of j] small[of i] by (subst tadd_distinct) (auto intro: lt_64_slot)
    then show "wp (write_u64 (tadd l2 i) (?d i)) (\<lambda>_. ?I (pre @ [i])) t"
      using I by (auto simp: wp_rules mem_only_write)
  qed simp
  then show ?thesis unfolding ball_simps ram_slots_set[unfolded Bex_def] Ball_def ram_slots_set by simp
qed

text \<open>The two halves of \<^verbatim>\<open>init_mmu\<close> after the allocations.\<close>

definition boot_fill :: "usize \<Rightarrow> usize \<Rightarrow> usize \<Rightarrow> ('a mmu_state_scheme, unit) kfn" where
  "boot_fill l0 l1 l2 =
     k_bind (k_for (map of_nat [0..<RAM_BLOCKS]) (\<lambda>i.
       write_u64 (tadd l2 i) ((RAM_BASE + i * BLOCK_2MIB) OR NORMAL_BLOCK))) (\<lambda>_.
     k_bind (write_u64 (tadd l1 0) DEVICE_BLOCK) (\<lambda>_.
     k_bind (write_u64 (tadd l1 1) (l2 OR DESC_TABLE)) (\<lambda>_.
     write_u64 (tadd l0 0) (l1 OR DESC_TABLE))))"

definition boot_regs :: "usize \<Rightarrow> usize \<Rightarrow> 'a mmu_state_scheme \<Rightarrow> 'a mmu_state_scheme" where
  "boot_regs l0 l1 s = s\<lparr>KERNEL_L1 := l1, KERNEL_TTBR0 := l0, tlb := Map.empty, mair_el1 := MAIR,
     tcr_el1 := TCR, ttbr0_el1 := l0, sctlr_el1 := sctlr_el1 s OR 0x1005\<rparr>"

lemma init_mmu_split:
  "init_mmu = k_bind alloc_table (\<lambda>l0. k_bind alloc_table (\<lambda>l1. k_bind alloc_table (\<lambda>l2.
     k_bind (boot_fill l0 l1 l2) (\<lambda>_. k_modify (boot_regs l0 l1)))))"
proof -
  have regs: "k_bind (k_modify (\<lambda>s. s\<lparr>KERNEL_L1 := l1\<rparr>)) (\<lambda>_.
     k_bind (k_modify (\<lambda>s. s\<lparr>KERNEL_TTBR0 := l0\<rparr>)) (\<lambda>_.
     k_bind tlbi_vmalle1 (\<lambda>_.
     k_bind (k_modify (\<lambda>s. s\<lparr>mair_el1 := MAIR, tcr_el1 := TCR, ttbr0_el1 := l0\<rparr>)) (\<lambda>_.
     k_modify (\<lambda>s. s\<lparr>sctlr_el1 := sctlr_el1 s OR (1 OR 4 OR 0x1000)\<rparr>))))) = k_modify (boot_regs l0 l1)"
    for l0 l1
    by (simp add: fun_eq_iff run_simps tlbi_vmalle1_def boot_regs_def)
  show ?thesis unfolding init_mmu_def boot_fill_def k_bind_assoc regs ..
qed

lemma fill_boot_tables:
  assumes l: "valid_frame l0" "valid_frame l1" "valid_frame l2" "distinct [l0, l1, l2]"
    and z: "\<forall>i < 0x200. mem s (tadd l0 i) = 0" "\<forall>i < 0x200. mem s (tadd l1 i) = 0"
      "\<forall>i < 0x200. mem s (tadd l2 i) = 0"
  shows "wp (boot_fill l0 l1 l2)
    (\<lambda>_ t. mem_only s t \<and> boot_tables l0 l1 l2 (mem t) \<and>
       (\<forall>a. page_of a \<notin> {l0, l1, l2} \<longrightarrow> mem t a = mem s a)) s"
  unfolding boot_fill_def wp_bind wp_write_u64
proof (rule wp_mono[OF fill_ram_blocks[OF l(3)]], elim conjE, goal_cases)
  case (1 u t)
  let ?m = "(mem t)(tadd l1 0 := DEVICE_BLOCK, tadd l1 1 := l2 OR DESC_TABLE, tadd l0 0 := l1 OR DESC_TABLE)"
  note al = l(1-3)[THEN valid_frame_aligned]
  have other: "mem t (tadd x i) = mem s (tadd x i)" if "valid_frame x" "x \<noteq> l2" "i < 0x200" for x i
    using 1(4) that l(3) lt_64_slot by (auto simp: tadd_distinct)
  have l2: "mem t (tadd l2 i) = (if i < 64 then (RAM_BASE + i * BLOCK_2MIB) OR NORMAL_BLOCK else 0)" if "i < 0x200" for i
  proof (cases "i < 64")
    case False
    then have "\<forall>j < 64. tadd l2 i \<noteq> tadd l2 j" using that l(3) lt_64_slot by (auto simp: tadd_distinct)
    with 1(4) z(3) that False show ?thesis by simp
  qed (use 1(3) in simp)
  have "boot_tables l0 l1 l2 ?m"
    unfolding boot_tables_def
    using l l2 other z(1,2) by (auto simp: tadd_distinct)
  moreover have "?m a = mem s a" if "page_of a \<notin> {l0, l1, l2}" for a
  proof -
    have "\<forall>j < 64. a \<noteq> tadd l2 j" using that al lt_64_slot by auto
    then have "mem t a = mem s a" using 1(4) by blast
    moreover have "a \<noteq> tadd l1 0" "a \<noteq> tadd l1 1" "a \<noteq> tadd l0 0" using that al by auto
    ultimately show ?thesis by simp
  qed
  ultimately show ?case using 1(2) by (simp add: mem_only_write)
qed

lemma vm_only_regs: "vm_only s s' \<Longrightarrow> INSTALLED s' = INSTALLED s \<and> sctlr_el1 s' = sctlr_el1 s"
  unfolding vm_only_def
  by (rule conjI; drule arg_cong[where f = INSTALLED] arg_cong[where f = sctlr_el1]; simp)

lemma mem_only_regs: "mem_only s s' \<Longrightarrow> INSTALLED s' = INSTALLED s \<and> sctlr_el1 s' = sctlr_el1 s"
  by (auto simp: mem_only_def)

lemma init_mmu_ok:
  assumes inv: "frames_inv (l0 # l1 # l2 # fs) s"
  shows "wp init_mmu (\<lambda>_ s'. boot_tables l0 l1 l2 (mem s') \<and> frames_inv fs s' \<and>
    KERNEL_L1 s' = l1 \<and> KERNEL_TTBR0 s' = l0 \<and> INSTALLED s' = INSTALLED s \<and> ttbr0_el1 s' = l0 \<and>
    tlb s' = Map.empty \<and> mair_el1 s' = MAIR \<and> tcr_el1 s' = TCR \<and>
    sctlr_el1 s' = sctlr_el1 s OR 0x1005 \<and>
    (\<forall>a. page_of a \<notin> {l0, l1, l2} \<longrightarrow> mem s' a = mem s a)) s"
proof -
  have fr: "valid_frame l0" "valid_frame l1" "valid_frame l2" "distinct [l0, l1, l2]"
    "set fs \<inter> {l0, l1, l2} = {}" "\<forall>f \<in> set fs. page_aligned f"
    using inv by (auto simp: frames_inv_def valid_frame_def)
  note al = fr(1-3)[THEN valid_frame_aligned]
  show ?thesis
    unfolding init_mmu_split wp_bind
  proof (rule wp_mono[OF alloc_table_ok[OF inv]], elim conjE, goal_cases)
    case s1: (1 x s1)
    show ?case
    proof (rule wp_mono[OF alloc_table_ok[OF s1(3)]], elim conjE, goal_cases)
      case s2: (1 y s2)
      show ?case
      proof (rule wp_mono[OF alloc_table_ok[OF s2(3)]], elim conjE, goal_cases)
        case s3: (1 w s3)
        have z: "\<forall>i < 0x200. mem s3 (tadd l0 i) = 0" "\<forall>i < 0x200. mem s3 (tadd l1 i) = 0"
          "\<forall>i < 0x200. mem s3 (tadd l2 i) = 0"
          using s1 s2 s3 fr(4) al by auto
        have vo: "vm_only s s3" using s1(7) s2(7) s3(7) vm_only_trans by blast
        have out: "mem s3 a = mem s a" if "page_of a \<notin> {l0, l1, l2}" for a
          using that s1(5) s2(5) s3(5) by auto
        show ?case
          unfolding s1(2) s2(2) s3(2)
        proof (rule wp_mono[OF fill_boot_tables[OF fr(1-4) z]], elim conjE, goal_cases)
          case (1 u t)
          from 1(2) have t: "t = s3\<lparr>mem := mem t\<rparr>" by (rule mem_only_eq)
          have "mem t f = mem s3 f" if "f \<in> set fs" for f
          proof -
            have "page_of f = f" using fr(6) that by simp
            then have "page_of f \<notin> {l0, l1, l2}" using fr(5) that by auto
            then show ?thesis using 1(4) by blast
          qed
          then have "frames_inv fs t" using frames_inv_mem[OF s3(3), of "mem t"] t by simp
          moreover have "INSTALLED t = INSTALLED s" "sctlr_el1 t = sctlr_el1 s"
            using mem_only_regs[OF 1(2)] vm_only_regs[OF vo] by simp_all
          ultimately show ?case
            using 1 out by (simp add: wp_rules boot_regs_def frames_inv_def)
        qed
      qed
    qed
  qed
qed

lemma unat_table_index: "unat (table_index va k) = unat va div 2 ^ k mod 512"
proof -
  have "table_index va k = take_bit 9 (drop_bit k va)"
    by (simp add: table_index_def mask_0x1FF take_bit_eq_mask)
  then have "unat (table_index va k) = take_bit 9 (drop_bit k (unat va))"
    by (simp only: unsigned_take_bit_eq unat_drop_bit_eq)
  also have "\<dots> = unat va div 2 ^ k mod 512" by (simp add: take_bit_eq_mod drop_bit_eq_div)
  finally show ?thesis .
qed

lemma NORMAL_BLOCK_bit: "bit NORMAL_BLOCK n \<longleftrightarrow> n \<in> {0, 8, 9, 10, 54}"
proof -
  have eq: "NORMAL_BLOCK = push_bit 0 1 OR push_bit 8 1 OR push_bit 9 1 OR push_bit 10 1 OR push_bit 54 1"
    by (simp add: NORMAL_BLOCK_def DESC_BLOCK_def SH_INNER_def AF_def UXN_def push_bit_eq_mult)
  show ?thesis unfolding eq by (simp only: bit_or_iff bit_push_bit_iff bit_1_iff) auto
qed

lemma DEVICE_BLOCK_bit: "bit DEVICE_BLOCK n \<longleftrightarrow> n \<in> {0, 2, 10, 53, 54}"
proof -
  have eq: "DEVICE_BLOCK = push_bit 0 1 OR push_bit 2 1 OR push_bit 10 1 OR push_bit 53 1 OR push_bit 54 1"
    by (simp add: DEVICE_BLOCK_def DESC_BLOCK_def ATTR_IDX_DEVICE_def AF_def PXN_def UXN_def push_bit_eq_mult)
  show ?thesis unfolding eq by (simp only: bit_or_iff bit_push_bit_iff bit_1_iff) auto
qed

lemma block_desc:
  assumes "bit e 0" "\<not> bit e 1"
  shows "e AND DESC_VALID \<noteq> 0" "\<not> is_table e"
proof -
  have "bit (e AND DESC_VALID) 0" using assms by (simp add: DESC_VALID_def bit_simps)
  then show "e AND DESC_VALID \<noteq> 0" by auto
  have "\<not> bit (e AND DESC_TABLE) 1" "bit DESC_TABLE 1" using assms by (simp_all add: DESC_TABLE_mask bit_simps)
  then show "\<not> is_table e" unfolding is_table_def by metis
qed

text \<open>The descriptor of a RAM block, from any address inside it.\<close>

definition ram_desc :: "usize \<Rightarrow> u64" where
  "ram_desc va = (va AND NOT (mask 21)) OR NORMAL_BLOCK"

lemma ram_desc_index:
  assumes "RAM_BASE \<le> va" "va < RAM_TOP"
  shows "(RAM_BASE + table_index va 21 * BLOCK_2MIB) OR NORMAL_BLOCK = ram_desc va"
    and "table_index va 39 = 0" "table_index va 30 = 1" "table_index va 21 < 64"
proof -
  have n: "0x40000000 \<le> unat va" "unat va < 0x48000000"
    using assms by (simp_all add: RAM_BASE_def RAM_TOP_def RAM_SIZE_def word_le_nat_alt word_less_nat_alt)
  then have d: "unat va div 2 ^ 21 - 512 < 64" "512 \<le> unat va div 2 ^ 21" "unat va div 2 ^ 30 = 1" "unat va div 2 ^ 39 = 0"
    by auto
  then have m: "unat va div 2 ^ 21 mod 512 = unat va div 2 ^ 21 - 512" by (simp add: mod_if)
  have i: "unat (table_index va 21) = unat va div 2 ^ 21 - 512" by (simp only: unat_table_index m)
  show "table_index va 39 = 0" "table_index va 30 = 1"
    unfolding word_unat_eq_iff unat_table_index d by simp_all
  show "table_index va 21 < 64" using d(1) by (simp add: word_less_nat_alt i)
  have "unat (RAM_BASE + table_index va 21 * BLOCK_2MIB) = 2 ^ 21 * (unat va div 2 ^ 21)"
    using d(1,2) by (simp add: RAM_BASE_def BLOCK_2MIB_def unat_word_ariths i)
  moreover have "unat (va AND NOT (mask 21)) = 2 ^ 21 * (unat va div 2 ^ 21)"
  proof -
    have "va AND NOT (mask 21) = push_bit 21 (drop_bit 21 va)" by (rule bit_word_eqI) (auto simp: bit_simps)
    then have "unat (va AND NOT (mask 21)) = take_bit 64 (push_bit 21 (drop_bit 21 (unat va)))"
      by (simp only: unsigned_push_bit_eq unat_drop_bit_eq) simp
    also have "\<dots> = 2 ^ 21 * (unat va div 2 ^ 21)"
      using n by (simp add: take_bit_eq_mod push_bit_eq_mult drop_bit_eq_div)
    finally show ?thesis .
  qed
  ultimately show "(RAM_BASE + table_index va 21 * BLOCK_2MIB) OR NORMAL_BLOCK = ram_desc va"
    unfolding ram_desc_def by (metis word_unat_eq_iff)
qed

lemma ram_desc_block: "ram_desc va AND DESC_VALID \<noteq> 0" "\<not> is_table (ram_desc va)"
  by (rule block_desc; simp add: ram_desc_def bit_simps NORMAL_BLOCK_bit)+

lemma ram_desc_addr: "va < RAM_TOP \<Longrightarrow> block_addr 21 (ram_desc va) va = va"
proof -
  assume va: "va < RAM_TOP"
  have "n < 48" if "bit va n" for n
  proof (rule va_bit[OF _ that])
    show "va < 0x1000000000000"
      by (rule order.strict_trans[OF va]) (simp add: RAM_TOP_def RAM_BASE_def RAM_SIZE_def)
  qed
  then show ?thesis
    unfolding block_addr_def ram_desc_def
    by (intro bit_word_eqI) (auto simp: bit_simps ADDR_MASK_bit NORMAL_BLOCK_bit)
qed

lemma DEVICE_BLOCK_block: "DEVICE_BLOCK AND DESC_VALID \<noteq> 0" "\<not> is_table DEVICE_BLOCK"
  by (rule block_desc; simp add: DEVICE_BLOCK_bit)+

lemma device_addr: "va < RAM_BASE \<Longrightarrow> block_addr 30 DEVICE_BLOCK va = va"
proof -
  assume "va < RAM_BASE"
  then have "take_bit 30 va = va"
    by (intro take_bit_word_self) (simp add: word_less_nat_alt RAM_BASE_def)
  then have "va AND mask 30 = va" by (simp add: take_bit_eq_mask)
  moreover have "DEVICE_BLOCK AND ADDR_MASK AND NOT (mask 30) = 0"
    by (rule bit_word_eqI) (auto simp: bit_simps ADDR_MASK_bit DEVICE_BLOCK_bit)
  ultimately show ?thesis by (simp add: block_addr_def)
qed

lemma index_pair_range:
  assumes "va < 0x1000000000000" "table_index va 39 = 0"
  shows "table_index va 30 = 0 \<longleftrightarrow> va < RAM_BASE"
    and "table_index va 30 = 1 \<Longrightarrow> table_index va 21 < 64 \<Longrightarrow> RAM_BASE \<le> va \<and> va < RAM_TOP"
proof -
  let ?n = "unat va"
  have n: "?n < 2 ^ 48" using assms(1) by (simp add: word_less_nat_alt)
  have "?n div 2 ^ 39 mod 512 = 0" using assms(2) by (simp add: word_unat_eq_iff unat_table_index)
  moreover have "?n div 2 ^ 39 < 512" using n by (simp add: div_less_iff_less_mult)
  ultimately have z: "?n div 2 ^ 39 = 0" by simp
  then have n39: "?n < 2 ^ 39" by (simp add: div_eq_0_iff)
  then have i1: "?n div 2 ^ 30 mod 512 = ?n div 2 ^ 30" by (simp add: div_less_iff_less_mult)
  have "table_index va 30 = 0 \<longleftrightarrow> ?n div 2 ^ 30 = 0"
    by (simp only: word_unat_eq_iff unat_table_index i1 unat_0)
  also have "\<dots> \<longleftrightarrow> va < RAM_BASE" by (simp add: div_eq_0_iff RAM_BASE_def word_less_nat_alt)
  finally show "table_index va 30 = 0 \<longleftrightarrow> va < RAM_BASE" .
  assume a: "table_index va 30 = 1" "table_index va 21 < 64"
  then have "?n div 2 ^ 30 = 1" using i1 by (simp only: word_unat_eq_iff unat_table_index unat_1)
  then have r: "0x40000000 \<le> ?n" "?n < 0x80000000" by auto
  then have "512 \<le> ?n div 2 ^ 21" "?n div 2 ^ 21 < 1024" by auto
  then have "?n div 2 ^ 21 mod 512 = ?n div 2 ^ 21 - 512" by (simp add: mod_if)
  then have "?n div 2 ^ 21 - 512 < 64"
    using a(2) by (simp only: word_less_nat_alt unat_table_index) simp
  then have "?n < 0x48000000" by (simp add: div_less_iff_less_mult)
  with r show "RAM_BASE \<le> va \<and> va < RAM_TOP"
    by (simp add: RAM_BASE_def RAM_TOP_def RAM_SIZE_def word_le_nat_alt word_less_nat_alt)
qed

lemma boot_identity_walk:
  assumes bt: "boot_tables l0 l1 l2 m" and l: "valid_frame l0" "valid_frame l1" "valid_frame l2"
  shows "hw_walk m l0 va =
    (if va < RAM_BASE then Some (DEVICE_BLOCK, va)
     else if va < RAM_TOP then Some (ram_desc va, va) else None)"
proof -
  have e0: "m (tadd l0 (table_index va 39)) = (if table_index va 39 = 0 then l1 OR DESC_TABLE else 0)"
    and e1: "m (tadd l1 (table_index va 30)) = (if table_index va 30 = 0 then DEVICE_BLOCK
      else if table_index va 30 = 1 then l2 OR DESC_TABLE else 0)"
    and e2: "m (tadd l2 (table_index va 21)) = (if table_index va 21 < 64
      then (RAM_BASE + table_index va 21 * BLOCK_2MIB) OR NORMAL_BLOCK else 0)"
    using bt by (simp_all add: boot_tables_def)
  have small: "va < 0x1000000000000" if "va < RAM_TOP"
    by (rule order.strict_trans[OF that]) (simp add: RAM_TOP_def RAM_BASE_def RAM_SIZE_def)
  have base: "RAM_BASE < RAM_TOP" by (simp add: RAM_TOP_def RAM_BASE_def RAM_SIZE_def)
  consider (dev) "va < RAM_BASE" | (ram) "RAM_BASE \<le> va" "va < RAM_TOP" | (out) "RAM_TOP \<le> va"
    by fastforce
  then show ?thesis
  proof cases
    case dev
    then have va: "va < 0x1000000000000" using small base by auto
    have "unat va < 2 ^ 30" using dev by (simp add: word_less_nat_alt RAM_BASE_def)
    then have "table_index va 39 = 0" by (simp add: word_unat_eq_iff unat_table_index)
    moreover from this have "table_index va 30 = 0" using index_pair_range(1)[OF va] dev by simp
    ultimately show ?thesis
      using dev va l e0 e1 device_addr by (simp add: hw_walk_def Let_def DEVICE_BLOCK_block)
  next
    case ram
    note r = ram_desc_index[OF ram]
    have "\<not> va < RAM_BASE" using ram by simp
    then show ?thesis
      using ram small l e0 e1 e2 r ram_desc_block ram_desc_addr is_table_valid
      by (simp add: hw_walk_def Let_def)
  next
    case out
    then have no: "\<not> va < RAM_BASE" "\<not> va < RAM_TOP" using base by auto
    then have "\<not> (table_index va 30 = 1 \<and> table_index va 21 < 64)" "table_index va 30 \<noteq> 0"
      if "va < 0x1000000000000" "table_index va 39 = 0"
      using index_pair_range[OF that] by auto
    then show ?thesis
      using no l e0 e1 e2 by (auto simp: hw_walk_def Let_def)
  qed
qed

lemma ram_block_bits:
  assumes "i < 64"
  shows "bit ((RAM_BASE + i * BLOCK_2MIB) OR NORMAL_BLOCK) 0" "\<not> bit ((RAM_BASE + i * BLOCK_2MIB) OR NORMAL_BLOCK) 1"
proof -
  have "RAM_BASE + i * BLOCK_2MIB = push_bit 21 (512 + i)"
    by (simp add: RAM_BASE_def BLOCK_2MIB_def push_bit_eq_mult algebra_simps)
  then show "bit ((RAM_BASE + i * BLOCK_2MIB) OR NORMAL_BLOCK) 0" "\<not> bit ((RAM_BASE + i * BLOCK_2MIB) OR NORMAL_BLOCK) 1"
    by (simp_all add: bit_or_iff NORMAL_BLOCK_bit bit_push_bit_iff)
qed

lemma ram_block_not_table: "i < 64 \<Longrightarrow> \<not> is_table ((RAM_BASE + i * BLOCK_2MIB) OR NORMAL_BLOCK)"
  using block_desc(2)[OF ram_block_bits] .

lemma boot_tbl:
  assumes bt: "boot_tables l0 l1 l2 m" and l: "valid_frame l0" "valid_frame l1" "valid_frame l2"
    and p: "is_path p"
  shows "tbl m l0 p = (if p = [] then Some l0 else if p = [0] then Some l1 else if p = [0, 1] then Some l2 else None)"
proof -
  have e0: "m (tadd l0 i) = (if i = 0 then l1 OR DESC_TABLE else 0)"
    and e1: "m (tadd l1 i) = (if i = 0 then DEVICE_BLOCK else if i = 1 then l2 OR DESC_TABLE else 0)"
    and e2: "m (tadd l2 i) = (if i < 64 then (RAM_BASE + i * BLOCK_2MIB) OR NORMAL_BLOCK else 0)"
    if "i < 0x200" for i
    using bt that by (simp_all add: boot_tables_def)
  have nt: "\<not> is_table (m (tadd l2 i))" if "i < 0x200" for i
    using e2[OF that] ram_block_not_table by simp
  consider "p = []" | i where "p = [i]" "i < 0x200" | i j where "p = [i, j]" "i < 0x200" "j < 0x200"
    | i j k where "p = [i, j, k]" "i < 0x200" "j < 0x200" "k < 0x200"
  proof -
    from p have "length p \<le> 3" "\<forall>i \<in> set p. i < 0x200" by (auto simp: is_path_def)
    then show thesis using that by (auto simp: numeral_3_eq_3 le_Suc_eq length_Suc_conv)
  qed
  then show ?thesis
    by cases (use l e0 e1 nt DEVICE_BLOCK_block in \<open>auto simp: e0 e1 nt\<close>)
qed

lemma boot_pt_inv:
  assumes bt: "boot_tables l0 l1 l2 m" and l: "valid_frame l0" "valid_frame l1" "valid_frame l2" "distinct [l0, l1, l2]"
  shows "pt_inv {l0} l1 m" and "tables {l0} m = {l0, l1, l2}" and "leaf m l0 va = 0"
proof -
  note t = boot_tbl[OF bt l(1-3)]
  have ps: "is_path []" "is_path [0]" "is_path [0, 1]" by (simp_all add: is_path_def)
  show "tables {l0} m = {l0, l1, l2}"
  proof (intro set_eqI iffI)
    fix u assume "u \<in> tables {l0} m"
    then show "u \<in> {l0, l1, l2}" by (auto simp: tables_def t split: if_splits)
  next
    fix u assume "u \<in> {l0, l1, l2}"
    then show "u \<in> tables {l0} m"
      using tablesI[OF _ ps(1), of l0 "{l0}" m] tablesI[OF _ ps(2), of l0 "{l0}" m l1]
        tablesI[OF _ ps(3), of l0 "{l0}" m l2] t[OF ps(1)] t[OF ps(2)] t[OF ps(3)] by auto
  qed
  show "leaf m l0 va = 0" using t[OF is_path_va_path, of va] by (simp add: leaf_def va_path_def)
  show "pt_inv {l0} l1 m"
    unfolding pt_inv_def
  proof (intro conjI ballI allI impI)
    fix r assume "r \<in> {l0}"
    then show "m (tadd r 0) = l1 OR DESC_TABLE" using bt by (simp add: boot_tables_def)
  next
    fix r p u assume "r \<in> {l0}" "is_path p" "tbl m r p = Some u"
    then show "valid_frame u" using l by (auto simp: t split: if_splits)
  next
    fix r r' p p' u
    assume "r \<in> {l0}" "r' \<in> {l0}" "is_path p" "is_path p'" "tbl m r p = Some u" "tbl m r' p' = Some u"
    then show "p = p'" "r = r' \<or> shared p" using l(4) by (auto simp: t split: if_splits)
  next
    fix r p u i
    assume *: "r \<in> {l0}" "is_path (p @ [i])" "\<not> shared (p @ [i])" "tbl m r p = Some u"
    then have "is_path p" "i < 0x200" by (auto simp: is_path_snoc)
    with * have "p = [] \<and> u = l0 \<and> i \<noteq> 0" by (auto simp: t shared_snoc shared_def split: if_splits)
    then show "is_table (m (tadd u i)) \<or> m (tadd u i) = 0" using bt \<open>i < 0x200\<close> by (simp add: boot_tables_def)
  qed (rule l(2))
qed

end
