(* ===== verification/Vm_Run.thy ===== *)
theory Vm_Run
  imports Mmu_Hardware
begin

unbundle bit_operations_syntax

text \<open>
  The virtual-memory system as it runs: every interleaving of boot, mapping, unmapping,
  creating, activating and freeing address spaces, frame allocation for data, stores to
  data frames and TLB fills. The theorems hold in every state such a run reaches.
\<close>

section \<open>The invariant of the running kernel\<close>

definition boot_blocks :: "usize set \<Rightarrow> memory \<Rightarrow> bool" where
  "boot_blocks R m \<longleftrightarrow> (\<forall>r\<in>R. blk m r [0] 0 = Some DEVICE_BLOCK \<and>
     (\<forall>i < 64. blk m r [0, 1] i = Some ((RAM_BASE + i * BLOCK_2MIB) OR NORMAL_BLOCK)))"

definition vm_ok :: "usize set \<Rightarrow> 'a mmu_state_scheme \<Rightarrow> bool" where
  "vm_ok R s \<longleftrightarrow> (\<exists>fs. vm_inv R fs s) \<and> tlb_ok s \<and> installed_ok s \<and> KERNEL_TTBR0 s \<in> R \<and>
     ttbr0_el1 s \<in> R \<and> boot_blocks R (mem s)"

lemma boot_paths: "is_path ([0] @ [0])" "i < 64 \<Longrightarrow> is_path ([0, 1] @ [i])" for i :: usize
  by (auto simp: is_path_def lt_64_slot)

lemma boot_blocks_same: "boot_blocks R m \<Longrightarrow> same_blocks R m m' \<Longrightarrow> boot_blocks R m'"
  using boot_paths by (simp add: boot_blocks_def same_blocks_def)

lemma boot_blocks_mono: "boot_blocks R m \<Longrightarrow> R' \<subseteq> R \<Longrightarrow> boot_blocks R' m"
  by (auto simp: boot_blocks_def)

lemma boot_blocks_init:
  assumes bt: "boot_tables l0 l1 l2 m" and l: "valid_frame l0" "valid_frame l1" "valid_frame l2"
  shows "boot_blocks {l0} m"
proof -
  have "is_path [0]" "is_path [0, 1]" by (simp_all add: is_path_def)
  then have "tbl m l0 [0] = Some l1" "tbl m l0 [0, 1] = Some l2"
    using boot_tbl[OF bt l, of "[0]"] boot_tbl[OF bt l, of "[0, 1]"] by (simp_all del: tbl.simps)
  moreover have "(RAM_BASE + i * BLOCK_2MIB OR NORMAL_BLOCK) AND DESC_VALID \<noteq> 0" if "i < 64" for i
    using block_desc(1)[of "RAM_BASE + i * BLOCK_2MIB OR NORMAL_BLOCK"] ram_block_bits[OF that] by simp
  ultimately show ?thesis
    using bt DEVICE_BLOCK_block ram_block_not_table lt_64_slot
    by (simp add: boot_blocks_def blk_def boot_tables_def del: tbl.simps)
qed

text \<open>While the boot blocks stand, kernel addresses translate to themselves.\<close>

lemma boot_blocks_identity:
  assumes bb: "boot_blocks R m" and r: "r \<in> R" and va: "va < RAM_TOP"
  shows "hw_walk m r va = Some (if va < RAM_BASE then DEVICE_BLOCK else ram_desc va, va)"
proof -
  have small: "va < 0x1000000000000"
    by (rule order.strict_trans[OF va]) (simp add: RAM_TOP_def RAM_BASE_def RAM_SIZE_def)
  show ?thesis
  proof (cases "va < RAM_BASE")
    case True
    have "unat va < 2 ^ 30" using True by (simp add: word_less_nat_alt RAM_BASE_def)
    then have i0: "table_index va 39 = 0" by (simp add: word_unat_eq_iff unat_table_index)
    then have "table_index va 30 = 0" using index_pair_range(1)[OF small] True by simp
    then show ?thesis
      using i0 bb r small True device_addr by (simp add: hw_walk_leaf boot_blocks_def)
  next
    case False
    then have ram: "RAM_BASE \<le> va" by simp
    note ix = ram_desc_index[OF ram va]
    have b2: "blk m r [0, 1] (table_index va 21) = Some (ram_desc va)" using bb r ix by (simp add: boot_blocks_def)
    then have "blk m r [0] 1 = None" by (auto simp: blk_def split: if_splits)
    then show ?thesis using b2 ix False small ram_desc_addr[OF va] by (simp add: hw_walk_leaf)
  qed
qed

lemma vm_okE:
  assumes "vm_ok R s"
  obtains fs where "vm_inv R fs s" "tlb_ok s" "installed_ok s" "KERNEL_TTBR0 s \<in> R" "ttbr0_el1 s \<in> R"
    "boot_blocks R (mem s)" "l0_ptr (ttbr0_el1 s) = ttbr0_el1 s"
proof -
  from assms obtain fs where fs: "vm_inv R fs s" "ttbr0_el1 s \<in> R" by (auto simp: vm_ok_def)
  then have "valid_frame (ttbr0_el1 s)" using pt_inv_valid_root by (auto simp: vm_inv_def)
  then show thesis using assms fs that by (simp add: vm_ok_def l0_ptr_def)
qed

lemma vm_only_KERNEL_TTBR0: "vm_only s s' \<Longrightarrow> KERNEL_TTBR0 s' = KERNEL_TTBR0 s"
  unfolding vm_only_def by (drule arg_cong[where f = KERNEL_TTBR0]) simp

lemma vm_only_installed: "vm_only s s' \<Longrightarrow> installed_ok s \<Longrightarrow> installed_ok s'"
  using vm_only_regs[of s s'] vm_only_ttbr0[of s s'] by (simp add: installed_ok_def)

lemma vm_ok_leaf_update:
  assumes ok: "vm_ok R s" and va: "va < 0x1000000000000"
    and st: "vm_step R fs s gs s'" and u: "leaf_update R (mem s) r va d (mem s')"
    and t: "tlb s' = (tlb s)(drop_bit 12 va := None)"
  shows "vm_ok R s'"
proof -
  have vo: "vm_only s s'" using st by (simp add: vm_step_def)
  from ok show ?thesis
  proof (cases rule: vm_okE)
    case (1 gs)
    have "tlb_ok s'"
      using tlb_ok_leaf_update[OF 1(2) _ va u t vm_only_ttbr0[OF vo]] 1(5,7) by simp
    moreover have "boot_blocks R (mem s')" using boot_blocks_same[OF 1(6)] u by (simp add: leaf_update_def)
    ultimately show ?thesis
      using st 1 vm_only_ttbr0[OF vo] vm_only_KERNEL_TTBR0[OF vo] vm_only_installed[OF vo]
      by (auto simp: vm_ok_def vm_step_def)
  qed
qed

lemma vm_ok_unmap:
  assumes ok: "vm_ok R s" and r: "r \<in> R" and va: "va < 0x1000000000000"
    and run: "unmap_page_in r va s = Inr (u, s')"
  shows "vm_ok R s'"
  using ok
proof (cases rule: vm_okE)
  case (1 fs)
  from unmap_page_in_ok[OF 1(1) r, of va] run
  have st: "vm_step R fs s fs s'" and u: "leaf_update R (mem s) r va 0 (mem s')"
    and t: "tlb s' = (if tbl (mem s) r (va_path va) = None then tlb s else (tlb s)(drop_bit 12 va := None))"
    by (simp_all add: wp_def)
  show ?thesis
  proof (cases "tbl (mem s) r (va_path va)")
    case None
    then have "s' = s" using run by (simp add: unmap_page_in_def run_simps walk_tables_tbl va_path_def[symmetric])
    then show ?thesis using ok by simp
  next
    case (Some x)
    then show ?thesis using t by (intro vm_ok_leaf_update[OF ok va st u]) simp
  qed
qed

lemma vm_ok_map:
  assumes ok: "vm_ok R s" and r: "r \<in> R" and va: "va < 0x1000000000000"
    and run: "map_page_in r va pa flags s = Inr (u, s')"
  shows "vm_ok R s'"
  using ok
proof (cases rule: vm_okE)
  case (1 fs)
  from map_page_in_wlp[OF 1(1) r, of va pa flags] run
  have "mapped R fs s r va ((pa AND ADDR_MASK) OR flags) s'" by (simp add: wlp_def)
  then show ?thesis using vm_ok_leaf_update[OF ok va] by (auto simp: mapped_def)
qed

lemma tlb_ok_same:
  assumes "tlb_ok s" "l0_ptr (ttbr0_el1 s) \<in> R" "same_blocks R (mem s) (mem s')"
    "\<And>va. leaf (mem s') (l0_ptr (ttbr0_el1 s)) va = leaf (mem s) (l0_ptr (ttbr0_el1 s)) va"
    "tlb s' = tlb s" "ttbr0_el1 s' = ttbr0_el1 s"
  shows "tlb_ok s'"
  using assms hw_walk_same[OF assms(3,2) assms(4)] by (simp add: tlb_ok_def)

lemma vm_ok_new:
  assumes ok: "vm_ok R s" and run: "new_address_space s = Inr (root, s')"
  shows "vm_ok (insert root R) s'" and "root \<notin> R"
proof -
  from ok obtain fs where 1: "vm_inv R fs s" "tlb_ok s" "installed_ok s" "KERNEL_TTBR0 s \<in> R" "ttbr0_el1 s \<in> R"
    "boot_blocks R (mem s)" "l0_ptr (ttbr0_el1 s) = ttbr0_el1 s" by (rule vm_okE)
  have "fs \<noteq> []"
    using run 1(1) alloc_table_empty[of s] by (auto simp: new_address_space_def run_simps vm_inv_def)
  then obtain f gs where fs: "fs = f # gs" by (cases fs) auto
  from new_address_space_ok[OF 1(1)[unfolded fs] 1(4)] run
  have n: "root = f" "f \<notin> R" "vm_inv (insert f R) gs s'" "vm_only s s'" "tlb s' = tlb s"
    "\<forall>r'\<in>R. \<forall>va. leaf (mem s') r' va = leaf (mem s) r' va" "same_blocks R (mem s) (mem s')"
    "\<forall>p i. is_path (p @ [i]) \<longrightarrow> shared p \<longrightarrow> blk (mem s') f p i = blk (mem s) (KERNEL_TTBR0 s) p i"
    by (simp_all add: wp_def)
  show "root \<notin> R" using n by simp
  have "tlb_ok s'"
    using 1 n vm_only_ttbr0[OF n(4)] by (intro tlb_ok_same[OF 1(2) _ n(7)]) auto
  moreover have "blk (mem s') f [0] 0 = blk (mem s) (KERNEL_TTBR0 s) [0] 0"
    "i < 64 \<Longrightarrow> blk (mem s') f [0, 1] i = blk (mem s) (KERNEL_TTBR0 s) [0, 1] i" for i
    using n(8) boot_paths by (simp_all add: shared_def)
  then have "boot_blocks (insert f R) (mem s')"
    using boot_blocks_same[OF 1(6) n(7)] 1(4,6) by (simp add: boot_blocks_def)
  ultimately show "vm_ok (insert root R) s'"
    using n 1 vm_only_ttbr0[OF n(4)] vm_only_KERNEL_TTBR0[OF n(4)] vm_only_installed[OF n(4)]
    by (auto simp: vm_ok_def)
qed

lemma vm_ok_activate:
  assumes ok: "vm_ok R s" and r: "r \<in> R" and run: "activate r s = Inr (u, s')"
  shows "vm_ok R s'" and "ttbr0_el1 s' = r"
proof -
  from ok obtain fs where 1: "vm_inv R fs s" "tlb_ok s" "installed_ok s" "KERNEL_TTBR0 s \<in> R" "ttbr0_el1 s \<in> R"
    "boot_blocks R (mem s)" "l0_ptr (ttbr0_el1 s) = ttbr0_el1 s" by (rule vm_okE)
  have "valid_frame r" using 1(1) r pt_inv_valid_root by (auto simp: vm_inv_def)
  then have nz: "r \<noteq> 0" by (rule valid_frame_nonzero)
  from activate_ok[OF 1(3) nz] run
  have s': "s' = s\<lparr>ttbr0_el1 := r, INSTALLED := r, tlb := (if INSTALLED s = r then tlb s else Map.empty)\<rparr>"
    by (simp add: wp_def)
  show "ttbr0_el1 s' = r" by (simp add: s')
  have "tlb_ok s'" using activate_tlb_ok[OF 1(3) nz 1(2)] run by (simp add: wp_def)
  then show "vm_ok R s'"
    using 1 r by (auto simp: vm_ok_def s' vm_inv_def frames_inv_def installed_ok_def intro!: exI[of _ fs])
qed

lemma vm_ok_free:
  assumes ok: "vm_ok R s" and r: "r \<in> R" "r \<noteq> KERNEL_TTBR0 s" "r \<noteq> ttbr0_el1 s" "window_only (mem s) r"
    and run: "free_address_space r s = Inr (u, s')"
  shows "vm_ok (R - {r}) s'"
proof -
  from ok obtain fs where 1: "vm_inv R fs s" "tlb_ok s" "installed_ok s" "KERNEL_TTBR0 s \<in> R" "ttbr0_el1 s \<in> R"
    "boot_blocks R (mem s)" "l0_ptr (ttbr0_el1 s) = ttbr0_el1 s" by (rule vm_okE)
  from free_address_space_ok[OF 1(1) r(1,4)] run
  obtain gs where f: "vm_inv (R - {r}) (gs @ fs) s'" "vm_only s s'" "tlb s' = tlb s"
    "\<forall>r' \<in> R - {r}. \<forall>va. leaf (mem s') r' va = leaf (mem s) r' va" "same_blocks (R - {r}) (mem s) (mem s')"
    by (auto simp: wp_def frees_def)
  have "tlb_ok s'"
    using 1 f r vm_only_ttbr0[OF f(2)] by (intro tlb_ok_same[OF 1(2) _ f(5)]) auto
  moreover have "boot_blocks (R - {r}) (mem s')"
    using boot_blocks_same[OF boot_blocks_mono[OF 1(6)] f(5)] by blast
  ultimately show ?thesis
    using f 1 r vm_only_ttbr0[OF f(2)] vm_only_KERNEL_TTBR0[OF f(2)] vm_only_installed[OF f(2)]
    by (auto simp: vm_ok_def)
qed

section \<open>Runs\<close>

text \<open>
  \<open>vm_run U R D s\<close>: from a pool holding the frames \<open>U\<close>, a run reached the state \<open>s\<close> with
  the address spaces \<open>R\<close> and the data frames \<open>D\<close> (allocated and not yet freed).
\<close>

inductive vm_run :: "usize set \<Rightarrow> usize set \<Rightarrow> usize set \<Rightarrow> 'a mmu_state_scheme \<Rightarrow> bool" for U where
  boot: "frames_inv fs s \<Longrightarrow> set fs = U \<Longrightarrow> INSTALLED s = 0 \<Longrightarrow> init_mmu s = Inr ((), t) \<Longrightarrow>
    vm_run U {KERNEL_TTBR0 t} {} t"
| new_space: "vm_run U R D s \<Longrightarrow> new_address_space s = Inr (root, t) \<Longrightarrow> vm_run U (insert root R) D t"
| map_page: "vm_run U R D s \<Longrightarrow> r \<in> R \<Longrightarrow> va < 0x1000000000000 \<Longrightarrow>
    map_page_in r va pa flags s = Inr ((), t) \<Longrightarrow> vm_run U R D t"
| unmap_page: "vm_run U R D s \<Longrightarrow> r \<in> R \<Longrightarrow> va < 0x1000000000000 \<Longrightarrow>
    unmap_page_in r va s = Inr ((), t) \<Longrightarrow> vm_run U R D t"
| switch: "vm_run U R D s \<Longrightarrow> r \<in> R \<Longrightarrow> activate r s = Inr ((), t) \<Longrightarrow> vm_run U R D t"
| free_space: "vm_run U R D s \<Longrightarrow> r \<in> R \<Longrightarrow> r \<noteq> KERNEL_TTBR0 s \<Longrightarrow> r \<noteq> ttbr0_el1 s \<Longrightarrow>
    window_only (mem s) r \<Longrightarrow> free_address_space r s = Inr ((), t) \<Longrightarrow> vm_run U (R - {r}) D t"
| alloc_data: "vm_run U R D s \<Longrightarrow> alloc_frame s = Inr (Some f, t) \<Longrightarrow> vm_run U R (insert f D) t"
| free_data: "vm_run U R D s \<Longrightarrow> f \<in> D \<Longrightarrow> free_frame f s = Inr ((), t) \<Longrightarrow> vm_run U R (D - {f}) t"
| store: "vm_run U R D s \<Longrightarrow> (\<And>a. page_of a \<notin> D \<Longrightarrow> m a = mem s a) \<Longrightarrow> vm_run U R D (s\<lparr>mem := m\<rparr>)"
| tlb_fill: "vm_run U R D s \<Longrightarrow> page < 0x10000000000000 \<Longrightarrow>
    hw_walk (mem s) (l0_ptr (ttbr0_el1 s)) (push_bit 12 page) = Some e \<Longrightarrow>
    vm_run U R D (s\<lparr>tlb := (tlb s)(page \<mapsto> e)\<rparr>)"

definition vm_owns :: "usize set \<Rightarrow> usize set \<Rightarrow> usize set \<Rightarrow> 'a mmu_state_scheme \<Rightarrow> bool" where
  "vm_owns U R D s \<longleftrightarrow> (\<exists>fs. vm_inv R fs s \<and> tables R (mem s) \<union> set fs \<union> D = U \<and>
     D \<inter> (tables R (mem s) \<union> set fs) = {} \<and> (\<forall>f\<in>D. valid_frame f))"

lemma vm_owns_inv: "vm_owns U R D s \<Longrightarrow> vm_inv R fs s \<Longrightarrow> tables R (mem s) \<union> set fs \<union> D = U \<and>
     D \<inter> (tables R (mem s) \<union> set fs) = {} \<and> (\<forall>f\<in>D. valid_frame f)"
proof -
  assume "vm_owns U R D s" and inv: "vm_inv R fs s"
  then obtain gs where gs: "vm_inv R gs s" "tables R (mem s) \<union> set gs \<union> D = U"
     "D \<inter> (tables R (mem s) \<union> set gs) = {}" "\<forall>f\<in>D. valid_frame f" by (auto simp: vm_owns_def)
  moreover have "gs = fs" using gs(1) inv frames_inv_unique by (auto simp: vm_inv_def)
  ultimately show ?thesis by simp
qed

lemma vm_owns_step: "vm_owns U R D s \<Longrightarrow> vm_inv R fs s \<Longrightarrow> vm_step R fs s gs t \<Longrightarrow> vm_owns U R D t"
  using vm_owns_inv[of U R D s fs] unfolding vm_owns_def[of _ _ _ t] vm_step_def by (intro exI[of _ gs]) simp

lemma init_mmu_needs_frames:
  assumes "frames_inv fs s" "init_mmu s = Inr (u, t)"
  obtains l0 l1 l2 gs where "fs = l0 # l1 # l2 # gs"
proof (cases fs)
  case Nil
  then show ?thesis using assms alloc_table_empty[of s] by (auto simp: init_mmu_def run_simps)
next
  case (Cons a as)
  then obtain s1 where s1: "alloc_table s = Inr (a, s1)" "frames_inv as s1"
    using alloc_table_ok[of a as s] assms by (auto simp: wp_iff)
  show ?thesis
  proof (cases as)
    case Nil
    then show ?thesis using assms s1 alloc_table_empty[of s1] by (auto simp: init_mmu_def run_simps)
  next
    case c2: (Cons b bs)
    then obtain s2 where s2: "alloc_table s1 = Inr (b, s2)" "frames_inv bs s2"
      using alloc_table_ok[of b bs s1] s1 by (auto simp: wp_iff)
    show ?thesis
    proof (cases bs)
      case Nil
      then show ?thesis using assms s1 s2 alloc_table_empty[of s2] by (auto simp: init_mmu_def run_simps)
    qed (use that Cons c2 in blast)
  qed
qed

lemma vm_ok_boot:
  assumes inv: "frames_inv fs s" and i: "INSTALLED s = 0" and run: "init_mmu s = Inr ((), t)"
  shows "vm_ok {KERNEL_TTBR0 t} t" and "vm_owns (set fs) {KERNEL_TTBR0 t} {} t"
proof -
  from init_mmu_needs_frames[OF inv run] obtain l0 l1 l2 gs where fs: "fs = l0 # l1 # l2 # gs" .
  have l: "valid_frame l0" "valid_frame l1" "valid_frame l2" "distinct [l0, l1, l2]" "set gs \<inter> {l0, l1, l2} = {}"
    using inv fs by (auto simp: frames_inv_def)
  from init_mmu_ok[OF inv[unfolded fs]] run
  have b: "boot_tables l0 l1 l2 (mem t)" "frames_inv gs t" "KERNEL_L1 t = l1" "KERNEL_TTBR0 t = l0"
    "INSTALLED t = 0" "ttbr0_el1 t = l0" "tlb t = Map.empty"
    using i by (simp_all add: wp_def)
  note pt = boot_pt_inv[OF b(1) l(1-4)]
  have vi: "vm_inv {l0} gs t" using b pt l by (auto simp: vm_inv_def)
  show "vm_ok {KERNEL_TTBR0 t} t"
    using vi b boot_blocks_init[OF b(1) l(1-3)] by (auto simp: vm_ok_def tlb_ok_def installed_ok_def)
  show "vm_owns (set fs) {KERNEL_TTBR0 t} {} t"
    using vi pt(2) b(4) fs unfolding vm_owns_def by (intro exI[of _ gs]) auto
qed

lemma vm_owns_new:
  assumes own: "vm_owns U R D s" and ok: "vm_ok R s" and run: "new_address_space s = Inr (root, s')"
  shows "vm_owns U (insert root R) D s'"
proof -
  from ok obtain fs where 1: "vm_inv R fs s" "KERNEL_TTBR0 s \<in> R" by (auto simp: vm_ok_def)
  have "fs \<noteq> []"
    using run 1(1) alloc_table_empty[of s] by (auto simp: new_address_space_def run_simps vm_inv_def)
  then obtain f gs where fs: "fs = f # gs" by (cases fs) auto
  from new_address_space_ok[OF 1(1)[unfolded fs] 1(2)] run
  have n: "root = f" "vm_inv (insert f R) gs s'" "tables (insert f R) (mem s') = insert f (tables R (mem s))"
    by (simp_all add: wp_def)
  from vm_owns_inv[OF own 1(1)] show ?thesis
    unfolding vm_owns_def using n fs by (intro exI[of _ gs]) auto
qed

lemma vm_owns_free:
  assumes own: "vm_owns U R D s" and ok: "vm_ok R s" and r: "r \<in> R" "r \<noteq> KERNEL_TTBR0 s" "window_only (mem s) r"
    and run: "free_address_space r s = Inr (u, s')"
  shows "vm_owns U (R - {r}) D s'"
proof -
  from ok obtain fs where 1: "vm_inv R fs s" "KERNEL_TTBR0 s \<in> R" by (auto simp: vm_ok_def)
  then have pt: "pt_inv R (KERNEL_L1 s) (mem s)" by (simp add: vm_inv_def)
  from free_address_space_ok[OF 1(1) r(1,3)] run
  obtain gs where f: "vm_inv (R - {r}) (gs @ fs) s'" "set gs = private_tables (mem s) r"
    "frees (private_tables (mem s) r) fs s s'"
    by (auto simp: wp_def)
  have keep: "\<forall>u \<in> tables (R - {r}) (mem s). \<forall>j < 0x200. mem s' (tadd u j) = mem s (tadd u j)"
    by (rule frees_private_keep[OF 1(1) r(1) f(3)])
  have "tables (R - {r}) (mem s') = tables (R - {r}) (mem s)"
    by (rule spaces_cong(2)[OF pt_inv_mono[OF pt Diff_subset] keep])
  then show ?thesis
    using vm_owns_inv[OF own 1(1)] f(1,2) tables_private[OF pt r(1) 1(2) r(2)[symmetric]]
    unfolding vm_owns_def by (intro exI[of _ "gs @ fs"]) auto
qed

lemma vm_alloc_data:
  assumes own: "vm_owns U R D s" and ok: "vm_ok R s" and run: "alloc_frame s = Inr (Some f, s')"
  shows "vm_owns U R (insert f D) s'" and "vm_ok R s'"
proof -
  from ok obtain fs where inv: "vm_inv R fs s" by (auto simp: vm_ok_def)
  then have fr: "frames_inv fs s" by (simp add: vm_inv_def)
  from fr run obtain gs where fs: "fs = f # gs" and s': "s' = pop_state f s" "frames_inv gs s'"
    by (cases rule: alloc_frame_cases) auto
  then have v: "vm_inv R gs s'" "mem s' = mem s" using inv by (auto simp: vm_inv_def pop_state_def)
  have "valid_frame f" "f \<notin> set gs" "f \<notin> tables R (mem s)" using inv fs by (auto simp: vm_inv_def frames_inv_def)
  then show "vm_owns U R (insert f D) s'"
    unfolding vm_owns_def using v vm_owns_inv[OF own inv] fs by (intro exI[of _ gs]) auto
  show "vm_ok R s'" using v ok unfolding vm_ok_def
    by (auto simp: s' pop_state_def tlb_ok_def installed_ok_def)
qed

lemma vm_free_data:
  assumes own: "vm_owns U R D s" and ok: "vm_ok R s" and f: "f \<in> D" and run: "free_frame f s = Inr (u, s')"
  shows "vm_owns U R (D - {f}) s'" and "vm_ok R s'"
proof -
  from ok obtain fs where inv: "vm_inv R fs s" by (auto simp: vm_ok_def)
  note o = vm_owns_inv[OF own inv]
  have fr: "frames_inv fs s" "valid_frame f" "f \<notin> set fs" and ft: "f \<notin> tables R (mem s)"
    using inv o f by (auto simp: vm_inv_def)
  note fo = free_frame_ok[OF fr]
  have s': "s' = push_state f s" using fo(1) run by simp
  have pt: "pt_inv R (KERNEL_L1 s) (mem s)" using inv by (simp add: vm_inv_def)
  have same: "\<forall>u \<in> tables R (mem s). \<forall>j < 0x200. mem s' (tadd u j) = mem s (tadd u j)"
  proof (intro ballI allI impI)
    fix u j :: usize assume u: "u \<in> tables R (mem s)" "j < 0x200"
    have "page_of (tadd u j) = u" "page_of f = f"
      using u vm_inv_tables[OF inv u(1)] fr(2) by (simp_all add: valid_frame_aligned)
    then have "tadd u j \<noteq> f" using ft u by metis
    then show "mem s' (tadd u j) = mem s (tadd u j)" by (simp add: s' push_state_def)
  qed
  note c = spaces_cong[OF pt same]
  have K: "KERNEL_L1 s' = KERNEL_L1 s" and regs: "tlb s' = tlb s" "ttbr0_el1 s' = ttbr0_el1 s"
    "KERNEL_TTBR0 s' = KERNEL_TTBR0 s" "INSTALLED s' = INSTALLED s"
    by (simp_all add: s' push_state_def)
  have vi: "vm_inv R (f # fs) s'"
    using c(1,2) fo(2)[folded s'] inv ft K by (auto simp: vm_inv_def)
  show "vm_owns U R (D - {f}) s'"
    unfolding vm_owns_def using vi c(2) o f ft fr by (intro exI[of _ "f # fs"]) auto
  from ok show "vm_ok R s'"
  proof (cases rule: vm_okE)
    case (1 gs)
    have "tlb_ok s'"
      by (rule tlb_ok_same[OF 1(2) _ c(5)]) (use 1 c(3) regs in auto)
    then show ?thesis
      using vi 1 boot_blocks_same[OF 1(6) c(5)] regs by (auto simp: vm_ok_def installed_ok_def)
  qed
qed

lemma vm_store:
  assumes own: "vm_owns U R D s" and ok: "vm_ok R s" and m: "\<And>a. page_of a \<notin> D \<Longrightarrow> m a = mem s a"
  shows "vm_owns U R D (s\<lparr>mem := m\<rparr>)" and "vm_ok R (s\<lparr>mem := m\<rparr>)"
proof -
  from ok obtain fs where inv: "vm_inv R fs s" by (auto simp: vm_ok_def)
  note o = vm_owns_inv[OF own inv]
  have pt: "pt_inv R (KERNEL_L1 s) (mem s)" using inv by (simp add: vm_inv_def)
  have same: "\<forall>u \<in> tables R (mem s). \<forall>j < 0x200. m (tadd u j) = mem s (tadd u j)"
  proof (intro ballI allI impI)
    fix u j :: usize assume u: "u \<in> tables R (mem s)" "j < 0x200"
    then have "page_of (tadd u j) = u" using vm_inv_tables[OF inv u(1)] by (simp add: valid_frame_aligned)
    then have "page_of (tadd u j) \<notin> D" using o u by auto
    then show "m (tadd u j) = mem s (tadd u j)" by (rule m)
  qed
  note c = spaces_cong[OF pt same]
  have "m f = mem s f" if "f \<in> set fs" for f
  proof -
    have "page_of f = f" using inv that by (auto simp: vm_inv_def frames_inv_def valid_frame_aligned)
    then have "page_of f \<notin> D" using o that by auto
    then show ?thesis by (rule m)
  qed
  then have "frames_inv fs (s\<lparr>mem := m\<rparr>)" using inv by (intro frames_inv_mem) (auto simp: vm_inv_def)
  then have vi: "vm_inv R fs (s\<lparr>mem := m\<rparr>)" using c(1,2) inv by (simp add: vm_inv_def)
  show "vm_owns U R D (s\<lparr>mem := m\<rparr>)"
    unfolding vm_owns_def using vi c(2) o by (intro exI[of _ fs]) simp
  from ok show "vm_ok R (s\<lparr>mem := m\<rparr>)"
  proof (cases rule: vm_okE)
    case (1 gs)
    have "tlb_ok (s\<lparr>mem := m\<rparr>)"
      by (rule tlb_ok_same[OF 1(2), of R]) (use 1 c(3,5) in auto)
    then show ?thesis
      using vi 1 boot_blocks_same[OF 1(6) c(5)] unfolding vm_ok_def by (auto simp: installed_ok_def)
  qed
qed

lemma vm_run_inv: "vm_run U R D s \<Longrightarrow> vm_ok R s \<and> vm_owns U R D s"
proof (induction rule: vm_run.induct)
  case (boot fs s t)
  then show ?case using vm_ok_boot by blast
next
  case (new_space R D s root t)
  then show ?case using vm_ok_new vm_owns_new by blast
next
  case (map_page R D s r va pa flags t)
  then obtain fs where fs: "vm_inv R fs s" by (auto simp: vm_ok_def)
  from map_page_in_wlp[OF fs map_page.hyps(2), of va pa flags] map_page.hyps(4)
  obtain n where "vm_step R fs s (drop n fs) t" by (auto simp: wlp_def mapped_def)
  then show ?case using map_page vm_ok_map vm_owns_step[OF _ fs] by blast
next
  case (unmap_page R D s r va t)
  then obtain fs where fs: "vm_inv R fs s" by (auto simp: vm_ok_def)
  from unmap_page_in_ok[OF fs unmap_page.hyps(2), of va] unmap_page.hyps(4)
  have "vm_step R fs s fs t" by (simp add: wp_def)
  then show ?case using unmap_page vm_ok_unmap vm_owns_step[OF _ fs] by blast
next
  case (switch R D s r t)
  then obtain fs where fs: "vm_inv R fs s" "installed_ok s" by (auto simp: vm_ok_def)
  have "valid_frame r" using fs(1) switch.hyps(2) pt_inv_valid_root by (auto simp: vm_inv_def)
  then have "r \<noteq> 0" by (rule valid_frame_nonzero)
  from activate_ok[OF fs(2) this] switch.hyps(3)
  have "t = s\<lparr>ttbr0_el1 := r, INSTALLED := r, tlb := (if INSTALLED s = r then tlb s else Map.empty)\<rparr>"
    by (simp add: wp_def)
  then have "vm_owns U R D t" using switch.IH by (simp add: vm_owns_def vm_inv_def frames_inv_def)
  then show ?case using switch vm_ok_activate by blast
next
  case (free_space R D s r t)
  then show ?case using vm_ok_free vm_owns_free by blast
next
  case (alloc_data R D s f t)
  then show ?case using vm_alloc_data by blast
next
  case (free_data R D s f t)
  then show ?case using vm_free_data by blast
next
  case (store R D s m)
  then show ?case using vm_store by blast
next
  case (tlb_fill R D s page e)
  then have "tlb_ok (s\<lparr>tlb := (tlb s)(page \<mapsto> e)\<rparr>)"
    by (cases e) (auto simp: vm_ok_def tlb_ok_def)
  with tlb_fill.IH show ?case
    by (auto simp: vm_ok_def vm_owns_def vm_inv_def frames_inv_def installed_ok_def)
qed

end
