(* ===== verification/Vm_Properties.thy ===== *)
theory Vm_Properties
  imports Vm_Run
begin

unbundle bit_operations_syntax

text \<open>
  The properties of the memory manager, stated through \<^verbatim>\<open>translate\<close> and the hardware
  lookup, each with an instance on a machine that boots with twelve free frames.
\<close>

section \<open>Correctness of the operations, by translation\<close>

definition off_mmu :: mmu_state where
  "off_mmu = \<lparr>mem = (\<lambda>_. 0), tlb = Map.empty, ttbr0_el1 = 0, mair_el1 = 0, tcr_el1 = 0, sctlr_el1 = 0,
     daif = 0, FRAME_ALLOCATOR = FrameAllocator_new, KERNEL_L1 = 0, KERNEL_TTBR0 = 0, INSTALLED = 0, ic_synced = []\<rparr>"

text \<open>A machine with twelve free frames, and what booting it gives.\<close>

definition sample_boot :: mmu_state where
  "sample_boot = pool_of sample_frames off_mmu"

lemma sample_boot_inv: "frames_inv (0x40100000 # 0x40101000 # 0x40102000 # drop 3 sample_frames) sample_boot"
proof -
  have "0x40100000 # 0x40101000 # 0x40102000 # drop 3 sample_frames = sample_frames"
    by (simp add: sample_frames_list)
  then show ?thesis unfolding sample_boot_def using frames_inv_pool_of[OF sample_frames_ok] by metis
qed

lemma init_mmu_vm_inv:
  assumes inv: "frames_inv (l0 # l1 # l2 # fs) s"
  shows "wp init_mmu (\<lambda>_ t. vm_inv {l0} fs t \<and> KERNEL_TTBR0 t = l0 \<and> ttbr0_el1 t = l0 \<and> boot_tables l0 l1 l2 (mem t) \<and>
    INSTALLED t = INSTALLED s \<and> tlb t = Map.empty) s"
  using init_mmu_ok[OF inv]
proof (rule wp_mono)
  have l: "valid_frame l0" "valid_frame l1" "valid_frame l2" "distinct [l0, l1, l2]" "set fs \<inter> {l0, l1, l2} = {}"
    using inv by (auto simp: frames_inv_def)
  fix u t assume b: "boot_tables l0 l1 l2 (mem t) \<and> frames_inv fs t \<and>
    KERNEL_L1 t = l1 \<and> KERNEL_TTBR0 t = l0 \<and> INSTALLED t = INSTALLED s \<and> ttbr0_el1 t = l0 \<and>
    tlb t = Map.empty \<and> mair_el1 t = MAIR \<and> tcr_el1 t = TCR \<and>
    sctlr_el1 t = sctlr_el1 s OR 0x1005 \<and>
    (\<forall>a. page_of a \<notin> {l0, l1, l2} \<longrightarrow> mem t a = mem s a)"
  then show "vm_inv {l0} fs t \<and> KERNEL_TTBR0 t = l0 \<and> ttbr0_el1 t = l0 \<and> boot_tables l0 l1 l2 (mem t) \<and>
    INSTALLED t = INSTALLED s \<and> tlb t = Map.empty"
    using boot_pt_inv[of l0 l1 l2 "mem t", OF _ l(1-4)] l(5) by (auto simp: vm_inv_def)
qed

lemma map_desc:
  assumes "flags AND DESC_VALID \<noteq> 0" "flags AND ADDR_MASK = 0"
  shows "((pa AND ADDR_MASK) OR flags) AND DESC_VALID \<noteq> 0"
    and "((pa AND ADDR_MASK) OR flags) AND ADDR_MASK = pa AND ADDR_MASK"
proof -
  have "bit (flags AND DESC_VALID) 0"
  proof (rule ccontr)
    assume "\<not> ?thesis"
    then have "flags AND DESC_VALID = 0"
      by (intro bit_word_eqI) (auto simp: DESC_VALID_def bit_simps bit_1_iff intro!: gr0I)
    with assms(1) show False by simp
  qed
  then have "bit (((pa AND ADDR_MASK) OR flags) AND DESC_VALID) 0" by (simp add: bit_simps DESC_VALID_def)
  then show "((pa AND ADDR_MASK) OR flags) AND DESC_VALID \<noteq> 0" by auto
  show "((pa AND ADDR_MASK) OR flags) AND ADDR_MASK = pa AND ADDR_MASK"
    using assms(2) by (simp add: bit.conj_disj_distrib2 and.assoc)
qed

text \<open>
  C15. map_page_in makes the page of va translate to pa in its space (in all spaces for a
  kernel-slot address) and changes no other translation of any address space; it uses at most
  three frames for new tables.
\<close>

theorem map_page_in_translates:
  assumes "vm_inv R fs s" and "r \<in> R" and "no_block (mem s) r (va_path va)"
    and "new_tables (mem s) r va \<le> length fs"
    and "flags AND DESC_VALID \<noteq> 0" and "flags AND ADDR_MASK = 0"
  shows "wp (map_page_in r va pa flags) (\<lambda>_ s'.
    (\<exists>n \<le> new_tables (mem s) r va. vm_inv R (drop n fs) s') \<and>
    (\<forall>r' \<in> R. \<forall>va'. translate_in (mem s') r' va' =
       (if same_page va' va \<and> (r' = r \<or> table_index va 39 = 0)
        then Some ((pa AND ADDR_MASK) OR (va' AND 0xFFF))
        else translate_in (mem s) r' va'))) s"
  using map_page_in_ok[OF assms(1-4), of pa flags]
proof (rule wp_mono)
  fix u s' assume m: "mapped R fs s r va ((pa AND ADDR_MASK) OR flags) s'"
  have vf: "valid_frame r'" if "r' \<in> R" for r'
    using assms(1) that pt_inv_valid_root by (auto simp: vm_inv_def)
  have lf: "leaf (mem s') r' va' = (if same_page va' va \<and> (r' = r \<or> table_index va 39 = 0)
      then (pa AND ADDR_MASK) OR flags else leaf (mem s) r' va')" if "r' \<in> R" for r' va'
    using m that by (simp add: mapped_def leaf_update_def)
  have "translate_in (mem s') r' va' = (if same_page va' va \<and> (r' = r \<or> table_index va 39 = 0)
        then Some ((pa AND ADDR_MASK) OR (va' AND 0xFFF)) else translate_in (mem s) r' va')" if "r' \<in> R" for r' va'
    unfolding translate_in_leaf[OF vf[OF that]] lf[OF that] using map_desc[OF assms(5,6), of pa] by (auto split: if_split)
  then show "(\<exists>n \<le> new_tables (mem s) r va. vm_inv R (drop n fs) s') \<and>
    (\<forall>r' \<in> R. \<forall>va'. translate_in (mem s') r' va' =
       (if same_page va' va \<and> (r' = r \<or> table_index va 39 = 0)
        then Some ((pa AND ADDR_MASK) OR (va' AND 0xFFF)) else translate_in (mem s) r' va'))"
    using m by (auto simp: mapped_def vm_step_def)
qed

lemma user_window_index: "table_index 0x8000000000 39 = 1" "table_index 0x8000000000 30 = 0"
  "table_index 0x8000000000 21 = 0" "table_index 0x8000000000 12 = 0"
  by (simp_all add: table_index_def drop_bit_eq_div)

lemma private_no_block:
  assumes "vm_inv R fs s" "r \<in> R" "table_index va 39 \<noteq> 0"
  shows "no_block (mem s) r (va_path va)"
  using assms no_block_private[of R "KERNEL_L1 s" "mem s" r "va_path va"]
  by (simp add: vm_inv_def shared_va_path)

lemma new_tables_le: "new_tables m r va \<le> 3"
  by (simp add: new_tables_def)

theorem map_page_in_translates_witness:
  "wp (k_bind init_mmu (\<lambda>_. map_page_in 0x40100000 0x8000000000 0x40109000 PAGE_USER_RW))
     (\<lambda>_ s'. translate_in (mem s') 0x40100000 0x8000000123 = Some 0x40109123) sample_boot"
  unfolding wp_bind
proof (rule wp_mono[OF init_mmu_vm_inv[OF sample_boot_inv]], elim conjE)
  fix u t assume inv: "vm_inv {0x40100000} (drop 3 sample_frames) t"
  have nb: "no_block (mem t) 0x40100000 (va_path 0x8000000000)"
    by (rule private_no_block[OF inv]) (simp_all add: user_window_index)
  have room: "new_tables (mem t) 0x40100000 0x8000000000 \<le> length (drop 3 sample_frames)"
    by (rule order.trans[OF new_tables_le]) (simp add: sample_frames_list)
  have flags: "PAGE_USER_RW AND DESC_VALID \<noteq> 0" "PAGE_USER_RW AND ADDR_MASK = 0"
    by (simp_all add: PAGE_USER_RW_def DESC_PAGE_def AP_EL0_RW_def SH_INNER_def AF_def UXN_def PXN_def
        DESC_VALID_def ADDR_MASK_def)
  have page: "same_page 0x8000000123 0x8000000000"
    by (simp add: same_page_def va_path_def table_index_def drop_bit_eq_div)
  show "wp (map_page_in 0x40100000 0x8000000000 0x40109000 PAGE_USER_RW)
     (\<lambda>_ s'. translate_in (mem s') 0x40100000 0x8000000123 = Some 0x40109123) t"
    by (rule wp_mono[OF map_page_in_translates[where pa = "0x40109000", OF inv _ nb room flags]])
      (simp_all add: page ADDR_MASK_def)
qed

text \<open>
  C19. unmap_page_in makes exactly the page of va untranslatable and keeps every other
  translation.
\<close>

theorem unmap_page_in_translates:
  assumes "vm_inv R fs s" and "r \<in> R"
  shows "wp (unmap_page_in r va) (\<lambda>_ s'. vm_inv R fs s' \<and>
    (\<forall>r' \<in> R. \<forall>va'. translate_in (mem s') r' va' =
       (if same_page va' va \<and> (r' = r \<or> table_index va 39 = 0) then None
        else translate_in (mem s) r' va'))) s"
  using unmap_page_in_ok[OF assms, of va]
proof (rule wp_mono, elim conjE)
  fix u s' assume st: "vm_step R fs s fs s'" and l: "leaf_update R (mem s) r va 0 (mem s')"
  have vf: "valid_frame r'" if "r' \<in> R" for r'
    using assms(1) that pt_inv_valid_root by (auto simp: vm_inv_def)
  have "translate_in (mem s') r' va' = (if same_page va' va \<and> (r' = r \<or> table_index va 39 = 0) then None
        else translate_in (mem s) r' va')" if "r' \<in> R" for r' va'
    unfolding translate_in_leaf[OF vf[OF that]] using l that by (auto simp: leaf_update_def split: if_split)
  with st show "vm_inv R fs s' \<and> (\<forall>r' \<in> R. \<forall>va'. translate_in (mem s') r' va' =
       (if same_page va' va \<and> (r' = r \<or> table_index va 39 = 0) then None
        else translate_in (mem s) r' va'))"
    by (simp add: vm_step_def)
qed

theorem unmap_page_in_translates_witness:
  "wp (k_bind init_mmu (\<lambda>_. unmap_page_in 0x40100000 0x8000000000))
     (\<lambda>_ s'. translate_in (mem s') 0x40100000 0x8000000000 = None) sample_boot"
  unfolding wp_bind
proof (rule wp_mono[OF init_mmu_vm_inv[OF sample_boot_inv]], elim conjE)
  fix u t assume inv: "vm_inv {0x40100000} (drop 3 sample_frames) t"
  show "wp (unmap_page_in 0x40100000 0x8000000000)
     (\<lambda>_ s'. translate_in (mem s') 0x40100000 0x8000000000 = None) t"
    by (rule wp_mono[OF unmap_page_in_translates[OF inv]]) (simp_all add: same_page_def)
qed

text \<open>
  C17. new_address_space builds a root that translates kernel-slot addresses as every other
  space does and maps nothing else, without touching existing spaces.
\<close>

theorem new_address_space_translates:
  assumes "vm_inv R (f # fs) s" and "r \<in> R"
  shows "wp new_address_space (\<lambda>root s'. root = f \<and> root \<notin> R \<and> vm_inv (insert root R) fs s' \<and>
    (\<forall>va. translate_in (mem s') root va =
       (if table_index va 39 = 0 then translate_in (mem s) r va else None)) \<and>
    (\<forall>r' \<in> R. \<forall>va. translate_in (mem s') r' va = translate_in (mem s) r' va)) s"
  using new_address_space_ok[OF assms]
proof (rule wp_mono, elim conjE)
  fix root s' assume n: "root = f" "f \<notin> R" "vm_inv (insert f R) fs s'"
    "\<forall>r'\<in>R. \<forall>va. leaf (mem s') r' va = leaf (mem s) r' va"
    "\<forall>va. leaf (mem s') f va = (if table_index va 39 = 0 then leaf (mem s) r va else 0)"
  have vf: "valid_frame r'" if "r' \<in> insert f R" for r'
    using n(3) that pt_inv_valid_root unfolding vm_inv_def by blast
  then have "translate_in (mem s') f va = (if table_index va 39 = 0 then translate_in (mem s) r va else None)" for va
    using n(5) assms(2) by (simp add: translate_in_leaf)
  moreover have "translate_in (mem s') r' va = translate_in (mem s) r' va" if "r' \<in> R" for r' va
    using n(4) that vf by (simp add: translate_in_leaf)
  ultimately show "root = f \<and> root \<notin> R \<and> vm_inv (insert root R) fs s' \<and>
    (\<forall>va. translate_in (mem s') root va =
       (if table_index va 39 = 0 then translate_in (mem s) r va else None)) \<and>
    (\<forall>r' \<in> R. \<forall>va. translate_in (mem s') r' va = translate_in (mem s) r' va)"
    using n by simp
qed

theorem new_address_space_translates_witness:
  "wp (k_bind init_mmu (\<lambda>_. new_address_space))
     (\<lambda>root s'. root = 0x40103000 \<and> translate_in (mem s') root 0x8000000000 = None) sample_boot"
  unfolding wp_bind
proof (rule wp_mono[OF init_mmu_vm_inv[OF sample_boot_inv]], elim conjE)
  fix u t assume inv: "vm_inv {0x40100000} (drop 3 sample_frames) t"
  then have inv': "vm_inv {0x40100000} (0x40103000 # drop 4 sample_frames) t" by (simp add: sample_frames_list)
  show "wp new_address_space
     (\<lambda>root s'. root = 0x40103000 \<and> translate_in (mem s') root 0x8000000000 = None) t"
    by (rule wp_mono[OF new_address_space_translates[OF inv']]) (auto simp: user_window_index)
qed

text \<open>A new space, and one that maps pages in the user window or the kernel slot, stays within them.\<close>

lemma window_only_new: "(\<forall>i < 0x200. 0 < i \<longrightarrow> m (tadd f i) = 0) \<Longrightarrow> window_only m f"
  by (simp add: window_only_def word_neq_0_conv)

lemma window_only_tbl: "window_only m r \<longleftrightarrow> (\<forall>i < 0x200. i \<noteq> 0 \<longrightarrow> i \<noteq> USER_L0_IDX \<longrightarrow> tbl m r [i] = None)"
  by (auto simp: window_only_def)

lemma window_only_mapped:
  assumes m: "mapped R fs s r va d s'" and r': "r' \<in> R" and w: "window_only (mem s) r'"
    and va: "table_index va 39 = 0 \<or> table_index va 39 = USER_L0_IDX"
  shows "window_only (mem s') r'"
  unfolding window_only_tbl
proof (intro allI impI)
  fix i :: usize assume i: "i < 0x200" "i \<noteq> 0" "i \<noteq> USER_L0_IDX"
  have p: "is_path [i]" using i by (simp add: is_path_def)
  have no: "\<not> (\<exists>rest. va_path va = [i] @ rest)" using i va by (auto simp: va_path_def)
  have none: "tbl (mem s) r' [i] = None" using w i unfolding window_only_tbl by blast
  have "grows_on R r (va_path va) (mem s) (mem s')" using m by (simp add: mapped_def)
  then have "tbl (mem s') r' [i] \<noteq> Some u" for u using p r' no none unfolding grows_on_def by fastforce
  then show "tbl (mem s') r' [i] = None" by (cases "tbl (mem s') r' [i]") auto
qed

text \<open>
  C16. free_address_space returns exactly the private page tables of a space that maps pages in
  the kernel slot and the user window only, each once, and leaves every other address space as
  it was.
\<close>

theorem free_address_space_reclaims:
  assumes "vm_inv R fs s" and "r \<in> R" and "window_only (mem s) r"
  shows "wp (free_address_space r) (\<lambda>_ s'.
    (\<exists>gs. vm_inv (R - {r}) (gs @ fs) s' \<and> set gs = private_tables (mem s) r \<and>
       length gs = card (private_tables (mem s) r)) \<and>
    (\<forall>r' \<in> R - {r}. \<forall>va. translate_in (mem s') r' va = translate_in (mem s) r' va)) s"
  using free_address_space_ok[OF assms]
proof (rule wp_mono, elim conjE exE)
  fix u s' gs assume g: "vm_inv (R - {r}) (gs @ fs) s'" "set gs = private_tables (mem s) r"
    and l: "\<forall>r' \<in> R - {r}. \<forall>va. leaf (mem s') r' va = leaf (mem s) r' va"
  have "distinct (gs @ fs)" using g(1) by (simp add: vm_inv_def frames_inv_def)
  then have "length gs = card (private_tables (mem s) r)" using g(2) distinct_card[of gs] by simp
  moreover have vf: "valid_frame r'" if "r' \<in> R - {r}" for r'
    using g(1) that pt_inv_valid_root unfolding vm_inv_def by blast
  ultimately show "(\<exists>gs. vm_inv (R - {r}) (gs @ fs) s' \<and> set gs = private_tables (mem s) r \<and>
       length gs = card (private_tables (mem s) r)) \<and>
    (\<forall>r' \<in> R - {r}. \<forall>va. translate_in (mem s') r' va = translate_in (mem s) r' va)"
    using g l by (auto simp: translate_in_leaf)
qed

theorem free_address_space_reclaims_witness:
  "wp (k_bind init_mmu (\<lambda>_. k_bind new_address_space free_address_space))
     (\<lambda>_ s'. \<exists>fs. vm_inv {0x40100000} fs s' \<and> 0x40103000 \<in> set fs) sample_boot"
  unfolding wp_bind
proof (rule wp_mono[OF init_mmu_vm_inv[OF sample_boot_inv]], elim conjE)
  fix u :: unit and t :: mmu_state assume inv: "vm_inv {0x40100000} (drop 3 sample_frames) t"
  then have inv': "vm_inv {0x40100000} (0x40103000 # drop 4 sample_frames) t" by (simp add: sample_frames_list)
  show "wp new_address_space (\<lambda>root. wp (free_address_space root)
     (\<lambda>_ s'. \<exists>fs. vm_inv {0x40100000} fs s' \<and> 0x40103000 \<in> set fs)) t"
  proof (rule wp_mono[OF new_address_space_ok[OF inv' singletonI]], elim conjE)
    fix root :: usize and s1 :: mmu_state
    assume n: "root = 0x40103000" "vm_inv (insert 0x40103000 {0x40100000}) (drop 4 sample_frames) s1"
      "\<forall>i < 0x200. 0 < i \<longrightarrow> mem s1 (tadd 0x40103000 i) = 0"
    have "0x40103000 \<in> private_tables (mem s1) 0x40103000"
      unfolding private_tables_def by (auto intro!: exI[of _ "[]"])
    then show "wp (free_address_space root) (\<lambda>_ s'. \<exists>fs. vm_inv {0x40100000} fs s' \<and> 0x40103000 \<in> set fs) s1"
      unfolding n(1)
      by (intro wp_mono[OF free_address_space_reclaims[OF n(2) insertI1 window_only_new[OF n(3)]]]) (auto simp: insert_Diff_if)
  qed
qed

text \<open>
  C5. In every reachable state the hardware lookup through the TLB gives what a walk of the live
  tables gives (no stale translation survives map, unmap, activate or teardown), and under every
  address space kernel addresses below the top of RAM translate to themselves.
\<close>

theorem reachable_coherent:
  assumes "vm_run U R D s"
  shows "mmu_lookup s va = hw_walk (mem s) (ttbr0_el1 s) va \<and> ttbr0_el1 s \<in> R \<and>
    (\<forall>r \<in> R. \<forall>ka < RAM_TOP. hw_walk (mem s) r ka =
       Some (if ka < RAM_BASE then DEVICE_BLOCK else ram_desc ka, ka))"
proof -
  have ok: "vm_ok R s" using vm_run_inv[OF assms] by blast
  then show ?thesis
  proof (cases rule: vm_okE)
    case (1 fs)
    then show ?thesis using mmu_lookup_walk[OF 1(2)] boot_blocks_identity[OF 1(6)] by auto
  qed
qed

lemma sample_boot_installed: "INSTALLED sample_boot = 0"
  by (simp add: sample_boot_def pool_of_def off_mmu_def)

lemma sample_run: "\<exists>t. vm_run (set sample_frames) {0x40100000} {} t \<and> init_mmu sample_boot = Inr ((), t)"
proof -
  have sf: "0x40100000 # 0x40101000 # 0x40102000 # drop 3 sample_frames = sample_frames"
    by (simp add: sample_frames_list)
  from init_mmu_vm_inv[OF sample_boot_inv] obtain t where
    t: "init_mmu sample_boot = Inr ((), t)" "KERNEL_TTBR0 t = 0x40100000"
    by (auto simp: wp_iff)
  have "frames_inv sample_frames sample_boot" using sample_boot_inv unfolding sf .
  from vm_run.boot[OF this refl sample_boot_installed t(1)] t show ?thesis by auto
qed

theorem reachable_coherent_witness:
  "\<exists>t. init_mmu sample_boot = Inr ((), t) \<and> vm_run (set sample_frames) {0x40100000} {} t \<and>
     mmu_lookup t 0x40080000 = Some (ram_desc 0x40080000, 0x40080000)"
proof -
  from sample_run obtain t where t: "vm_run (set sample_frames) {0x40100000} {} t" "init_mmu sample_boot = Inr ((), t)"
    by blast
  have "mmu_lookup t 0x40080000 = Some (ram_desc 0x40080000, 0x40080000)"
    using reachable_coherent[OF t(1), of "0x40080000"] by (simp add: RAM_TOP_def RAM_BASE_def RAM_SIZE_def)
  with t show ?thesis by blast
qed



text \<open>
  C18. After init_mmu the hardware translates each address below RAM_BASE to itself as device
  memory, each RAM address to itself as normal memory, and faults on every other address.
\<close>

theorem init_mmu_identity:
  assumes "frames_inv (l0 # l1 # l2 # fs) s"
  shows "wp init_mmu (\<lambda>_ t. ttbr0_el1 t = l0 \<and> sctlr_el1 t = sctlr_el1 s OR 0x1005 \<and>
    mair_el1 t = MAIR \<and> tcr_el1 t = TCR \<and>
    (\<forall>va. mmu_lookup t va =
      (if va < RAM_BASE then Some (DEVICE_BLOCK, va)
       else if va < RAM_TOP then Some (ram_desc va, va) else None))) s"
  using init_mmu_ok[OF assms]
proof (rule wp_mono, elim conjE)
  fix u t assume t: "boot_tables l0 l1 l2 (mem t)" "ttbr0_el1 t = l0" "tlb t = Map.empty"
    "mair_el1 t = MAIR" "tcr_el1 t = TCR" "sctlr_el1 t = sctlr_el1 s OR 0x1005"
  have l: "valid_frame l0" "valid_frame l1" "valid_frame l2" using assms by (auto simp: frames_inv_def)
  then have "l0_ptr l0 = l0" by (simp add: l0_ptr_def)
  then show "ttbr0_el1 t = l0 \<and> sctlr_el1 t = sctlr_el1 s OR 0x1005 \<and> mair_el1 t = MAIR \<and> tcr_el1 t = TCR \<and>
    (\<forall>va. mmu_lookup t va =
      (if va < RAM_BASE then Some (DEVICE_BLOCK, va)
       else if va < RAM_TOP then Some (ram_desc va, va) else None))"
    using t boot_identity_walk[OF t(1) l] by (simp add: mmu_lookup_def)
qed

theorem init_mmu_identity_witness:
  "wp init_mmu (\<lambda>_ t. mmu_lookup t 0x09000000 = Some (DEVICE_BLOCK, 0x09000000) \<and>
     mmu_lookup t 0x48000000 = None) sample_boot"
  by (rule wp_mono[OF init_mmu_identity[OF sample_boot_inv]]) (simp add: RAM_TOP_def RAM_BASE_def RAM_SIZE_def)

text \<open>
  C20. The software walk of translate agrees with the hardware walk on every page mapped at
  level 3.
\<close>

theorem translate_agrees_with_walk:
  assumes "valid_frame r" and "va < 0x1000000000000" and "is_table (leaf m r va)"
  shows "map_option snd (hw_walk m r va) = translate_in m r va"
  using assms is_table_valid[OF assms(3)] by (simp add: hw_walk_page translate_in_leaf)

theorem translate_agrees_with_walk_witness:
  "wp (k_bind init_mmu (\<lambda>_. map_page_in 0x40100000 0x8000000000 0x40109000 PAGE_USER_RX))
     (\<lambda>_ s'. map_option snd (hw_walk (mem s') 0x40100000 0x8000000000) =
        translate_in (mem s') 0x40100000 0x8000000000) sample_boot"
  unfolding wp_bind
proof (rule wp_mono[OF init_mmu_vm_inv[OF sample_boot_inv]], elim conjE)
  fix u t assume inv: "vm_inv {0x40100000} (drop 3 sample_frames) t"
  have nb: "no_block (mem t) 0x40100000 (va_path 0x8000000000)"
    by (rule private_no_block[OF inv]) (simp_all add: user_window_index)
  have room: "new_tables (mem t) 0x40100000 0x8000000000 \<le> length (drop 3 sample_frames)"
    by (rule order.trans[OF new_tables_le]) (simp add: sample_frames_list)
  have vf: "valid_frame 0x40100000" using sample_boot_inv by (simp add: frames_inv_def)
  show "wp (map_page_in 0x40100000 0x8000000000 0x40109000 PAGE_USER_RX)
     (\<lambda>_ s'. map_option snd (hw_walk (mem s') 0x40100000 0x8000000000) =
        translate_in (mem s') 0x40100000 0x8000000000) t"
    by (rule wp_mono[OF map_page_in_ok[OF inv _ nb room]], simp,
        rule translate_agrees_with_walk[OF vf], simp)
      (simp add: mapped_def leaf_update_def same_page_def is_table_def PAGE_USER_RX_def DESC_PAGE_def
        DESC_TABLE_def AP_EL0_RO_def SH_INNER_def AF_def PXN_def ADDR_MASK_def)
qed

end
