(* ===== verification/Vm_Pages.thy ===== *)
theory Vm_Pages
  imports Vm_Properties
begin

unbundle bit_operations_syntax

text \<open>
  The steps of \<open>Vm_Run\<close> packaged for the components above the memory manager (the heap,
  the program loader, process creation and teardown): \<open>vm_good U R D fs s\<close> says that the
  kernel owns the frames \<open>U\<close>, the address spaces \<open>R\<close> are well formed, \<open>D\<close> are the frames
  handed out for data and \<open>fs\<close> is the free list. Each lemma gives the total-correctness
  effect of one operation on all of these.
\<close>

definition vm_good :: "usize set \<Rightarrow> usize set \<Rightarrow> usize set \<Rightarrow> usize list \<Rightarrow> 'a mmu_state_scheme \<Rightarrow> bool" where
  "vm_good U R D fs s \<longleftrightarrow> vm_ok R s \<and> vm_owns U R D s \<and> vm_inv R fs s"

lemma vm_goodD:
  assumes "vm_good U R D fs s"
  shows "vm_ok R s" "vm_owns U R D s" "vm_inv R fs s" "frames_inv fs s" "pt_inv R (KERNEL_L1 s) (mem s)"
    and "tables R (mem s) \<union> set fs \<union> D = U" "D \<inter> tables R (mem s) = {}" "D \<inter> set fs = {}"
    and "f \<in> D \<Longrightarrow> valid_frame f" "distinct fs" "f \<in> set fs \<Longrightarrow> valid_frame f"
    and "r \<in> R \<Longrightarrow> valid_frame r" "KERNEL_TTBR0 s \<in> R" "ttbr0_el1 s \<in> R"
proof -
  show ok: "vm_ok R s" and own: "vm_owns U R D s" and inv: "vm_inv R fs s"
    using assms by (simp_all add: vm_good_def)
  show fi: "frames_inv fs s" and pt: "pt_inv R (KERNEL_L1 s) (mem s)" using inv by (simp_all add: vm_inv_def)
  note o = vm_owns_inv[OF own inv]
  show "tables R (mem s) \<union> set fs \<union> D = U" "D \<inter> tables R (mem s) = {}" "D \<inter> set fs = {}"
    "f \<in> D \<Longrightarrow> valid_frame f" using o by auto
  show "distinct fs" "f \<in> set fs \<Longrightarrow> valid_frame f" using fi by (auto simp: frames_inv_def)
  show "r \<in> R \<Longrightarrow> valid_frame r" using pt pt_inv_valid_root by auto
  show "KERNEL_TTBR0 s \<in> R" "ttbr0_el1 s \<in> R" using ok by (auto simp: vm_ok_def)
qed

text \<open>The invariant reads the fields of the memory manager only.\<close>

lemma vm_good_cong:
  assumes "mem s = mem t" "tlb s = tlb t" "ttbr0_el1 s = ttbr0_el1 t" "FRAME_ALLOCATOR s = FRAME_ALLOCATOR t"
    "KERNEL_L1 s = KERNEL_L1 t" "KERNEL_TTBR0 s = KERNEL_TTBR0 t" "INSTALLED s = INSTALLED t"
  shows "vm_good U R D fs s = vm_good U R D fs t"
  unfolding vm_good_def vm_ok_def vm_owns_def vm_inv_def frames_inv_def tlb_ok_def installed_ok_def
  by (simp only: assms)

lemma vm_good_run: "vm_run U R D s \<Longrightarrow> \<exists>fs. vm_good U R D fs s"
  using vm_run_inv[of U R D s] by (auto simp: vm_good_def vm_ok_def)

lemma good_alloc:
  assumes "vm_good U R D (f # fs) s"
  shows "alloc_frame s = Inr (Some f, pop_state f s)" and "vm_good U R (insert f D) fs (pop_state f s)"
    and "f \<notin> D" "f \<notin> tables R (mem s)" "valid_frame f" "f \<notin> set fs"
proof -
  note g = vm_goodD[OF assms]
  show run: "alloc_frame s = Inr (Some f, pop_state f s)" by (rule alloc_frame_cons[OF g(4)])
  have "vm_inv R fs (pop_state f s)"
    using alloc_frame_cons(2)[OF g(4)] g(3) by (auto simp: vm_inv_def pop_state_def)
  then show "vm_good U R (insert f D) fs (pop_state f s)"
    using vm_alloc_data[OF g(2,1) run] by (simp add: vm_good_def)
  show "f \<notin> D" "f \<notin> tables R (mem s)" "valid_frame f" "f \<notin> set fs"
    using g(3,8,10,11) by (auto simp: vm_inv_def)
qed

lemma good_alloc_wp:
  assumes "vm_good U R D fs s" "fs \<noteq> []"
    and "\<And>f gs. fs = f # gs \<Longrightarrow> vm_good U R (insert f D) gs (pop_state f s) \<Longrightarrow> f \<notin> D \<Longrightarrow>
      f \<notin> tables R (mem s) \<Longrightarrow> valid_frame f \<Longrightarrow> Q (Some f) (pop_state f s)"
  shows "wp alloc_frame Q s"
proof -
  obtain f gs where fs: "fs = f # gs" using assms(2) by (cases fs) auto
  show ?thesis
    using good_alloc[OF assms(1)[unfolded fs]] assms(3)[OF fs] by (simp add: wp_def)
qed

text \<open>A store to data frames leaves the address spaces alone.\<close>

lemma good_store:
  assumes good: "vm_good U R D fs s" and m: "\<And>a. page_of a \<notin> D \<Longrightarrow> m a = mem s a"
  shows "vm_good U R D fs (s\<lparr>mem := m\<rparr>)"
    and "r \<in> R \<Longrightarrow> leaf m r va = leaf (mem s) r va" and "tables R m = tables R (mem s)"
    and "r \<in> R \<Longrightarrow> is_path p \<Longrightarrow> tbl m r p = tbl (mem s) r p" and "same_blocks R (mem s) m"
proof -
  note g = vm_goodD[OF good]
  have same: "\<forall>u \<in> tables R (mem s). \<forall>j < 0x200. m (tadd u j) = mem s (tadd u j)"
  proof (intro ballI allI impI)
    fix u j :: usize assume u: "u \<in> tables R (mem s)" "j < 0x200"
    then have "page_of (tadd u j) = u" using vm_inv_tables[OF g(3) u(1)] by (simp add: valid_frame_aligned)
    then have "page_of (tadd u j) \<notin> D" using g(7) u by auto
    then show "m (tadd u j) = mem s (tadd u j)" by (rule m)
  qed
  note c = spaces_cong[OF g(5) same]
  show "tables R m = tables R (mem s)" "same_blocks R (mem s) m" by (rule c)+
  show "r \<in> R \<Longrightarrow> leaf m r va = leaf (mem s) r va" by (rule c)
  show "r \<in> R \<Longrightarrow> is_path p \<Longrightarrow> tbl m r p = tbl (mem s) r p" by (rule c)
  have "m f = mem s f" if "f \<in> set fs" for f
  proof -
    have "page_of f = f" using g(11)[OF that] by (simp add: valid_frame_aligned)
    then show ?thesis using m[of f] g(8) that by auto
  qed
  then have "frames_inv fs (s\<lparr>mem := m\<rparr>)" using g(4) by (intro frames_inv_mem) auto
  then have "vm_inv R fs (s\<lparr>mem := m\<rparr>)" using c(1,2) g(3) by (simp add: vm_inv_def)
  then show "vm_good U R D fs (s\<lparr>mem := m\<rparr>)"
    using vm_store[OF g(2,1) m] by (simp add: vm_good_def)
qed

lemma good_map:
  assumes good: "vm_good U R D fs s" and r: "r \<in> R" and va: "va < 0x1000000000000"
    and nb: "no_block (mem s) r (va_path va)" and room: "new_tables (mem s) r va \<le> length fs"
  shows "wp (map_page_in r va pa flags) (\<lambda>_ s'.
    (\<exists>n \<le> new_tables (mem s) r va. vm_good U R D (drop n fs) s') \<and>
    leaf_update R (mem s) r va ((pa AND ADDR_MASK) OR flags) (mem s') \<and>
    grows_on R r (va_path va) (mem s) (mem s') \<and> vm_only s s' \<and>
    (\<forall>a. page_of a \<in> D \<longrightarrow> mem s' a = mem s a)) s"
proof -
  note g = vm_goodD[OF good]
  from map_page_in_ok[OF g(3) r nb room, of pa flags] obtain s' where
    run: "map_page_in r va pa flags s = Inr ((), s')" and
    mp: "mapped R fs s r va ((pa AND ADDR_MASK) OR flags) s'" by (auto simp: wp_iff)
  from mp obtain n where n: "n \<le> new_tables (mem s) r va" "vm_step R fs s (drop n fs) s'"
    and lu: "leaf_update R (mem s) r va ((pa AND ADDR_MASK) OR flags) (mem s')"
    and gr: "grows_on R r (va_path va) (mem s) (mem s')" by (auto simp: mapped_def)
  have "vm_good U R D (drop n fs) s'"
    using vm_ok_map[OF g(1) r va run] vm_owns_step[OF g(2,3) n(2)] n(2)
    by (simp add: vm_good_def vm_step_def)
  moreover have "mem s' a = mem s a" if "page_of a \<in> D" for a
    using n(2) that g(7,8) by (auto simp: vm_step_def)
  ultimately show ?thesis
    using n lu gr run by (auto simp: wp_def vm_step_def)
qed

lemma leaf_update_tbl:
  assumes "leaf_update R m r va d m'" "r \<in> R" "d \<noteq> 0"
  shows "tbl m' r (va_path va) \<noteq> None"
proof -
  have "leaf m' r va = d" using assms by (simp add: leaf_update_def same_page_def)
  then show ?thesis using assms(3) by (auto simp: leaf_def split: option.splits)
qed

lemma good_unmap:
  assumes good: "vm_good U R D fs s" and r: "r \<in> R" and va: "va < 0x1000000000000"
  shows "wp (unmap_page_in r va) (\<lambda>_ s'. vm_good U R D fs s' \<and> leaf_update R (mem s) r va 0 (mem s') \<and>
    vm_only s s' \<and> tables R (mem s') = tables R (mem s) \<and> (\<forall>a. page_of a \<in> D \<longrightarrow> mem s' a = mem s a)) s"
proof -
  note g = vm_goodD[OF good]
  from unmap_page_in_ok[OF g(3) r, of va] obtain s' where run: "unmap_page_in r va s = Inr ((), s')"
    and st: "vm_step R fs s fs s'" and lu: "leaf_update R (mem s) r va 0 (mem s')" by (auto simp: wp_iff)
  have inv': "vm_inv R fs s'" and un: "tables R (mem s') \<union> set fs = tables R (mem s) \<union> set fs"
    using st by (auto simp: vm_step_def)
  have "vm_good U R D fs s'"
    using vm_ok_unmap[OF g(1) r va run] vm_owns_step[OF g(2,3) st] inv' by (simp add: vm_good_def)
  moreover have "tables R (mem s') = tables R (mem s)"
    using un inv' g(3) by (auto simp: vm_inv_def)
  moreover have "mem s' a = mem s a" if "page_of a \<in> D" for a
    using st that g(7,8) by (auto simp: vm_step_def)
  ultimately show ?thesis using run lu st by (auto simp: wp_def vm_step_def)
qed

lemma good_free:
  assumes good: "vm_good U R D fs s" and f: "f \<in> D"
  shows "free_frame f s = Inr ((), push_state f s)" and "vm_good U R (D - {f}) (f # fs) (push_state f s)"
    and "r \<in> R \<Longrightarrow> leaf (mem (push_state f s)) r va = leaf (mem s) r va"
    and "tables R (mem (push_state f s)) = tables R (mem s)"
    and "r \<in> R \<Longrightarrow> is_path p \<Longrightarrow> tbl (mem (push_state f s)) r p = tbl (mem s) r p"
    and "\<forall>a. page_of a \<noteq> f \<longrightarrow> mem (push_state f s) a = mem s a"
proof -
  note g = vm_goodD[OF good]
  have v: "valid_frame f" "f \<notin> set fs" using g(8,9) f by auto
  note fo = free_frame_ok[OF g(4) v]
  show run: "free_frame f s = Inr ((), push_state f s)" by (rule fo)
  have pf: "page_of f = f" using v(1) by (simp add: valid_frame_aligned)
  let ?m = "mem (push_state f s)"
  have m: "?m a = mem s a" if "page_of a \<notin> D" for a
    using that f pf by (auto simp: push_state_def)
  note c = good_store[OF good, of ?m, OF m]
  show "r \<in> R \<Longrightarrow> leaf ?m r va = leaf (mem s) r va" "tables R ?m = tables R (mem s)"
    "r \<in> R \<Longrightarrow> is_path p \<Longrightarrow> tbl ?m r p = tbl (mem s) r p" using c by auto
  show "\<forall>a. page_of a \<noteq> f \<longrightarrow> ?m a = mem s a" using pf by (auto simp: push_state_def)
  have "vm_inv R (f # fs) (push_state f s)"
    using fo(2) c(1,3) g(3,7) f vm_goodD(5)[OF c(1)] by (auto simp: vm_inv_def push_state_def)
  then show "vm_good U R (D - {f}) (f # fs) (push_state f s)"
    using vm_free_data[OF g(2,1) f run] by (simp add: vm_good_def)
qed

lemma good_switch:
  assumes good: "vm_good U R D fs s" and r: "r \<in> R"
  shows "wp (activate r) (\<lambda>_ s'. vm_good U R D fs s' \<and> ttbr0_el1 s' = r \<and> INSTALLED s' = r \<and>
    (\<exists>T. s' = s\<lparr>ttbr0_el1 := r, INSTALLED := r, tlb := T\<rparr>)) s"
proof -
  note g = vm_goodD[OF good]
  have "installed_ok s" using g(1) by (simp add: vm_ok_def)
  from activate_ok[OF this valid_frame_nonzero[OF g(12)[OF r]]] obtain s' where
    run: "activate r s = Inr ((), s')" and
    s': "s' = s\<lparr>ttbr0_el1 := r, INSTALLED := r, tlb := (if INSTALLED s = r then tlb s else Map.empty)\<rparr>"
    by (auto simp: wp_iff)
  have vi: "vm_inv R fs s'" using g(3) by (simp add: s' vm_inv_def frames_inv_def)
  have "vm_owns U R D s'"
    unfolding vm_owns_def using vi g(6-9) by (intro exI[of _ fs]) (auto simp: s')
  then have "vm_good U R D fs s'"
    using vm_ok_activate[OF g(1) r run] vi by (simp add: vm_good_def)
  moreover have "\<exists>T. s' = s\<lparr>ttbr0_el1 := r, INSTALLED := r, tlb := T\<rparr>" unfolding s' by blast
  moreover have "ttbr0_el1 s' = r" "INSTALLED s' = r" by (simp_all add: s')
  ultimately show ?thesis using run by (simp add: wp_def)
qed

lemma good_new_space:
  assumes good: "vm_good U R D (f # fs) s"
  shows "wp new_address_space (\<lambda>root s'. root = f \<and> f \<notin> R \<and> vm_good U (insert f R) D fs s' \<and> vm_only s s' \<and>
    (\<forall>r'\<in>R. \<forall>va. leaf (mem s') r' va = leaf (mem s) r' va) \<and>
    (\<forall>va. table_index va 39 \<noteq> 0 \<longrightarrow> leaf (mem s') f va = 0) \<and>
    window_only (mem s') f \<and> (\<forall>a. page_of a \<in> D \<longrightarrow> mem s' a = mem s a)) s"
proof -
  note g = vm_goodD[OF good]
  from new_address_space_ok[OF g(3,13)] obtain s' where run: "new_address_space s = Inr (f, s')" and
    n: "f \<notin> R" "vm_inv (insert f R) fs s'" "vm_only s s'"
      "\<forall>r'\<in>R. \<forall>va. leaf (mem s') r' va = leaf (mem s) r' va"
      "\<forall>va. leaf (mem s') f va = (if table_index va 39 = 0 then leaf (mem s) (KERNEL_TTBR0 s) va else 0)"
      "\<forall>i < 0x200. 0 < i \<longrightarrow> mem s' (tadd f i) = 0"
      "\<forall>a. page_of a \<notin> tables R (mem s) \<union> set (f # fs) \<longrightarrow> mem s' a = mem s a"
    by (auto simp: wp_iff)
  have "vm_good U (insert f R) D fs s'"
    using vm_ok_new[OF g(1) run] vm_owns_new[OF g(2,1) run] n(2) by (simp add: vm_good_def)
  moreover have "mem s' a = mem s a" if "page_of a \<in> D" for a
    using n(7) that g(7,8) by auto
  moreover have "\<forall>va. table_index va 39 \<noteq> 0 \<longrightarrow> leaf (mem s') f va = 0" using n(5) by simp
  ultimately show ?thesis using run n(1,3,4) window_only_new[OF n(6)] by (simp add: wp_def)
qed

lemma good_free_space:
  assumes good: "vm_good U R D fs s" and r: "r \<in> R" "r \<noteq> KERNEL_TTBR0 s" "r \<noteq> ttbr0_el1 s" "window_only (mem s) r"
  shows "wp (free_address_space r) (\<lambda>_ s'. \<exists>gs. vm_good U (R - {r}) D (gs @ fs) s' \<and> vm_only s s' \<and>
    set gs = private_tables (mem s) r \<and>
    (\<forall>r' \<in> R - {r}. \<forall>va. leaf (mem s') r' va = leaf (mem s) r' va) \<and>
    (\<forall>r' \<in> R - {r}. \<forall>i < 0x200. mem s' (tadd r' i) = mem s (tadd r' i)) \<and>
    (\<forall>a. page_of a \<in> D \<longrightarrow> mem s' a = mem s a)) s"
proof -
  note g = vm_goodD[OF good]
  from free_address_space_ok[OF g(3) r(1,4)] obtain s' gs where run: "free_address_space r s = Inr ((), s')" and
    n: "vm_inv (R - {r}) (gs @ fs) s'" "frees (private_tables (mem s) r) fs s s'"
      "set gs = private_tables (mem s) r"
      "\<forall>r' \<in> R - {r}. \<forall>va. leaf (mem s') r' va = leaf (mem s) r' va"
    by (auto simp: wp_iff)
  have sub: "private_tables (mem s) r \<subseteq> tables R (mem s)" by (rule private_tables_subset[OF r(1)])
  have keep: "mem s' a = mem s a" if "page_of a \<notin> private_tables (mem s) r" for a
  proof -
    have "a \<notin> private_tables (mem s) r"
      using that sub vm_inv_tables[OF g(3)] valid_frame_aligned page_of_aligned by (metis subsetD)
    then show ?thesis using n(2) by (simp add: frees_def)
  qed
  have "vm_good U (R - {r}) D (gs @ fs) s'"
    using vm_ok_free[OF g(1) r run] vm_owns_free[OF g(2,1) r(1,2,4) run] n(1) by (simp add: vm_good_def)
  moreover have "mem s' a = mem s a" if "page_of a \<in> D" for a
    using keep[of a] that sub g(7) by auto
  moreover have "mem s' (tadd r' i) = mem s (tadd r' i)" if "r' \<in> R - {r}" "i < 0x200" for r' i
  proof (rule keep)
    have "page_of (tadd r' i) = r'" using g(12)[of r'] that by (simp add: valid_frame_aligned)
    moreover have "r' \<notin> private_tables (mem s) r"
      using private_disjoint[OF g(5) r(1)] that tablesI[of r' "R - {r}" "[]" "mem s" r'] by (auto simp: is_path_def)
    ultimately show "page_of (tadd r' i) \<notin> private_tables (mem s) r" by simp
  qed
  ultimately show ?thesis using run n(2-4) by (auto simp: wp_def frees_def)
qed

lemma window_only_grows:
  assumes gr: "grows_on R r (va_path va) m m'" and r': "r' \<in> R" and w: "window_only m r'"
    and va: "table_index va 39 = 0 \<or> table_index va 39 = USER_L0_IDX"
  shows "window_only m' r'"
  unfolding window_only_tbl
proof (intro allI impI)
  fix i :: usize assume i: "i < 0x200" "i \<noteq> 0" "i \<noteq> USER_L0_IDX"
  have p: "is_path [i]" using i by (simp add: is_path_def)
  have no: "\<not> (\<exists>rest. va_path va = [i] @ rest)" using i va by (auto simp: va_path_def)
  have none: "tbl m r' [i] = None" using w i unfolding window_only_tbl by blast
  have "tbl m' r' [i] \<noteq> Some u" for u using p r' no none gr unfolding grows_on_def by fastforce
  then show "tbl m' r' [i] = None" by (cases "tbl m' r' [i]") auto
qed

end
