(* ===== verification/Heap.thy ===== *)
theory Heap
  imports Vm_Pages
begin

unbundle bit_operations_syntax

text \<open>
  The kernel heap of \<^verbatim>\<open>kernel/src/allocator.rs\<close>: a bump allocator over a window of
  virtual memory that \<open>init_heap\<close> maps onto frames. The allocations of a run are kept
  apart by \<open>heap_inv\<close>; the window is shown to be mapped, page by page, onto frames of its
  own in every address space.
\<close>

section \<open>The allocator\<close>

definition HEAP_VBASE :: usize where
  "HEAP_VBASE = 0x100000000"

definition HEAP_SIZE :: usize where
  "HEAP_SIZE = 2 * 1024 * 1024"

record BumpAllocator =
  heap_start :: usize
  heap_end :: usize
  bump_next :: usize
  allocations :: usize

definition BumpAllocator_new :: BumpAllocator where
  "BumpAllocator_new = \<lparr>heap_start = 0, heap_end = 0, bump_next = 0, allocations = 0\<rparr>"

record heap_state = mmu_state +
  ALLOCATOR :: BumpAllocator

definition BumpAllocator_init :: "usize \<Rightarrow> usize \<Rightarrow> ('a heap_state_scheme, unit) kfn" where
  "BumpAllocator_init start sz =
     k_bind (k_add start sz) (\<lambda>limit.
     k_modify (\<lambda>s. s\<lparr>ALLOCATOR := \<lparr>heap_start = start, heap_end = limit, bump_next = start,
       allocations = 0\<rparr>\<rparr>))"

text \<open>The loop of \<^verbatim>\<open>init_heap\<close>, one page of the window per iteration.\<close>

function init_heap_loop :: "usize \<Rightarrow> ('a heap_state_scheme, unit) kfn" where
  "init_heap_loop off =
     (if off < HEAP_SIZE then
        k_bind alloc_frame (\<lambda>r.
        k_bind (k_expect ''out of frames while mapping the heap'' r) (\<lambda>frame.
        k_bind (map_page (HEAP_VBASE + off) frame PAGE_KERNEL_RW) (\<lambda>_.
        init_heap_loop (off + FRAME_SIZE))))
      else k_return ())"
  by pat_completeness auto
termination
  by (relation "measure (\<lambda>off. unat HEAP_SIZE - unat off)")
    (auto simp: HEAP_SIZE_def FRAME_SIZE_def word_less_nat_alt unat_word_ariths)

declare init_heap_loop.simps [simp del]

definition init_heap :: "('a heap_state_scheme, unit) kfn" where
  "init_heap = k_bind (init_heap_loop 0) (\<lambda>_. BumpAllocator_init HEAP_VBASE HEAP_SIZE)"

definition heap_align_up :: "usize \<Rightarrow> usize \<Rightarrow> ('a heap_state_scheme, usize) kfn" where
  "heap_align_up addr align =
     k_bind (k_add addr align) (\<lambda>a. k_return ((a - 1) AND NOT (align - 1)))"

text \<open>\<open>None\<close> is the null pointer; \<open>sz\<close> and \<open>align\<close> are the fields of the \<^verbatim>\<open>Layout\<close>.\<close>

definition heap_alloc :: "usize \<Rightarrow> usize \<Rightarrow> ('a heap_state_scheme, usize option) kfn" where
  "heap_alloc sz align =
     k_bind (k_gets ALLOCATOR) (\<lambda>bump.
     k_bind (heap_align_up (bump_next bump) align) (\<lambda>alloc_start.
     case checked_add alloc_start sz of
       None \<Rightarrow> k_return None
     | Some alloc_end \<Rightarrow>
         if alloc_end > heap_end bump then k_return None
         else
           k_bind (k_add (allocations bump) 1) (\<lambda>n.
           k_bind (k_modify (\<lambda>s. s\<lparr>ALLOCATOR := bump\<lparr>bump_next := alloc_end, allocations := n\<rparr>\<rparr>)) (\<lambda>_.
           k_return (Some alloc_start)))))"

definition heap_dealloc :: "('a heap_state_scheme, unit) kfn" where
  "heap_dealloc =
     k_bind (k_gets ALLOCATOR) (\<lambda>bump.
     k_bind (k_sub (allocations bump) 1) (\<lambda>n.
     k_modify (\<lambda>s. s\<lparr>ALLOCATOR := bump\<lparr>allocations := n,
       bump_next := (if n = 0 then heap_start bump else bump_next bump)\<rparr>\<rparr>)))"

section \<open>Allocations are aligned, inside the window and apart\<close>

lemma unat_pow2: "unat (2 ^ k :: usize) = 2 ^ k" if "k < 64"
proof -
  have "(2 :: nat) ^ k < 2 ^ 64" using that by (intro power_strict_increasing) auto
  then have "unat (of_nat (2 ^ k) :: usize) = 2 ^ k" unfolding unat_of_nat by simp
  then show ?thesis by simp
qed

lemma unat_and_not_pow2:
  assumes "k < 64" shows "unat ((x :: u64) AND NOT (2 ^ k - 1)) = unat x - unat x mod 2 ^ k"
proof -
  have m: "(2 ^ k - 1 :: u64) = mask k" by (simp add: mask_eq_exp_minus_1)
  have "unat (x AND mask k) = unat x mod 2 ^ k"
    by (simp only: take_bit_eq_mask [symmetric] unsigned_take_bit_eq) (simp add: take_bit_eq_mod)
  moreover have "x AND mask k \<le> x" by (rule word_and_le2)
  ultimately show ?thesis by (simp only: m and_not_mask_minus unat_sub)
qed

lemma heap_align_up_ok:
  assumes k: "k < 63" and a: "unat a + 2 ^ k < 2 ^ 64"
  obtains r where "heap_align_up a (2 ^ k) s = Inr (r, s)" "unat r mod 2 ^ k = 0"
    "unat a \<le> unat r" "unat r < unat a + 2 ^ k"
proof -
  let ?r = "(a + 2 ^ k - 1) AND NOT (2 ^ k - 1)"
  have p: "unat (2 ^ k :: usize) = 2 ^ k" using k by (simp add: unat_pow2)
  have s: "unat (a + 2 ^ k) = unat a + 2 ^ k" using a p by (simp add: unat_word_ariths)
  have "0 < (2 :: nat) ^ k" by simp
  then have "1 \<le> a + 2 ^ k" unfolding word_le_nat_alt s unat_1 by linarith
  then have x: "unat (a + 2 ^ k - 1) = unat a + 2 ^ k - 1" using s by (simp add: unat_sub)
  have r: "unat ?r = unat a + 2 ^ k - 1 - (unat a + 2 ^ k - 1) mod 2 ^ k"
    using k by (simp add: unat_and_not_pow2 x)
  have "(unat a + 2 ^ k - 1) mod 2 ^ k < 2 ^ k" by simp
  then have "unat a \<le> unat ?r" "unat ?r < unat a + 2 ^ k" unfolding r by linarith+
  moreover have "unat ?r mod 2 ^ k = 0" unfolding r by (simp add: minus_mod_eq_mult_div)
  moreover have "heap_align_up a (2 ^ k) s = Inr (?r, s)"
    using a p by (simp add: heap_align_up_def run_simps)
  ultimately show thesis by (intro that[of ?r])
qed

text \<open>
  A live allocation is its address, size and alignment, the newest first. The blocks lie
  one above the other from the start of the window up to \<open>bump_next\<close>.
\<close>

type_synonym block = "usize \<times> usize \<times> usize"

fun block_above :: "block \<Rightarrow> block \<Rightarrow> bool" where
  "block_above (p, n, al) (q, k, bl) \<longleftrightarrow> unat q + unat k \<le> unat p"

fun in_window :: "BumpAllocator \<Rightarrow> block \<Rightarrow> bool" where
  "in_window b (p, n, al) \<longleftrightarrow> n \<noteq> 0 \<and> unat p mod unat al = 0 \<and> heap_start b \<le> p \<and>
     unat p + unat n \<le> unat (bump_next b)"

definition heap_inv :: "block list \<Rightarrow> BumpAllocator \<Rightarrow> bool" where
  "heap_inv live b \<longleftrightarrow> heap_start b = HEAP_VBASE \<and> heap_end b = HEAP_VBASE + HEAP_SIZE \<and>
     unat (heap_start b) + length live \<le> unat (bump_next b) \<and> bump_next b \<le> heap_end b \<and>
     unat (allocations b) = length live \<and> (live = [] \<longrightarrow> bump_next b = heap_start b) \<and>
     (\<forall>x \<in> set live. in_window b x) \<and> sorted_wrt block_above live"

lemma heap_bounds: "unat HEAP_VBASE = 0x100000000" "unat (HEAP_VBASE + HEAP_SIZE) = 0x100200000"
  by (simp_all add: HEAP_VBASE_def HEAP_SIZE_def)

lemma heap_init_ok:
  "wp (BumpAllocator_init HEAP_VBASE HEAP_SIZE) (\<lambda>_ s'. heap_inv [] (ALLOCATOR s') \<and>
     (\<exists>b. s' = s\<lparr>ALLOCATOR := b\<rparr>)) s"
  by (auto simp: BumpAllocator_init_def wp_rules heap_inv_def HEAP_VBASE_def HEAP_SIZE_def)

lemma heap_alloc_ok:
  assumes inv: "heap_inv live (ALLOCATOR s)" and n: "n \<noteq> 0" and k: "k < 63"
  shows "wp (heap_alloc n (2 ^ k)) (\<lambda>r s'. (\<exists>b. s' = s\<lparr>ALLOCATOR := b\<rparr>) \<and> (case r of
      Some p \<Rightarrow> heap_inv ((p, n, 2 ^ k) # live) (ALLOCATOR s')
    | None \<Rightarrow> s' = s \<and>
        unat (heap_end (ALLOCATOR s)) < unat (bump_next (ALLOCATOR s)) + 2 ^ k + unat n)) s"
proof -
  let ?b = "ALLOCATOR s"
  have nx: "unat (bump_next ?b) \<le> 0x100200000" and st: "0x100000000 + length live \<le> unat (bump_next ?b)"
    and e: "unat (heap_end ?b) = 0x100200000" and al: "unat (allocations ?b) = length live"
    using inv heap_bounds by (auto simp: heap_inv_def word_le_nat_alt)
  have "(2::nat) ^ k \<le> 2 ^ 62" using k by (intro power_increasing) auto
  then have "unat (bump_next ?b) + 2 ^ k < 2 ^ 64" using nx by simp
  then obtain r where r: "heap_align_up (bump_next ?b) (2 ^ k) s = Inr (r, s)" "unat r mod 2 ^ k = 0"
    "unat (bump_next ?b) \<le> unat r" "unat r < unat (bump_next ?b) + 2 ^ k"
    using heap_align_up_ok[OF k] by metis
  show ?thesis
  proof (cases "unat r + unat n \<le> 0x100200000")
    case True
    then have c: "checked_add r n = Some (r + n)" "unat (r + n) = unat r + unat n" 
      by (auto simp: checked_add_def unat_word_ariths)
    have le: "\<not> heap_end ?b < r + n" using True c e by (simp add: word_less_nat_alt)
    have add: "unat (allocations ?b + 1) = Suc (length live)" "unat (allocations ?b) + unat (1 :: usize) < 2 ^ 64"
      using st nx al by (auto simp: unat_word_ariths)
    have n0: "0 < unat n" using n by (simp add: unat_gt_0)
    let ?c = "?b\<lparr>bump_next := r + n, allocations := allocations ?b + 1\<rparr>"
    have win: "in_window ?c (q, m, bl)" if "(q, m, bl) \<in> set live" for q m bl
      using inv that r c by (fastforce simp: heap_inv_def)
    have ab: "block_above (r, n, 2 ^ k) (q, m, bl)" if "(q, m, bl) \<in> set live" for q m bl
      using inv that r by (fastforce simp: heap_inv_def)
    have "heap_start ?b \<le> r" using inv r st heap_bounds by (simp add: heap_inv_def word_le_nat_alt)
    then have "in_window ?c (r, n, 2 ^ k)" using n c k r by (simp add: unat_pow2)
    then have "heap_inv ((r, n, 2 ^ k) # live) ?c"
      using inv win ab c add True st r n0 e unfolding heap_inv_def
      by (auto simp: word_le_nat_alt simp del: in_window.simps block_above.simps)
    then show ?thesis
      using r c le add by (auto simp: wp_def heap_alloc_def run_simps)
  next
    case False
    then have "heap_alloc n (2 ^ k) s = Inr (None, s)"
      using r e by (auto simp: heap_alloc_def run_simps checked_add_def word_less_nat_alt unat_word_ariths)
    then show ?thesis using False r e by (simp add: wp_def) (metis heap_state.surjective heap_state.update_convs(1))
  qed
qed

lemma heap_dealloc_ok:
  assumes inv: "heap_inv (xs @ x # ys) (ALLOCATOR s)"
  shows "wp heap_dealloc (\<lambda>_ s'. heap_inv (xs @ ys) (ALLOCATOR s') \<and> (\<exists>b. s' = s\<lparr>ALLOCATOR := b\<rparr>)) s"
proof -
  let ?b = "ALLOCATOR s"
  have al: "unat (allocations ?b) = Suc (length (xs @ ys))" using inv by (simp add: heap_inv_def)
  then have ge: "1 \<le> allocations ?b" and sub: "unat (allocations ?b - 1) = length (xs @ ys)"
    by (auto simp: word_le_nat_alt unat_sub)
  have z: "allocations ?b - 1 = 0 \<longleftrightarrow> xs @ ys = []"
    unfolding word_unat_eq_iff sub by simp
  have win: "in_window (?b\<lparr>allocations := a\<rparr>) y \<longleftrightarrow> in_window ?b y" for a y by (cases y) simp
  have "heap_inv (xs @ ys) (?b\<lparr>allocations := allocations ?b - 1,
      bump_next := (if allocations ?b - 1 = 0 then heap_start ?b else bump_next ?b)\<rparr>)"
  proof (cases "xs @ ys = []")
    case True
    then show ?thesis using z inv sub by (simp add: heap_inv_def word_le_nat_alt heap_bounds)
  next
    case False
    then show ?thesis using z inv sub unfolding heap_inv_def by (auto simp: win sorted_wrt_append)
  qed
  then show ?thesis using ge by (auto simp: heap_dealloc_def wp_rules)
qed

text \<open>
  Every sequence of allocations and deallocations after \<^verbatim>\<open>init\<close>. The contract of
  \<^verbatim>\<open>GlobalAlloc\<close> gives a nonzero size and a power of two as alignment, and only live
  blocks are deallocated.
\<close>

inductive heap_run :: "block list \<Rightarrow> 'a heap_state_scheme \<Rightarrow> bool" where
  init: "BumpAllocator_init HEAP_VBASE HEAP_SIZE s = Inr ((), t) \<Longrightarrow> heap_run [] t"
| alloc: "heap_run live s \<Longrightarrow> n \<noteq> 0 \<Longrightarrow> k < 63 \<Longrightarrow> heap_alloc n (2 ^ k) s = Inr (Some p, t) \<Longrightarrow>
    heap_run ((p, n, 2 ^ k) # live) t"
| exhausted: "heap_run live s \<Longrightarrow> n \<noteq> 0 \<Longrightarrow> k < 63 \<Longrightarrow> heap_alloc n (2 ^ k) s = Inr (None, t) \<Longrightarrow>
    heap_run live t"
| dealloc: "heap_run (xs @ x # ys) s \<Longrightarrow> heap_dealloc s = Inr ((), t) \<Longrightarrow> heap_run (xs @ ys) t"

lemma heap_run_inv: "heap_run live s \<Longrightarrow> heap_inv live (ALLOCATOR s)"
proof (induction rule: heap_run.induct)
  case (init s t)
  then show ?case using heap_init_ok[of s] by (simp add: wp_def)
next
  case (alloc live s n k p t)
  then show ?case using heap_alloc_ok[of live s n k] by (simp add: wp_def)
next
  case (exhausted live s n k t)
  then show ?case using heap_alloc_ok[of live s n k] by (simp add: wp_def)
next
  case (dealloc xs x ys s t)
  then show ?case using heap_dealloc_ok[of xs x ys s] by (simp add: wp_def)
qed

lemma heap_inv_apart:
  assumes "heap_inv live b" "i < j" "j < length live" "live ! i = (p, n, al)" "live ! j = (q, k, bl)"
  shows "unat q + unat k \<le> unat p"
proof -
  have "block_above (live ! i) (live ! j)"
    using assms(1-3) by (auto simp: heap_inv_def intro: sorted_wrt_nth_less)
  then show ?thesis using assms(4,5) by simp
qed

text \<open>
  C25. After any sequence of allocations and deallocations the live allocations lie inside the
  heap window, have the alignment they asked for and do not overlap; when all are freed the
  window is whole again.
\<close>

theorem heap_allocations_disjoint:
  assumes "heap_run live s"
  shows "(\<forall>(p, n, al) \<in> set live. unat p mod unat al = 0 \<and> unat HEAP_VBASE \<le> unat p \<and>
      unat p + unat n \<le> unat HEAP_VBASE + unat HEAP_SIZE) \<and>
    (\<forall>i j p n al q k bl. i < length live \<longrightarrow> j < length live \<longrightarrow> i \<noteq> j \<longrightarrow> live ! i = (p, n, al) \<longrightarrow>
      live ! j = (q, k, bl) \<longrightarrow> unat p + unat n \<le> unat q \<or> unat q + unat k \<le> unat p) \<and>
    (live = [] \<longrightarrow> bump_next (ALLOCATOR s) = HEAP_VBASE)"
proof (intro conjI)
  note inv = heap_run_inv[OF assms]
  have hs: "unat HEAP_VBASE + unat HEAP_SIZE = 0x100200000" by (simp add: HEAP_VBASE_def HEAP_SIZE_def)
  show "\<forall>(p, n, al) \<in> set live. unat p mod unat al = 0 \<and> unat HEAP_VBASE \<le> unat p \<and>
      unat p + unat n \<le> unat HEAP_VBASE + unat HEAP_SIZE"
    unfolding hs using inv heap_bounds by (fastforce simp: heap_inv_def word_le_nat_alt)
  show "\<forall>i j p n al q k bl. i < length live \<longrightarrow> j < length live \<longrightarrow> i \<noteq> j \<longrightarrow> live ! i = (p, n, al) \<longrightarrow>
      live ! j = (q, k, bl) \<longrightarrow> unat p + unat n \<le> unat q \<or> unat q + unat k \<le> unat p"
    using heap_inv_apart[OF inv] by (metis linorder_neqE_nat)
  show "live = [] \<longrightarrow> bump_next (ALLOCATOR s) = HEAP_VBASE"
    using inv by (simp add: heap_inv_def)
qed

text \<open>
  The allocator never panics on such a run, and returns null only when the rest of the
  window cannot hold the request at its alignment.
\<close>


section \<open>The window is mapped\<close>

declare tbl.simps [simp del]

definition heap_page :: "nat \<Rightarrow> usize" where
  "heap_page i = HEAP_VBASE + 4096 * of_nat i"

lemma unat_heap_page: "i < 512 \<Longrightarrow> unat (heap_page i) = 0x100000000 + 4096 * i"
  by (simp add: heap_page_def HEAP_VBASE_def unat_word_ariths unat_of_nat)

lemma heap_page_index:
  assumes "i < 512"
  shows "table_index (heap_page i) 39 = 0" "table_index (heap_page i) 30 = 4"
    "table_index (heap_page i) 21 = 0" "unat (table_index (heap_page i) 12) = i"
proof -
  have "(0x100000000 + 4096 * i) div 2 ^ 21 = 2048"
    by (rule div_nat_eqI) (use assms in simp_all)
  moreover have "(0x100000000 + 4096 * i) div 2 ^ 12 = i + 2048 * 512" by simp
  ultimately show "table_index (heap_page i) 39 = 0" "table_index (heap_page i) 30 = 4"
    "table_index (heap_page i) 21 = 0" "unat (table_index (heap_page i) 12) = i"
    unfolding word_unat_eq_iff unat_table_index unat_heap_page[OF assms]
    using assms by (simp_all only: mod_mult_self1) simp_all
qed

lemma heap_page_path: "i < 512 \<Longrightarrow> va_path (heap_page i) = [0, 4, 0]"
  by (simp add: va_path_def heap_page_index)

lemma heap_page_same: "i < 512 \<Longrightarrow> j < 512 \<Longrightarrow> same_page (heap_page i) (heap_page j) \<longleftrightarrow> i = j"
  by (auto simp: same_page_def heap_page_path dest: arg_cong[where f = unat] simp: heap_page_index)

lemma heap_page_canonical: "i < 512 \<Longrightarrow> heap_page i < 0x1000000000000"
  by (simp add: word_less_nat_alt unat_heap_page)

lemma tbl_no_block: "tbl m r p \<noteq> None \<Longrightarrow> no_block m r p"
  unfolding no_block_def by (auto simp: tbl_append tbl.simps split: option.splits if_splits)

text \<open>The first \<open>k\<close> pages are mapped, onto the frames \<open>hs\<close>; at most three went into tables.\<close>

definition heap_mapped :: "usize set \<Rightarrow> usize set \<Rightarrow> usize set \<Rightarrow> usize list \<Rightarrow> 'a mmu_state_scheme \<Rightarrow>
    usize list \<Rightarrow> 'a mmu_state_scheme \<Rightarrow> bool" where
  "heap_mapped U R D fs s0 hs s \<longleftrightarrow>
     (\<exists>n \<le> 3. vm_good U R (D \<union> set hs) (drop (length hs + n) fs) s \<and> (hs = [] \<longrightarrow> n = 0)) \<and>
     distinct hs \<and> D \<inter> set hs = {} \<and> ttbr0_el1 s = ttbr0_el1 s0 \<and>
     (\<forall>r \<in> R. \<forall>i < length hs. leaf (mem s) r (heap_page i) = hs ! i OR PAGE_KERNEL_RW) \<and>
     (\<forall>r \<in> R. \<forall>va. (\<forall>i < length hs. \<not> same_page va (heap_page i)) \<longrightarrow> leaf (mem s) r va = leaf (mem s0) r va)"

lemma page_kernel_rw_nonzero: "PAGE_KERNEL_RW \<noteq> 0"
  by (simp add: PAGE_KERNEL_RW_def DESC_PAGE_def SH_INNER_def AF_def UXN_def PXN_def)

lemma heap_mapped_step:
  assumes hm: "heap_mapped U R D fs s0 hs s" and k: "length hs < 512" and room: "515 \<le> length fs"
    and nb: "no_block (mem s0) (ttbr0_el1 s0) [0, 4, 0]" and s0: "hs = [] \<Longrightarrow> s = s0"
  shows "wp (k_bind alloc_frame (\<lambda>r.
        k_bind (k_expect ''out of frames while mapping the heap'' r) (\<lambda>frame.
        map_page (heap_page (length hs)) frame PAGE_KERNEL_RW)))
     (\<lambda>_ s'. \<exists>f. heap_mapped U R D fs s0 (hs @ [f]) s') s"
proof -
  let ?k = "length hs" and ?r = "ttbr0_el1 s0"
  from hm obtain n where n: "n \<le> 3" "vm_good U R (D \<union> set hs) (drop (?k + n) fs) s" "hs = [] \<longrightarrow> n = 0"
    and d: "distinct hs" "D \<inter> set hs = {}" "ttbr0_el1 s = ?r"
    and l1: "\<forall>r \<in> R. \<forall>i < ?k. leaf (mem s) r (heap_page i) = hs ! i OR PAGE_KERNEL_RW"
    and l2: "\<forall>r \<in> R. \<forall>va. (\<forall>i < ?k. \<not> same_page va (heap_page i)) \<longrightarrow> leaf (mem s) r va = leaf (mem s0) r va"
    by (auto simp: heap_mapped_def)
  note g = vm_goodD[OF n(2)]
  have r: "?r \<in> R" "l0_ptr ?r = ?r" using g(12,14) d(3) by (auto simp: l0_ptr_def)
  show ?thesis
    unfolding wp_bind[of alloc_frame]
  proof (rule good_alloc_wp[OF n(2)])
    show "drop (?k + n) fs \<noteq> []" using n k room by simp
    fix f gs assume fs: "drop (?k + n) fs = f # gs" and
      g1: "vm_good U R (insert f (D \<union> set hs)) gs (pop_state f s)" and
      f: "f \<notin> D \<union> set hs" "f \<notin> tables R (mem s)" "valid_frame f"
    let ?s1 = "pop_state f s"
    have m1: "mem ?s1 = mem s" "ttbr0_el1 ?s1 = ?r" using d(3) by (simp_all add: pop_state_def)
    have gs: "gs = drop (Suc (?k + n)) fs" using fs by (metis drop_Suc list.sel(3) tl_drop)
    have path: "va_path (heap_page ?k) = [0, 4, 0]" using k by (rule heap_page_path)
    have tb: "hs \<noteq> [] \<Longrightarrow> tbl (mem s) ?r [0, 4, 0] \<noteq> None"
    proof -
      assume "hs \<noteq> []"
      then have "leaf (mem s) ?r (heap_page 0) = hs ! 0 OR PAGE_KERNEL_RW" using l1 r by auto
      then have "leaf (mem s) ?r (heap_page 0) \<noteq> 0" by (simp add: or_eq_0_iff page_kernel_rw_nonzero)
      then show ?thesis by (auto simp: leaf_def heap_page_path simp del: tbl.simps split: option.splits)
    qed
    have nb1: "no_block (mem ?s1) ?r (va_path (heap_page ?k))"
      using nb s0 tb tbl_no_block path m1 by (cases "hs = []") auto
    have nt: "new_tables (mem ?s1) ?r (heap_page ?k) \<le> (if hs = [] then 3 else 0)"
      using tb path m1 by (cases "hs = []") (auto simp: new_tables_def)
    then have room1: "new_tables (mem ?s1) ?r (heap_page ?k) \<le> length gs"
      using room n k gs by (auto split: if_splits)
    note mp = good_map[OF g1 r(1) heap_page_canonical[OF k] nb1 room1, of f PAGE_KERNEL_RW]
    show "wp (k_bind (k_expect ''out of frames while mapping the heap'' (Some f)) (\<lambda>frame.
        map_page (heap_page ?k) frame PAGE_KERNEL_RW)) (\<lambda>_ s'. \<exists>f. heap_mapped U R D fs s0 (hs @ [f]) s') ?s1"
      unfolding k_expect_def option.case wp_bind wp_return map_page_def live_l0_def current_ttbr0_def wp_gets m1(2) r(2)
    proof (rule wp_mono[OF mp], elim conjE exE)
      fix u s2 n1 assume n1: "n1 \<le> new_tables (mem ?s1) ?r (heap_page ?k)"
        and g2: "vm_good U R (insert f (D \<union> set hs)) (drop n1 gs) s2" and vo: "vm_only ?s1 s2"
        and lu: "leaf_update R (mem ?s1) ?r (heap_page ?k) ((f AND ADDR_MASK) OR PAGE_KERNEL_RW) (mem s2)"
      have lf: "leaf (mem s2) r' va = (if same_page va (heap_page ?k) then f OR PAGE_KERNEL_RW else leaf (mem s) r' va)"
        if "r' \<in> R" for r' va
        using lu that f(3) heap_page_index(1)[OF k] m1(1) by (simp add: leaf_update_def)
      have "heap_mapped U R D fs s0 (hs @ [f]) s2"
        unfolding heap_mapped_def
      proof (intro conjI)
        have "n + n1 \<le> 3" "vm_good U R (D \<union> set (hs @ [f])) (drop (length (hs @ [f]) + (n + n1)) fs) s2"
          using n n1 nt g2 gs by (auto split: if_splits simp: add.commute add.left_commute)
        then show "\<exists>n \<le> 3. vm_good U R (D \<union> set (hs @ [f])) (drop (length (hs @ [f]) + n) fs) s2 \<and>
            (hs @ [f] = [] \<longrightarrow> n = 0)" by blast
        show "ttbr0_el1 s2 = ?r" using vm_only_ttbr0[OF vo] m1 by simp
        show "\<forall>r' \<in> R. \<forall>i < length (hs @ [f]). leaf (mem s2) r' (heap_page i) = (hs @ [f]) ! i OR PAGE_KERNEL_RW"
          using k l1 lf by (auto simp: heap_page_same nth_append less_Suc_eq)
        show "\<forall>r' \<in> R. \<forall>va. (\<forall>i < length (hs @ [f]). \<not> same_page va (heap_page i)) \<longrightarrow>
            leaf (mem s2) r' va = leaf (mem s0) r' va"
          using l2 lf by (auto simp: less_Suc_eq)
      qed (use d f in auto)
      then show "\<exists>f. heap_mapped U R D fs s0 (hs @ [f]) s2" by blast
    qed
  qed
qed


lemma init_heap_loop_ok:
  assumes "heap_mapped U R D fs s0 hs s" "length hs \<le> 512" and room: "515 \<le> length fs"
    and nb: "no_block (mem s0) (ttbr0_el1 s0) [0, 4, 0]" and "hs = [] \<Longrightarrow> s = s0"
  shows "wp (init_heap_loop (4096 * of_nat (length hs)))
    (\<lambda>_ s'. \<exists>hs. length hs = 512 \<and> heap_mapped U R D fs s0 hs s') s"
  using assms(1,2,5)
proof (induction "512 - length hs" arbitrary: hs s)
  case 0
  then have k: "length hs = 512" by simp
  show ?case
    by (subst init_heap_loop.simps) (use 0 k in \<open>auto simp: HEAP_SIZE_def wp_rules\<close>)
next
  case (Suc n)
  let ?off = "4096 * of_nat (length hs) :: usize"
  let ?step = "k_bind alloc_frame (\<lambda>r.
        k_bind (k_expect ''out of frames while mapping the heap'' r) (\<lambda>frame.
        map_page (heap_page (length hs)) frame PAGE_KERNEL_RW))"
  have k: "length hs < 512" using Suc.hyps(2) by simp
  have off: "?off < HEAP_SIZE" "HEAP_VBASE + ?off = heap_page (length hs)"
    using k by (simp_all add: word_less_nat_alt unat_word_ariths unat_of_nat HEAP_SIZE_def heap_page_def)
  have eq: "init_heap_loop ?off = k_bind ?step (\<lambda>_. init_heap_loop (?off + FRAME_SIZE))"
    by (subst init_heap_loop.simps) (simp add: off k_bind_assoc)
  have step: "wp ?step (\<lambda>_ s'. \<exists>f. heap_mapped U R D fs s0 (hs @ [f]) s') s"
    by (rule heap_mapped_step[OF Suc.prems(1) k room nb Suc.prems(3)])
  show ?case
    unfolding eq wp_bind[of ?step]
  proof (rule wp_mono[OF step])
    fix u s' assume "\<exists>f. heap_mapped U R D fs s0 (hs @ [f]) s'"
    then obtain f where f: "heap_mapped U R D fs s0 (hs @ [f]) s'" by blast
    have off': "?off + FRAME_SIZE = 4096 * of_nat (length (hs @ [f]))" by (simp add: FRAME_SIZE_def algebra_simps)
    show "wp (init_heap_loop (?off + FRAME_SIZE)) (\<lambda>_ s'. \<exists>hs. length hs = 512 \<and> heap_mapped U R D fs s0 hs s') s'"
      unfolding off' by (rule Suc.hyps(1)[OF _ f]) (use Suc.hyps(2) k in simp_all)
  qed
qed

lemma init_heap_ok:
  assumes good: "vm_good U R D fs s" and room: "515 \<le> length fs"
    and nb: "no_block (mem s) (ttbr0_el1 s) [0, 4, 0]"
  shows "wp init_heap (\<lambda>_ s'. heap_inv [] (ALLOCATOR s') \<and>
    (\<exists>hs t. length hs = 512 \<and> heap_mapped U R D fs s hs t \<and> s' = t\<lparr>ALLOCATOR := ALLOCATOR s'\<rparr>)) s"
proof -
  have "heap_mapped U R D fs s [] s" using good by (simp add: heap_mapped_def)
  from init_heap_loop_ok[OF this _ room nb]
  have "wp (init_heap_loop 0) (\<lambda>_ s'. \<exists>hs. length hs = 512 \<and> heap_mapped U R D fs s hs s') s" by simp
  then show ?thesis
    unfolding init_heap_def wp_bind
  proof (rule wp_mono)
    fix u s1 assume "\<exists>hs. length hs = 512 \<and> heap_mapped U R D fs s hs s1"
    then show "wp (BumpAllocator_init HEAP_VBASE HEAP_SIZE) (\<lambda>_ s'. heap_inv [] (ALLOCATOR s') \<and>
        (\<exists>hs t. length hs = 512 \<and> heap_mapped U R D fs s hs t \<and> s' = t\<lparr>ALLOCATOR := ALLOCATOR s'\<rparr>)) s1"
      by (intro wp_mono[OF heap_init_ok]) force
  qed
qed


lemma boot_heap_no_block:
  assumes bt: "boot_tables l0 l1 l2 m" and l1: "valid_frame l1"
  shows "no_block m l0 [0, 4, 0]"
proof -
  have e: "m (tadd l0 0) = l1 OR DESC_TABLE" "m (tadd l1 4) = 0" using bt by (auto simp: boot_tables_def)
  have nt: "\<not> is_table 0" by (simp add: is_table_def DESC_TABLE_def)
  have t: "is_table (m (tadd l0 0))" "tbl m l0 [0] = Some l1" "tbl m l0 [0, 4] = None"
    using l1 nt by (simp_all add: e tbl.simps)
  have "q = [] \<and> i = 0 \<or> q = [0] \<and> i = 4 \<or> q = [0, 4]" if "[0, 4, 0] = q @ i # rest" for q and i :: usize and rest
    using that by (auto simp: Cons_eq_append_conv append_eq_Cons_conv)
  then show ?thesis unfolding no_block_def using e t by (fastforce simp: tbl.simps)
qed

lemma heap_translates:
  assumes hm: "heap_mapped U R D fs s0 hs s" and hs: "i < length hs" "length hs = 512" and r: "r \<in> R"
  shows "translate_in (mem s) r (heap_page i) = Some (hs ! i)"
proof -
  from hm obtain n where g: "vm_good U R (D \<union> set hs) (drop (length hs + n) fs) s" by (auto simp: heap_mapped_def)
  have v: "valid_frame (hs ! i)" using vm_goodD(9)[OF g] hs(1) by auto
  have l: "leaf (mem s) r (heap_page i) = (hs ! i AND ADDR_MASK) OR PAGE_KERNEL_RW"
    using hm hs r v by (simp add: heap_mapped_def)
  have fl: "PAGE_KERNEL_RW AND DESC_VALID \<noteq> 0" "PAGE_KERNEL_RW AND ADDR_MASK = 0"
    by (simp_all add: PAGE_KERNEL_RW_def DESC_PAGE_def SH_INNER_def AF_def UXN_def PXN_def DESC_VALID_def ADDR_MASK_def)
  have "page_aligned (heap_page i)" using hs by (simp add: page_aligned_iff_mod unat_heap_page mod_add_left_eq)
  then have "heap_page i AND 0xFFF = 0" by (simp add: page_aligned_def)
  then show ?thesis
    using v unfolding translate_in_leaf[OF vm_goodD(12)[OF g r]] l map_desc(2)[OF fl] using map_desc(1)[OF fl, of "hs ! i"] by simp
qed

lemma init_heap_good:
  assumes good: "vm_good U R D fs s" and room: "515 \<le> length fs" and nb: "no_block (mem s) (ttbr0_el1 s) [0, 4, 0]"
  shows "wp init_heap (\<lambda>_ s'. heap_inv [] (ALLOCATOR s') \<and> (\<exists>hs n. n \<le> 3 \<and> length hs = 512 \<and> distinct hs \<and>
       vm_good U R (D \<union> set hs) (drop (512 + n) fs) s' \<and> (\<forall>r \<in> R. \<forall>i < 512. translate_in (mem s') r (heap_page i) = Some (hs ! i)))) s"
proof (rule wp_mono[OF init_heap_ok[OF assms]], elim conjE exE)
  fix v s' hs t assume hs: "length hs = 512" and hm: "heap_mapped U R D fs s hs t"
    and s': "s' = t\<lparr>ALLOCATOR := ALLOCATOR s'\<rparr>" and hi: "heap_inv [] (ALLOCATOR s')"
  obtain n where n: "n \<le> 3" "vm_good U R (D \<union> set hs) (drop (512 + n) fs) t" "distinct hs"
    using hm hs by (auto simp: heap_mapped_def)
  have "mem s' = mem t" "vm_good U R D' gs s' = vm_good U R D' gs t" for D' gs
    by (subst s', simp) (rule vm_good_cong; subst s'; simp)
  then have "vm_good U R (D \<union> set hs) (drop (512 + n) fs) s'" "\<forall>r \<in> R. \<forall>i < 512. translate_in (mem s') r (heap_page i) = Some (hs ! i)"
    using n(2) heap_translates[OF hm _ hs] hs by simp_all
  then show "heap_inv [] (ALLOCATOR s') \<and> (\<exists>hs n. n \<le> 3 \<and> length hs = 512 \<and> distinct hs \<and>
       vm_good U R (D \<union> set hs) (drop (512 + n) fs) s' \<and> (\<forall>r \<in> R. \<forall>i < 512. translate_in (mem s') r (heap_page i) = Some (hs ! i)))"
    using hi hs n(1,3) by blast
qed

text \<open>
  C24. init_heap, run after init_mmu with enough free frames, maps each of the 512 pages of the
  heap window onto a frame of its own, taken from the free list and used for nothing else,
  spends at most three frames on tables, and leaves the allocator empty.
\<close>

theorem init_heap_maps_window:
  assumes "frames_inv (l0 # l1 # l2 # fs) s" and "515 \<le> length fs" and "INSTALLED s = 0"
  shows "wp (k_bind init_mmu (\<lambda>_. init_heap)) (\<lambda>_ s'. heap_inv [] (ALLOCATOR s') \<and>
    (\<exists>hs n. n \<le> 3 \<and> length hs = 512 \<and> distinct hs \<and> KERNEL_TTBR0 s' = l0 \<and>
       vm_good (set (l0 # l1 # l2 # fs)) {l0} (set hs) (drop (512 + n) fs) s' \<and>
       (\<forall>i < 512. translate_in (mem s') l0 (heap_page i) = Some (hs ! i)))) s"
proof -
  have l1: "valid_frame l1" using assms(1) by (auto simp: frames_inv_def)
  show ?thesis
    unfolding wp_bind
  proof (rule wp_mono[OF init_mmu_vm_inv[OF assms(1)]], elim conjE)
    fix u t assume run: "init_mmu s = Inr (u, t)" and inv: "vm_inv {l0} fs t" and k: "KERNEL_TTBR0 t = l0" "ttbr0_el1 t = l0"
      and bt: "boot_tables l0 l1 l2 (mem t)"
    have good: "vm_good (set (l0 # l1 # l2 # fs)) {l0} {} fs t"
      using vm_ok_boot[OF assms(1,3), of t] run k inv by (simp add: vm_good_def)
    have nb: "no_block (mem t) (ttbr0_el1 t) [0, 4, 0]" using boot_heap_no_block[OF bt l1] k by simp
    show "wp init_heap (\<lambda>_ s'. heap_inv [] (ALLOCATOR s') \<and>
      (\<exists>hs n. n \<le> 3 \<and> length hs = 512 \<and> distinct hs \<and> KERNEL_TTBR0 s' = l0 \<and>
       vm_good (set (l0 # l1 # l2 # fs)) {l0} (set hs) (drop (512 + n) fs) s' \<and>
       (\<forall>i < 512. translate_in (mem s') l0 (heap_page i) = Some (hs ! i)))) t"
    proof (rule wp_mono[OF init_heap_good[OF good assms(2) nb]], elim conjE exE)
      fix v s' hs n assume hs: "heap_inv [] (ALLOCATOR s')" "n \<le> 3" "length hs = 512" "distinct hs"
        "vm_good (set (l0 # l1 # l2 # fs)) {l0} ({} \<union> set hs) (drop (512 + n) fs) s'"
        "\<forall>r \<in> {l0}. \<forall>i < 512. translate_in (mem s') r (heap_page i) = Some (hs ! i)"
      moreover from vm_goodD(13)[OF hs(5)] have "KERNEL_TTBR0 s' = l0" by simp
      ultimately show "heap_inv [] (ALLOCATOR s') \<and> (\<exists>hs n. n \<le> 3 \<and> length hs = 512 \<and> distinct hs \<and> KERNEL_TTBR0 s' = l0 \<and>
       vm_good (set (l0 # l1 # l2 # fs)) {l0} (set hs) (drop (512 + n) fs) s' \<and>
       (\<forall>i < 512. translate_in (mem s') l0 (heap_page i) = Some (hs ! i)))"
        by (intro conjI exI[of _ hs] exI[of _ n]) simp_all
    qed
  qed
qed


section \<open>Instances\<close>

definition off_heap :: heap_state where
  "off_heap = mmu_state.extend off_mmu \<lparr>ALLOCATOR = BumpAllocator_new\<rparr>"

definition heap_of :: "usize \<Rightarrow> usize \<Rightarrow> heap_state" where
  "heap_of nxt n = off_heap\<lparr>ALLOCATOR := \<lparr>heap_start = HEAP_VBASE, heap_end = HEAP_VBASE + HEAP_SIZE,
     bump_next = nxt, allocations = n\<rparr>\<rparr>"

lemma heap_of_run: "heap_run [(0x100000068, 24, 2 ^ 3), (0x100000000, 100, 2 ^ 4)] (heap_of 0x100000080 2)"
proof (rule heap_run.alloc)
  show "heap_run [(0x100000000, 100, 2 ^ 4)] (heap_of 0x100000064 1)"
  proof (rule heap_run.alloc)
    show "heap_run [] (heap_of 0x100000000 0)"
      by (rule heap_run.init[of off_heap])
        (simp add: BumpAllocator_init_def run_simps heap_of_def HEAP_VBASE_def HEAP_SIZE_def)
  qed (simp_all add: heap_alloc_def heap_align_up_def run_simps checked_add_def heap_of_def HEAP_VBASE_def HEAP_SIZE_def)
qed (simp_all add: heap_alloc_def heap_align_up_def run_simps checked_add_def heap_of_def HEAP_VBASE_def HEAP_SIZE_def)

theorem heap_allocations_disjoint_witness:
  "unat (0x100000068 :: usize) mod unat (2 ^ 3 :: usize) = 0 \<and>
   (unat (0x100000068 :: usize) + unat (24 :: usize) \<le> unat (0x100000000 :: usize) \<or>
    unat (0x100000000 :: usize) + unat (100 :: usize) \<le> unat (0x100000068 :: usize))"
  using heap_allocations_disjoint[OF heap_of_run, THEN conjunct1]
    heap_allocations_disjoint[OF heap_of_run, THEN conjunct2, THEN conjunct1, rule_format, of 0 1]
  by simp


definition frame_range :: "nat \<Rightarrow> usize list" where
  "frame_range n = map (\<lambda>k. 0x40100000 + 0x1000 * of_nat k) [0..<n]"

lemma frame_range_length [simp]: "length (frame_range n) = n"
  by (simp add: frame_range_def)

lemma frame_range_split:
  assumes "3 \<le> n"
  shows "frame_range n = 0x40100000 # 0x40101000 # 0x40102000 # drop 3 (frame_range n)"
proof -
  obtain k where "n = Suc (Suc (Suc k))"
    using assms by (metis Suc_le_D numeral_3_eq_3 Suc_le_mono)
  then show ?thesis by (simp add: frame_range_def map_upt_Suc numeral_3_eq_3 del: upt_Suc)
qed

lemma frame_range_ok:
  assumes "n \<le> 0x7F00" shows "distinct (frame_range n)" "\<forall>f \<in> set (frame_range n). valid_frame f"
proof -
  have u: "unat (0x40100000 + 0x1000 * of_nat k :: usize) = 0x40100000 + 0x1000 * k" if "k < n" for k
    using that assms by (simp add: unat_word_ariths unat_of_nat)
  have "inj_on (\<lambda>k. 0x40100000 + 0x1000 * of_nat k :: usize) {0..<n}"
  proof (rule inj_onI)
    fix x y assume x: "x \<in> {0..<n}" and y: "y \<in> {0..<n}"
      and eq: "0x40100000 + 0x1000 * of_nat x = (0x40100000 + 0x1000 * of_nat y :: usize)"
    have "0x40100000 + 0x1000 * x = 0x40100000 + 0x1000 * y"
      using arg_cong[where f = unat, OF eq] unfolding u[OF x[unfolded atLeastLessThan_iff, THEN conjunct2]]
        u[OF y[unfolded atLeastLessThan_iff, THEN conjunct2]] .
    then show "x = y" by simp
  qed
  then show "distinct (frame_range n)" by (simp add: frame_range_def distinct_map)
  have "valid_frame (0x40100000 + 0x1000 * of_nat k)" if "k < n" for k
  proof -
    have "0x40100000 + 0x1000 * k = 4096 * (0x40100 + k)" by simp
    then have "(0x40100000 + 0x1000 * k) mod 4096 = 0" by (simp only: mod_mult_self1_is_0)
    then show ?thesis using that assms by (simp add: valid_frame_unat u)
  qed
  then show "\<forall>f \<in> set (frame_range n). valid_frame f" by (auto simp: frame_range_def)
qed

theorem init_heap_maps_window_witness:
  "wp (k_bind init_mmu (\<lambda>_. init_heap))
     (\<lambda>_ s'. \<exists>f. translate_in (mem s') 0x40100000 0x100000000 = Some f) (pool_of (frame_range 520) off_heap)"
proof -
  have r: "frame_range 520 = 0x40100000 # 0x40101000 # 0x40102000 # drop 3 (frame_range 520)"
    by (rule frame_range_split) simp
  have inv: "frames_inv (0x40100000 # 0x40101000 # 0x40102000 # drop 3 (frame_range 520)) (pool_of (frame_range 520) off_heap)"
    using frames_inv_pool_of[OF frame_range_ok, of 520 off_heap] by (subst r[symmetric]) simp
  have "INSTALLED (pool_of (frame_range 520) off_heap) = 0"
    by (simp add: pool_of_def off_heap_def mmu_state.defs off_mmu_def)
  from init_heap_maps_window[OF inv _ this] show ?thesis
  proof (rule wp_mono)
    show "515 \<le> length (drop 3 (frame_range 520))" by simp
  next
    fix u s' assume "heap_inv [] (ALLOCATOR s') \<and>
    (\<exists>hs n. n \<le> 3 \<and> length hs = 512 \<and> distinct hs \<and> KERNEL_TTBR0 s' = 0x40100000 \<and>
       vm_good (set (0x40100000 # 0x40101000 # 0x40102000 # drop 3 (frame_range 520))) {0x40100000} (set hs)
         (drop (512 + n) (drop 3 (frame_range 520))) s' \<and>
       (\<forall>i < 512. translate_in (mem s') 0x40100000 (heap_page i) = Some (hs ! i)))"
    then have "\<exists>hs. translate_in (mem s') 0x40100000 (heap_page 0) = Some (hs ! 0)" by force
    then show "\<exists>f. translate_in (mem s') 0x40100000 0x100000000 = Some f"
      by (auto simp: heap_page_def HEAP_VBASE_def)
  qed
qed

end
