(* ===== verification/Fifo.thy ===== *)
theory Fifo
  imports Prelude
begin

text \<open>
  The contract of the bounded queues of the kernel: the console input ring and the
  submission and completion rings of \<^verbatim>\<open>jring\<close>. The specification is a list of bounded
  length; the locale \<open>bounded_fifo\<close> states what an implementation owes to it, and the
  lemmas inside show that every sequence of operations then behaves as on the list.
\<close>

section \<open>The specification\<close>

datatype 'a fifo_op = Offer 'a | Poll

definition q_offer :: "nat \<Rightarrow> 'a \<Rightarrow> 'a list \<Rightarrow> 'a list" where
  "q_offer cap x q = (if length q < cap then q @ [x] else q)"

fun q_poll :: "'a list \<Rightarrow> 'a option \<times> 'a list" where
  "q_poll [] = (None, [])"
| "q_poll (x # q) = (Some x, q)"

fun q_run :: "nat \<Rightarrow> 'a fifo_op list \<Rightarrow> 'a list \<Rightarrow> 'a option list \<times> 'a list" where
  "q_run cap [] q = ([], q)"
| "q_run cap (Offer x # ops) q = q_run cap ops (q_offer cap x q)"
| "q_run cap (Poll # ops) q =
     (let (r, q') = q_poll q; (rs, q'') = q_run cap ops q' in (r # rs, q''))"

text \<open>The same operations on an implementation given by its offer and its poll.\<close>

fun fifo_run :: "('a \<Rightarrow> 's \<Rightarrow> 's) \<Rightarrow> ('s \<Rightarrow> 'a option \<times> 's) \<Rightarrow> 'a fifo_op list \<Rightarrow> 's \<Rightarrow>
    'a option list \<times> 's" where
  "fifo_run offer poll [] s = ([], s)"
| "fifo_run offer poll (Offer x # ops) s = fifo_run offer poll ops (offer x s)"
| "fifo_run offer poll (Poll # ops) s =
     (let (r, s') = poll s; (rs, s'') = fifo_run offer poll ops s' in (r # rs, s''))"

lemma q_run_bounded: "length q \<le> cap \<Longrightarrow> length (snd (q_run cap ops q)) \<le> cap"
  by (induction cap ops q rule: q_run.induct)
    (auto simp: q_offer_def split: prod.splits elim!: q_poll.elims)

text \<open>The values an all-accepting run offers.\<close>

fun offered :: "'a fifo_op list \<Rightarrow> 'a list" where
  "offered [] = []"
| "offered (Offer x # ops) = x # offered ops"
| "offered (Poll # ops) = offered ops"

definition polled :: "'a option list \<Rightarrow> 'a list" where
  "polled rs = concat (map (\<lambda>r. case r of None \<Rightarrow> [] | Some x \<Rightarrow> [x]) rs)"

lemma polled_simps [simp]:
  "polled [] = []" "polled (None # rs) = polled rs" "polled (Some x # rs) = x # polled rs"
  by (simp_all add: polled_def)

text \<open>
  When the queue never fills, what is polled followed by what remains is what was there
  followed by what was offered: nothing is lost, duplicated or reordered.
\<close>

lemma q_run_conserves:
  assumes "length q + length (offered ops) \<le> cap"
  shows "polled (fst (q_run cap ops q)) @ snd (q_run cap ops q) = q @ offered ops"
  using assms
proof (induction cap ops q rule: q_run.induct)
  case (2 cap x ops q)
  then have "q_offer cap x q = q @ [x]" by (simp add: q_offer_def)
  with 2 show ?case by simp
next
  case (3 cap ops q)
  obtain r q' where p: "q_poll q = (r, q')" by force
  have "length q' + length (offered ops) \<le> cap"
    using "3.prems" p by (cases q) auto
  from "3.IH"[OF p[symmetric] refl this] p show ?case
    by (cases q) (auto simp: Let_def split: prod.splits)
qed simp

section \<open>The interface\<close>

locale bounded_fifo =
  fixes inv :: "'s \<Rightarrow> bool" and content :: "'s \<Rightarrow> 'a list" and cap :: nat
    and offer :: "'a \<Rightarrow> 's \<Rightarrow> 's" and poll :: "'s \<Rightarrow> 'a option \<times> 's"
  assumes content_bounded: "inv s \<Longrightarrow> length (content s) \<le> cap"
    and offer_ok: "inv s \<Longrightarrow> inv (offer x s) \<and> content (offer x s) = q_offer cap x (content s)"
    and poll_ok: "inv s \<Longrightarrow> inv (snd (poll s)) \<and> fst (poll s) = fst (q_poll (content s)) \<and>
      content (snd (poll s)) = snd (q_poll (content s))"
begin

lemma run_refines:
  "inv s \<Longrightarrow> inv (snd (fifo_run offer poll ops s)) \<and>
     fst (fifo_run offer poll ops s) = fst (q_run cap ops (content s)) \<and>
     content (snd (fifo_run offer poll ops s)) = snd (q_run cap ops (content s))"
proof (induction ops arbitrary: s)
  case Nil
  then show ?case by simp
next
  case (Cons op ops)
  show ?case
  proof (cases op)
    case (Offer x)
    with Cons.IH[of "offer x s"] offer_ok[OF Cons.prems] show ?thesis by simp
  next
    case Poll
    with Cons.IH[of "snd (poll s)"] poll_ok[OF Cons.prems] show ?thesis
      by (auto simp: Let_def split: prod.splits)
  qed
qed

lemma run_conserves:
  assumes "inv s" "length (content s) + length (offered ops) \<le> cap"
  shows "polled (fst (fifo_run offer poll ops s)) @ content (snd (fifo_run offer poll ops s)) =
    content s @ offered ops"
  using run_refines[OF assms(1)] q_run_conserves[OF assms(2)] by simp

end

end
