(* ===== verification/Console.thy ===== *)
theory Console
  imports Heap Fifo
begin

unbundle bit_operations_syntax

text \<open>
  The PL011 driver of \<^verbatim>\<open>kernel/src/uart.rs\<close> and the input ring of
  \<^verbatim>\<open>kernel/src/input.rs\<close>. The device is its registers: the bytes the host has queued for
  the receiver, the bytes written to the data register, how many more reads of the flag
  register will see the transmitter full, and the interrupt mask. The ring is shown to
  refine a bounded queue, and no byte typed is lost, duplicated or reordered on its way
  from the device to a reader.
\<close>

section \<open>The UART\<close>

definition UARTFR_TXFF :: u32 where "UARTFR_TXFF = 0x20"
definition UARTFR_RXFE :: u32 where "UARTFR_RXFE = 0x10"
definition RXIM :: u32 where "RXIM = 0x10"
definition UART_INTID :: u32 where "UART_INTID = 33"

definition INPUT_BUF_SIZE :: usize where
  "INPUT_BUF_SIZE = 256"

record InputBuf =
  ib_buf :: "u8 list"
  ib_head :: usize
  ib_tail :: usize

definition InputBuf_init :: InputBuf where
  "InputBuf_init = \<lparr>ib_buf = replicate 256 0, ib_head = 0, ib_tail = 0\<rparr>"

record console_state = heap_state +
  uart_rx :: "u8 list"
  uart_tx :: "u8 list"
  uart_tx_busy :: nat
  uart_imsc :: u32
  INPUT :: InputBuf

definition set_rx_irq :: "bool \<Rightarrow> ('a console_state_scheme, unit) kfn" where
  "set_rx_irq enabled = k_modify (\<lambda>s. s\<lparr>uart_imsc := (if enabled then RXIM else 0)\<rparr>)"

text \<open>A read of the flag register; each read brings a full transmitter closer to having room.\<close>

definition uart_flags :: "'a console_state_scheme \<Rightarrow> u32" where
  "uart_flags s = (if 0 < uart_tx_busy s then UARTFR_TXFF else 0) OR
     (if uart_rx s = [] then UARTFR_RXFE else 0)"

definition read_uartfr :: "('a console_state_scheme, u32) kfn" where
  "read_uartfr =
     k_bind (k_gets uart_flags) (\<lambda>fr.
     k_bind (k_modify (\<lambda>s. s\<lparr>uart_tx_busy := uart_tx_busy s - 1\<rparr>)) (\<lambda>_.
     k_return fr))"

text \<open>
  The spin of \<^verbatim>\<open>write_byte\<close>, with the number of polls the device needs as fuel; \<open>None\<close>
  would mean that it did not end.
\<close>

primrec spin_txff :: "nat \<Rightarrow> ('a console_state_scheme, unit option) kfn" where
  "spin_txff 0 = k_return None"
| "spin_txff (Suc n) =
     k_bind read_uartfr (\<lambda>fr.
     if fr AND UARTFR_TXFF \<noteq> 0 then spin_txff n else k_return (Some ()))"

definition write_byte :: "u8 \<Rightarrow> ('a console_state_scheme, unit) kfn" where
  "write_byte b =
     k_bind (k_gets (\<lambda>s. Suc (uart_tx_busy s))) (\<lambda>fuel.
     k_bind (spin_txff fuel) (\<lambda>r.
     case r of
       None \<Rightarrow> k_panic (Expect ''transmitter stuck'')
     | Some _ \<Rightarrow> k_modify (\<lambda>s. s\<lparr>uart_tx := uart_tx s @ [b]\<rparr>)))"

definition try_getc :: "('a console_state_scheme, u8 option) kfn" where
  "try_getc =
     k_bind read_uartfr (\<lambda>fr.
     if fr AND UARTFR_RXFE \<noteq> 0 then k_return None
     else
       k_bind (k_gets (\<lambda>s. hd (uart_rx s))) (\<lambda>b.
       k_bind (k_modify (\<lambda>s. s\<lparr>uart_rx := tl (uart_rx s)\<rparr>)) (\<lambda>_.
       k_return (Some b))))"

definition uart_write_str :: "u8 list \<Rightarrow> ('a console_state_scheme, unit) kfn" where
  "uart_write_str s = k_for s (\<lambda>b.
     k_bind (k_when (b = 0x0A) (write_byte 0x0D)) (\<lambda>_. write_byte b))"

text \<open>The bytes of a string literal.\<close>

definition ascii :: "string \<Rightarrow> u8 list" where
  "ascii s = map of_char s"

definition kprint :: "string \<Rightarrow> ('a console_state_scheme, unit) kfn" where
  "kprint s = uart_write_str (ascii s)"

definition kprintln :: "string \<Rightarrow> ('a console_state_scheme, unit) kfn" where
  "kprintln s = kprint (s @ [CHR 0x0A])"

section \<open>The input ring\<close>

definition input_is_empty :: "InputBuf \<Rightarrow> bool" where
  "input_is_empty ib \<longleftrightarrow> ib_head ib = ib_tail ib"

definition input_is_full :: "InputBuf \<Rightarrow> bool" where
  "input_is_full ib \<longleftrightarrow> (ib_tail ib + 1) mod INPUT_BUF_SIZE = ib_head ib"

text \<open>The body of the \<^verbatim>\<open>Some(b)\<close> arm of \<^verbatim>\<open>drain_uart\<close>, and of the non-empty arm of \<^verbatim>\<open>pop\<close>.\<close>

definition input_store :: "u8 \<Rightarrow> InputBuf \<Rightarrow> InputBuf" where
  "input_store b ib = ib\<lparr>ib_buf := (ib_buf ib)[unat (ib_tail ib) := b],
     ib_tail := (ib_tail ib + 1) mod INPUT_BUF_SIZE\<rparr>"

definition put_byte :: "u8 \<Rightarrow> ('a console_state_scheme, unit) kfn" where
  "put_byte b =
     k_bind (k_gets INPUT) (\<lambda>ib.
     if unat (ib_tail ib) < length (ib_buf ib)
     then k_modify (\<lambda>s. s\<lparr>INPUT := input_store b ib\<rparr>)
     else k_panic IndexOutOfBounds)"

lemma try_getc_some: "try_getc s = Inr (Some b, t) \<Longrightarrow> uart_rx s = b # uart_rx t"
  by (auto simp: try_getc_def read_uartfr_def uart_flags_def run_simps UARTFR_RXFE_def UARTFR_TXFF_def split: if_splits)

lemma put_byte_rx: "put_byte b s = Inr (u, t) \<Longrightarrow> uart_rx t = uart_rx s"
  by (auto simp: put_byte_def run_simps split: if_splits)

function drain_uart :: "('a console_state_scheme, unit) kfn" where
  "drain_uart s =
     (if input_is_full (INPUT s) then set_rx_irq False s
      else
        (case try_getc s of
           Inl e \<Rightarrow> Inl e
         | Inr (None, t) \<Rightarrow> Inr ((), t)
         | Inr (Some b, t) \<Rightarrow>
             (case put_byte b t of
                Inl e \<Rightarrow> Inl e
              | Inr (_, t') \<Rightarrow> drain_uart t')))"
  by pat_completeness auto
termination
  by (relation "measure (\<lambda>s. length (uart_rx s))") (auto dest!: try_getc_some put_byte_rx)

declare drain_uart.simps [simp del]

definition input_pop :: "('a console_state_scheme, u8 option) kfn" where
  "input_pop = without_irqs (
     k_bind (k_gets INPUT) (\<lambda>ib.
     if input_is_empty ib then k_return None
     else
       k_bind (k_index (ib_buf ib) (unat (ib_head ib))) (\<lambda>b.
       k_bind (k_modify (\<lambda>s. s\<lparr>INPUT := ib\<lparr>ib_head := (ib_head ib + 1) mod INPUT_BUF_SIZE\<rparr>\<rparr>)) (\<lambda>_.
       k_bind (k_when (input_is_full ib) (set_rx_irq True)) (\<lambda>_.
       k_return (Some b))))))"

section \<open>The ring is a bounded queue\<close>

definition input_count :: "InputBuf \<Rightarrow> nat" where
  "input_count ib = (256 + unat (ib_tail ib) - unat (ib_head ib)) mod 256"

definition input_content :: "InputBuf \<Rightarrow> u8 list" where
  "input_content ib = map (\<lambda>k. ib_buf ib ! ((unat (ib_head ib) + k) mod 256)) [0..<input_count ib]"

definition input_inv :: "InputBuf \<Rightarrow> bool" where
  "input_inv ib \<longleftrightarrow> length (ib_buf ib) = 256 \<and> unat (ib_head ib) < 256 \<and> unat (ib_tail ib) < 256"

definition input_offer :: "u8 \<Rightarrow> InputBuf \<Rightarrow> InputBuf" where
  "input_offer b ib = (if input_is_full ib then ib else input_store b ib)"

definition input_poll :: "InputBuf \<Rightarrow> u8 option \<times> InputBuf" where
  "input_poll ib = (if input_is_empty ib then (None, ib)
     else (Some (ib_buf ib ! unat (ib_head ib)), ib\<lparr>ib_head := (ib_head ib + 1) mod INPUT_BUF_SIZE\<rparr>))"

lemma unat_wrap_256: "unat x < 256 \<Longrightarrow> unat ((x + 1) mod INPUT_BUF_SIZE) = (unat x + 1) mod 256"
  by (simp add: INPUT_BUF_SIZE_def unat_mod unat_word_ariths)

lemma input_count_cases:
  assumes "input_inv ib"
  shows "unat (ib_head ib) \<le> unat (ib_tail ib) \<Longrightarrow> input_count ib = unat (ib_tail ib) - unat (ib_head ib)"
    and "unat (ib_tail ib) < unat (ib_head ib) \<Longrightarrow> input_count ib = 256 + unat (ib_tail ib) - unat (ib_head ib)"
proof -
  assume "unat (ib_head ib) \<le> unat (ib_tail ib)"
  then have "256 + unat (ib_tail ib) - unat (ib_head ib) = (unat (ib_tail ib) - unat (ib_head ib)) + 256" by simp
  then show "input_count ib = unat (ib_tail ib) - unat (ib_head ib)"
    using assms mod_less[of "unat (ib_tail ib) - unat (ib_head ib)" 256] unfolding input_count_def input_inv_def
    by (simp only: mod_add_self2) linarith
qed (use assms in \<open>simp add: input_count_def input_inv_def\<close>)

lemma input_count_less: "input_count ib < 256"
  by (simp add: input_count_def)

lemma input_empty_iff: "input_inv ib \<Longrightarrow> input_is_empty ib \<longleftrightarrow> input_count ib = 0"
  using input_count_cases[of ib] unfolding input_is_empty_def word_unat_eq_iff
  by (cases "unat (ib_head ib) \<le> unat (ib_tail ib)") (auto simp: input_inv_def)

lemma input_full_iff:
  assumes "input_inv ib" shows "input_is_full ib \<longleftrightarrow> input_count ib = 255"
proof -
  have t: "unat (ib_tail ib) < 256" and h: "unat (ib_head ib) < 256" using assms by (auto simp: input_inv_def)
  have "input_is_full ib \<longleftrightarrow> (unat (ib_tail ib) + 1) mod 256 = unat (ib_head ib)"
    unfolding input_is_full_def word_unat_eq_iff unat_wrap_256[OF t] ..
  also have "\<dots> \<longleftrightarrow> input_count ib = 255"
    using input_count_cases[OF assms] t h
    by (cases "unat (ib_tail ib) = 255"; cases "unat (ib_head ib) \<le> unat (ib_tail ib)") auto
  finally show ?thesis .
qed

lemma input_content_length: "length (input_content ib) = input_count ib"
  by (simp add: input_content_def)

lemma input_tail_index:
  assumes "input_inv ib" shows "(unat (ib_head ib) + input_count ib) mod 256 = unat (ib_tail ib)"
proof (cases "unat (ib_head ib) \<le> unat (ib_tail ib)")
  case True
  then show ?thesis using input_count_cases(1)[OF assms True] assms by (simp add: input_inv_def)
next
  case False
  then have "unat (ib_head ib) + input_count ib = unat (ib_tail ib) + 256"
    using input_count_cases(2)[OF assms] assms by (simp add: input_inv_def)
  then show ?thesis using assms by (simp add: input_inv_def)
qed

lemma mod_256_less: "(h + a) mod 256 \<noteq> (h + b) mod 256" if "a < b" "b < 256" for a b h :: nat
proof
  assume "(h + a) mod 256 = (h + b) mod 256"
  then have "256 dvd (h + b) - (h + a)" using that by (metis mod_eq_dvd_iff_nat add_le_cancel_left less_imp_le)
  with that show False by (auto dest: dvd_imp_le)
qed

lemma mod_256_inj: "a < 256 \<Longrightarrow> b < 256 \<Longrightarrow> (h + a) mod 256 = (h + b) mod 256 \<longleftrightarrow> a = b" for a b h :: nat
  using mod_256_less[of a b h] mod_256_less[of b a h] by (metis linorder_neqE_nat)

lemma input_store_content:
  assumes inv: "input_inv ib" and nf: "\<not> input_is_full ib"
  shows "input_inv (input_store b ib)" and "input_content (input_store b ib) = input_content ib @ [b]"
proof -
  let ?h = "unat (ib_head ib)" and ?t = "unat (ib_tail ib)" and ?n = "input_count ib"
  have ht: "?h < 256" "?t < 256" "length (ib_buf ib) = 256" using inv by (auto simp: input_inv_def)
  have t': "unat ((ib_tail ib + 1) mod INPUT_BUF_SIZE) = (?t + 1) mod 256" by (rule unat_wrap_256[OF ht(2)])
  show inv': "input_inv (input_store b ib)"
    using ht t' by (simp add: input_inv_def input_store_def)
  have n: "?n < 255" using nf input_full_iff[OF inv] input_count_less[of ib] by simp
  have c: "input_count (input_store b ib) = Suc ?n"
  proof -
    have "(?h + input_count (input_store b ib)) mod 256 = (?t + 1) mod 256"
      using input_tail_index[OF inv'] t' by (simp add: input_store_def)
    also have "\<dots> = (?h + Suc ?n) mod 256" using input_tail_index[OF inv] by (metis Suc_eq_plus1 add_Suc_right mod_Suc_eq)
    finally show ?thesis using n by (subst (asm) mod_256_inj[OF input_count_less]) simp_all
  qed
  have "?t \<noteq> (?h + k) mod 256" if "k < ?n" for k
    using mod_256_inj[of k ?n ?h] input_tail_index[OF inv] that n by simp
  then show "input_content (input_store b ib) = input_content ib @ [b]"
    unfolding input_content_def c using ht input_tail_index[OF inv] by (auto simp: input_store_def nth_list_update_neq)
qed

lemma input_poll_content:
  assumes inv: "input_inv ib" and ne: "\<not> input_is_empty ib"
  defines "ib' \<equiv> ib\<lparr>ib_head := (ib_head ib + 1) mod INPUT_BUF_SIZE\<rparr>"
  shows "input_inv ib'" and "input_content ib = ib_buf ib ! unat (ib_head ib) # input_content ib'"
proof -
  let ?h = "unat (ib_head ib)" and ?n = "input_count ib"
  have ht: "?h < 256" "length (ib_buf ib) = 256" using inv by (auto simp: input_inv_def)
  have h': "unat (ib_head ib') = (?h + 1) mod 256" unfolding ib'_def using unat_wrap_256[OF ht(1)] by simp
  show inv': "input_inv ib'" using inv h' by (simp add: input_inv_def ib'_def)
  have n: "0 < ?n" using ne input_empty_iff[OF inv] by simp
  then obtain k where k: "?n = Suc k" by (cases ?n) auto
  have "(?h + 1 + input_count ib') mod 256 = (?h + 1 + k) mod 256"
    using input_tail_index[OF inv'] input_tail_index[OF inv] h' k by (simp add: ib'_def mod_add_left_eq)
  then have "input_count ib' = k"
    using mod_256_inj[OF input_count_less, of k "?h + 1"] input_count_less[of ib] k by simp
  then show "input_content ib = ib_buf ib ! ?h # input_content ib'"
    unfolding input_content_def k using ht h'
    by (simp add: map_upt_Suc ib'_def mod_add_left_eq del: upt_Suc)
qed

interpretation input_ring: bounded_fifo input_inv input_content 255 input_offer input_poll
proof
  fix ib assume inv: "input_inv ib"
  show "length (input_content ib) \<le> 255" using input_count_less[of ib] by (simp add: input_content_length)
  show "input_inv (input_offer b ib) \<and> input_content (input_offer b ib) = q_offer 255 b (input_content ib)" for b
    using inv input_store_content[OF inv] input_full_iff[OF inv] input_count_less[of ib]
    by (auto simp: input_offer_def q_offer_def input_content_length)
  show "input_inv (snd (input_poll ib)) \<and> fst (input_poll ib) = fst (q_poll (input_content ib)) \<and>
      input_content (snd (input_poll ib)) = snd (q_poll (input_content ib))"
  proof (cases "input_is_empty ib")
    case True
    then have "input_content ib = []" using input_empty_iff[OF inv] input_content_length[of ib] by simp
    with True inv show ?thesis by (simp add: input_poll_def)
  next
    case False
    with input_poll_content[OF inv] show ?thesis by (simp add: input_poll_def)
  qed
qed


section \<open>From the device to the reader\<close>

text \<open>What the receive interrupt does: the ring takes bytes while it has room.\<close>

definition rx_erase :: "'a console_state_scheme \<Rightarrow> 'a console_state_scheme" where
  "rx_erase s = s\<lparr>uart_rx := [], uart_tx_busy := 0, uart_imsc := 0, INPUT := InputBuf_init\<rparr>"

definition rx_only :: "'a console_state_scheme \<Rightarrow> 'a console_state_scheme \<Rightarrow> bool" where
  "rx_only s t \<longleftrightarrow> rx_erase t = rx_erase s"

lemma rx_only_simps [simp]: "rx_only s s" "rx_only s (t\<lparr>uart_rx := rx\<rparr>) = rx_only s t"
  "rx_only s (t\<lparr>uart_tx_busy := n\<rparr>) = rx_only s t" "rx_only s (t\<lparr>uart_imsc := i\<rparr>) = rx_only s t"
  "rx_only s (t\<lparr>INPUT := ib\<rparr>) = rx_only s t"
  by (simp_all add: rx_only_def rx_erase_def)

lemma rx_only_trans: "rx_only s t \<Longrightarrow> rx_only t u \<Longrightarrow> rx_only s u"
  by (simp add: rx_only_def)

lemma try_getc_empty: "uart_rx s = [] \<Longrightarrow> try_getc s = Inr (None, s\<lparr>uart_tx_busy := uart_tx_busy s - 1\<rparr>)"
  by (simp add: try_getc_def read_uartfr_def uart_flags_def run_simps UARTFR_RXFE_def UARTFR_TXFF_def)

lemma try_getc_byte:
  "uart_rx s = b # rx \<Longrightarrow> try_getc s = Inr (Some b, s\<lparr>uart_tx_busy := uart_tx_busy s - 1, uart_rx := rx\<rparr>)"
  by (simp add: try_getc_def read_uartfr_def uart_flags_def run_simps UARTFR_RXFE_def UARTFR_TXFF_def)

lemma drain_uart_ok:
  assumes "input_inv (INPUT s)"
  shows "wp drain_uart (\<lambda>_ t. input_inv (INPUT t) \<and>
    input_content (INPUT t) @ uart_rx t = input_content (INPUT s) @ uart_rx s \<and>
    (uart_rx t = [] \<or> input_is_full (INPUT t)) \<and>
    uart_imsc t = (if input_is_full (INPUT t) then 0 else uart_imsc s) \<and> rx_only s t) s"
  using assms
proof (induction "length (uart_rx s)" arbitrary: s)
  case 0
  then have "uart_rx s = []" by simp
  from try_getc_empty[OF this] 0 show ?case
    by (simp add: wp_def drain_uart.simps[of s] set_rx_irq_def run_simps)
next
  case (Suc n)
  then obtain b rx where rx: "uart_rx s = b # rx" by (cases "uart_rx s") auto
  show ?case
  proof (cases "input_is_full (INPUT s)")
    case True
    then show ?thesis
      using Suc.prems by (simp add: wp_def drain_uart.simps[of s] set_rx_irq_def run_simps)
  next
    case False
    let ?t = "s\<lparr>uart_tx_busy := uart_tx_busy s - 1, uart_rx := rx, INPUT := input_store b (INPUT s)\<rparr>"
    have put: "put_byte b (s\<lparr>uart_tx_busy := uart_tx_busy s - 1, uart_rx := rx\<rparr>) = Inr ((), ?t)"
      using Suc.prems by (simp add: put_byte_def run_simps input_inv_def)
    have eq: "drain_uart s = drain_uart ?t"
      by (simp add: drain_uart.simps[of s] False try_getc_byte[OF rx] put[simplified])
    have ro: "rx_only s ?t" by simp
    note st' = input_store_content[OF Suc.prems False, of b]
    have "wp drain_uart (\<lambda>_ u. input_inv (INPUT u) \<and>
        input_content (INPUT u) @ uart_rx u = input_content (INPUT ?t) @ uart_rx ?t \<and>
        (uart_rx u = [] \<or> input_is_full (INPUT u)) \<and>
        uart_imsc u = (if input_is_full (INPUT u) then 0 else uart_imsc ?t) \<and> rx_only ?t u) ?t"
      by (rule Suc.hyps(1)) (use Suc.hyps(2) rx st' in simp_all)
    moreover have "wp drain_uart Q s = wp drain_uart Q ?t" for Q unfolding wp_def eq ..
    ultimately show ?thesis
      using st'(2) rx rx_only_trans[OF ro] by (simp only:) (erule wp_mono, simp)
  qed
qed

text \<open>What a reader takes.\<close>

lemma input_pop_ok:
  assumes inv: "input_inv (INPUT s)"
  shows "wp input_pop (\<lambda>r t. input_poll (INPUT s) = (r, INPUT t) \<and>
    uart_imsc t = (if input_is_full (INPUT s) \<and> \<not> input_is_empty (INPUT s) then RXIM else uart_imsc s) \<and>
    uart_rx t = uart_rx s \<and> rx_only s t) s"
  using inv by (auto simp: input_pop_def wp_rules input_poll_def set_rx_irq_def input_inv_def)

section \<open>The life of the console\<close>

text \<open>
  Every interleaving of keys typed, receive interrupts and reads after \<^verbatim>\<open>kmain\<close> unmasked
  the receive interrupt; \<open>typed\<close> and \<open>taken\<close> are the histories.
\<close>

inductive console_run :: "u8 list \<Rightarrow> u8 list \<Rightarrow> 'a console_state_scheme \<Rightarrow> bool" where
  boot: "INPUT s = InputBuf_init \<Longrightarrow> uart_rx s = [] \<Longrightarrow> set_rx_irq True s = Inr ((), t) \<Longrightarrow> console_run [] [] t"
| key: "console_run typed taken s \<Longrightarrow> console_run (typed @ [b]) taken (s\<lparr>uart_rx := uart_rx s @ [b]\<rparr>)"
| rx_irq: "console_run typed taken s \<Longrightarrow> drain_uart s = Inr ((), t) \<Longrightarrow> console_run typed taken t"
| pop: "console_run typed taken s \<Longrightarrow> input_pop s = Inr (Some b, t) \<Longrightarrow> console_run typed (taken @ [b]) t"
| pop_empty: "console_run typed taken s \<Longrightarrow> input_pop s = Inr (None, t) \<Longrightarrow> console_run typed taken t"

definition console_inv :: "u8 list \<Rightarrow> u8 list \<Rightarrow> 'a console_state_scheme \<Rightarrow> bool" where
  "console_inv typed taken s \<longleftrightarrow> input_inv (INPUT s) \<and>
     taken @ input_content (INPUT s) @ uart_rx s = typed \<and>
     uart_imsc s = (if input_is_full (INPUT s) then 0 else RXIM)"

lemma InputBuf_init_ok: "input_inv InputBuf_init" "input_content InputBuf_init = []" "\<not> input_is_full InputBuf_init"
  by (simp_all add: input_inv_def InputBuf_init_def input_content_def input_count_def input_is_full_def INPUT_BUF_SIZE_def)

lemma input_poll_Some:
  assumes inv: "input_inv ib" and p: "input_poll ib = (Some b, ib')"
  shows "input_inv ib'" "input_content ib = b # input_content ib'" "\<not> input_is_full ib'" "\<not> input_is_empty ib"
proof -
  show ne: "\<not> input_is_empty ib" using p by (auto simp: input_poll_def)
  have ib': "ib' = ib\<lparr>ib_head := (ib_head ib + 1) mod INPUT_BUF_SIZE\<rparr>" "b = ib_buf ib ! unat (ib_head ib)"
    using p ne by (auto simp: input_poll_def)
  show inv': "input_inv ib'" and c: "input_content ib = b # input_content ib'"
    using input_poll_content[OF inv ne] unfolding ib' by auto
  have "Suc (input_count ib') = input_count ib"
    using arg_cong[where f = length, OF c] by (simp add: input_content_length)
  then show "\<not> input_is_full ib'" using input_full_iff[OF inv'] input_count_less[of ib] by simp
qed

lemma input_poll_None: "input_poll ib = (None, ib') \<Longrightarrow> ib' = ib \<and> input_is_empty ib"
  by (auto simp: input_poll_def split: if_splits)

lemma console_run_inv: "console_run typed taken s \<Longrightarrow> console_inv typed taken s"
proof (induction rule: console_run.induct)
  case (boot s t)
  then show ?case using InputBuf_init_ok by (auto simp: console_inv_def set_rx_irq_def run_simps)
next
  case (key typed taken s b)
  then show ?case by (auto simp: console_inv_def)
next
  case (rx_irq typed taken s t)
  then have inv: "input_inv (INPUT s)" by (simp add: console_inv_def)
  have d: "input_inv (INPUT t)" "input_content (INPUT t) @ uart_rx t = input_content (INPUT s) @ uart_rx s"
    "uart_rx t = [] \<or> input_is_full (INPUT t)" "uart_imsc t = (if input_is_full (INPUT t) then 0 else uart_imsc s)"
    using drain_uart_ok[OF inv] rx_irq.hyps by (simp_all add: wp_def)
  have "input_is_full (INPUT t)" if "input_is_full (INPUT s)"
  proof (rule ccontr)
    assume nf: "\<not> input_is_full (INPUT t)"
    then have "input_content (INPUT t) = input_content (INPUT s) @ uart_rx s" using d by simp
    then have "input_count (INPUT s) \<le> input_count (INPUT t)"
      by (metis input_content_length le_add1 length_append)
    then show False
      using that nf input_full_iff[OF inv] input_full_iff[OF d(1)] input_count_less[of "INPUT t"] by simp
  qed
  then show ?case using rx_irq.IH d unfolding console_inv_def by (metis append_assoc)
next
  case (pop typed taken s b t)
  then have inv: "input_inv (INPUT s)" by (simp add: console_inv_def)
  have d: "input_poll (INPUT s) = (Some b, INPUT t)" "uart_rx t = uart_rx s"
    "uart_imsc t = (if input_is_full (INPUT s) \<and> \<not> input_is_empty (INPUT s) then RXIM else uart_imsc s)"
    using input_pop_ok[OF inv] pop.hyps by (simp_all add: wp_def)
  note p = input_poll_Some[OF inv d(1)]
  show ?case using pop.IH p d(2,3) by (simp add: console_inv_def)
next
  case (pop_empty typed taken s t)
  then have inv: "input_inv (INPUT s)" by (simp add: console_inv_def)
  have d: "input_poll (INPUT s) = (None, INPUT t)" "uart_rx t = uart_rx s"
    "uart_imsc t = (if input_is_full (INPUT s) \<and> \<not> input_is_empty (INPUT s) then RXIM else uart_imsc s)"
    using input_pop_ok[OF inv] pop_empty.hyps by (simp_all add: wp_def)
  note p = input_poll_None[OF d(1)]
  show ?case using pop_empty.IH p d(2,3) by (simp add: console_inv_def)
qed


text \<open>
  C27. For every interleaving of keys typed, receive interrupts and reads, the bytes taken so
  far followed by those in the ring and those in the device are exactly the bytes typed, and the
  receive interrupt is unmasked exactly while the ring has room.
\<close>

theorem console_no_byte_lost:
  assumes "console_run typed taken s"
  shows "taken @ input_content (INPUT s) @ uart_rx s = typed \<and>
    (uart_imsc s = RXIM \<longleftrightarrow> \<not> input_is_full (INPUT s)) \<and> length (input_content (INPUT s)) \<le> 255"
  using console_run_inv[OF assms] input_ring.content_bounded[of "INPUT s"]
  by (auto simp: console_inv_def RXIM_def)


text \<open>
  The transmit path. The states before and after a print differ in the transmitter only.
\<close>

definition tx_erase :: "'a console_state_scheme \<Rightarrow> 'a console_state_scheme" where
  "tx_erase s = s\<lparr>uart_tx := [], uart_tx_busy := 0\<rparr>"

definition tx_only :: "'a console_state_scheme \<Rightarrow> 'a console_state_scheme \<Rightarrow> bool" where
  "tx_only s t \<longleftrightarrow> tx_erase t = tx_erase s"

lemma tx_only_simps [simp]: "tx_only s s" "tx_only s (t\<lparr>uart_tx := x\<rparr>) = tx_only s t"
  "tx_only s (t\<lparr>uart_tx_busy := n\<rparr>) = tx_only s t"
  by (simp_all add: tx_only_def tx_erase_def)

lemma tx_only_trans: "tx_only s t \<Longrightarrow> tx_only t u \<Longrightarrow> tx_only s u"
  by (simp add: tx_only_def)

lemma spin_txff_ok: "uart_tx_busy s < n \<Longrightarrow> spin_txff n s = Inr (Some (), s\<lparr>uart_tx_busy := 0\<rparr>)"
proof (induction n arbitrary: s)
  case (Suc n)
  show ?case
  proof (cases "uart_tx_busy s")
    case 0
    then show ?thesis
      by (simp add: run_simps read_uartfr_def uart_flags_def UARTFR_TXFF_def UARTFR_RXFE_def)
  next
    case (Suc m)
    then show ?thesis using Suc.IH[of "s\<lparr>uart_tx_busy := m\<rparr>"] Suc.prems
      by (simp add: run_simps read_uartfr_def uart_flags_def UARTFR_TXFF_def UARTFR_RXFE_def)
  qed
qed simp

lemma write_byte_ok: "write_byte b s = Inr ((), s\<lparr>uart_tx_busy := 0, uart_tx := uart_tx s @ [b]\<rparr>)"
  using spin_txff_ok[of s "Suc (uart_tx_busy s)"] by (simp add: write_byte_def run_simps del: spin_txff.simps)

definition crlf :: "u8 list \<Rightarrow> u8 list" where
  "crlf bs = concat (map (\<lambda>b. if b = 0x0A then [0x0D, 0x0A] else [b]) bs)"

lemma uart_write_str_ok:
  "wp (uart_write_str bs) (\<lambda>_ t. uart_tx t = uart_tx s @ crlf bs \<and> tx_only s t) s"
proof -
  have "wp (uart_write_str bs) (\<lambda>_ t. uart_tx t = uart_tx s @ crlf bs \<and> tx_only s t) s"
    unfolding uart_write_str_def
  proof (rule wp_for[where I = "\<lambda>pre t. uart_tx t = uart_tx s @ crlf pre \<and> tx_only s t"])
    show "wp (k_bind (k_when (b = 0x0A) (write_byte 0x0D)) (\<lambda>_. write_byte b))
        (\<lambda>_ t. uart_tx t = uart_tx s @ crlf (pre @ [b]) \<and> tx_only s t) t"
      if "uart_tx t = uart_tx s @ crlf pre \<and> tx_only s t" for pre b t
      using that by (auto simp: wp_def run_simps write_byte_ok crlf_def)
  qed (simp add: crlf_def)
  then show ?thesis .
qed

text \<open>What \<^verbatim>\<open>write_str\<close> transmits.\<close>

theorem uart_write_str_crlf:
  "wp (uart_write_str bs) (\<lambda>_ t. uart_tx t = uart_tx s @ crlf bs \<and>
     uart_rx t = uart_rx s \<and> INPUT t = INPUT s \<and> uart_imsc t = uart_imsc s \<and> mem t = mem s) s"
  using uart_write_str_ok[of bs s]
proof (rule wp_mono, elim conjE)
  fix u t assume "tx_only s t"
  then have e: "tx_erase t = tx_erase s" by (simp add: tx_only_def)
  from arg_cong[OF e, of uart_rx] arg_cong[OF e, of INPUT] arg_cong[OF e, of uart_imsc] arg_cong[OF e, of mem]
  show "uart_tx t = uart_tx s @ crlf bs \<Longrightarrow> uart_tx t = uart_tx s @ crlf bs \<and>
     uart_rx t = uart_rx s \<and> INPUT t = INPUT s \<and> uart_imsc t = uart_imsc s \<and> mem t = mem s"
    by (simp add: tx_erase_def)
qed

section \<open>Instances\<close>

definition off_console :: console_state where
  "off_console = heap_state.extend off_heap
     \<lparr>uart_rx = [], uart_tx = [], uart_tx_busy = 0, uart_imsc = 0, INPUT = InputBuf_init\<rparr>"

theorem console_no_byte_lost_witness:
  "\<exists>s :: console_state. console_run [0x61, 0x62] [] s \<and> input_content (INPUT s) @ uart_rx s = [0x61, 0x62] \<and>
     uart_imsc s = RXIM"
proof -
  let ?s0 = "off_console\<lparr>uart_imsc := RXIM\<rparr>"
  have "console_run [] [] ?s0"
    by (rule console_run.boot[of off_console])
      (simp_all add: off_console_def heap_state.defs set_rx_irq_def run_simps)
  then have run: "console_run [0x61] [] (?s0\<lparr>uart_rx := [0x61]\<rparr>)" (is "console_run _ _ ?s1")
    using console_run.key[of "[]" "[]" ?s0 "0x61"] by (simp add: off_console_def heap_state.defs)
  then have "input_inv (INPUT ?s1)" using console_run_inv[OF run] by (simp only: console_inv_def)
  from drain_uart_ok[OF this] obtain t where t: "drain_uart ?s1 = Inr ((), t)" by (auto simp: wp_iff)
  let ?t = "t\<lparr>uart_rx := uart_rx t @ [0x62]\<rparr>"
  have run2: "console_run [0x61, 0x62] [] ?t"
    using console_run.key[OF console_run.rx_irq[OF run t], of "0x62"] by simp
  note c = console_no_byte_lost[OF run2]
  have "length (input_content (INPUT t)) \<le> 2" using arg_cong[OF conjunct1[OF c], of length] by simp
  moreover have "input_inv (INPUT t)" using console_run_inv[OF run2] by (simp add: console_inv_def)
  ultimately have "\<not> input_is_full (INPUT t)" by (simp add: input_full_iff input_content_length)
  then show ?thesis using c run2 by (intro exI[of _ ?t]) simp
qed


end
