(* ===== verification/Sched.thy ===== *)
theory Sched
  imports Console
begin

unbundle bit_operations_syntax

text \<open>
  The timer of \<^verbatim>\<open>kernel/src/timer.rs\<close>, the scheduler of \<^verbatim>\<open>kernel/src/sched.rs\<close> and the
  context switch of \<^verbatim>\<open>kernel/src/switch.s\<close>. Kernel stacks are memory of their own
  (\<open>kstack\<close>, by virtual address: the heap window, shown in \<open>Heap\<close> to be mapped onto frames
  that nothing else uses, and the boot stack). A call of \<^verbatim>\<open>schedule()\<close> ends here with the
  switch: what the source runs after it runs when the thread is scheduled again, so the
  operations that call it return the interrupt mask to restore at that time.
\<close>

section \<open>The timer\<close>

definition TIMER_INTID :: u32 where "TIMER_INTID = 30"
definition TICK_HZ :: u64 where "TICK_HZ = 100"

datatype State = Runnable | Blocked | Exited

record Task =
  task_sp :: usize
  task_state :: State
  wake_at :: u64
  task_process :: "nat option"
  task_ttbr0 :: "u64 option"

record Scheduler =
  tasks :: "Task list"
  current :: nat

record sched_state = console_state +
  cntfrq_el0 :: u64
  cntp_tval_el0 :: u64
  cntp_ctl_el0 :: u64
  FREQ :: u64
  TICKS :: u64
  SCHEDULER :: Scheduler
  xreg :: "nat \<Rightarrow> u64"
  sp :: usize
  kstack :: memory

definition ticks :: "('a sched_state_scheme, u64) kfn" where
  "ticks = k_gets TICKS"

definition interval :: "('a sched_state_scheme, u64) kfn" where
  "interval = k_gets (\<lambda>s. FREQ s div TICK_HZ)"

definition timer_init :: "('a sched_state_scheme, unit) kfn" where
  "timer_init =
     k_bind (k_gets cntfrq_el0) (\<lambda>freq.
     k_bind (k_modify (\<lambda>s. s\<lparr>FREQ := freq\<rparr>)) (\<lambda>_.
     k_modify (\<lambda>s. s\<lparr>cntp_tval_el0 := freq div TICK_HZ, cntp_ctl_el0 := 1\<rparr>)))"

definition on_tick :: "('a sched_state_scheme, unit) kfn" where
  "on_tick =
     k_bind (k_modify (\<lambda>s. s\<lparr>TICKS := TICKS s + 1\<rparr>)) (\<lambda>_.
     k_bind interval (\<lambda>tval.
     k_modify (\<lambda>s. s\<lparr>cntp_tval_el0 := tval\<rparr>)))"

section \<open>The context switch\<close>

text \<open>\<^verbatim>\<open>stp xa, xb, [sp, #-16]!\<close> and \<^verbatim>\<open>ldp xa, xb, [sp], #16\<close>.\<close>

definition stp_push :: "nat \<times> nat \<Rightarrow> ('a sched_state_scheme, unit) kfn" where
  "stp_push = (\<lambda>(a, b). k_modify (\<lambda>s. s\<lparr>sp := sp s - 16,
     kstack := (kstack s)(sp s - 16 := xreg s a, sp s - 16 + 8 := xreg s b)\<rparr>))"

definition ldp_pop :: "nat \<times> nat \<Rightarrow> ('a sched_state_scheme, unit) kfn" where
  "ldp_pop = (\<lambda>(a, b). k_modify (\<lambda>s. s\<lparr>sp := sp s + 16,
     xreg := (xreg s)(a := kstack s (sp s), b := kstack s (sp s + 8))\<rparr>))"

definition saved_pairs :: "(nat \<times> nat) list" where
  "saved_pairs = [(19, 20), (21, 22), (23, 24), (25, 26), (27, 28), (29, 30)]"

definition set_task :: "nat \<Rightarrow> (Task \<Rightarrow> Task) \<Rightarrow> Scheduler \<Rightarrow> Scheduler" where
  "set_task i f s = s\<lparr>tasks := (tasks s)[i := f (tasks s ! i)]\<rparr>"

text \<open>\<open>prev\<close> is the index of the task whose \<^verbatim>\<open>sp\<close> field the first argument points to.\<close>

definition context_switch :: "nat \<Rightarrow> usize \<Rightarrow> ('a sched_state_scheme, unit) kfn" where
  "context_switch prev next_sp =
     k_bind (k_for saved_pairs stp_push) (\<lambda>_.
     k_bind (k_modify (\<lambda>s. s\<lparr>SCHEDULER := set_task prev (\<lambda>t. t\<lparr>task_sp := sp s\<rparr>) (SCHEDULER s)\<rparr>)) (\<lambda>_.
     k_bind (k_modify (\<lambda>s. s\<lparr>sp := next_sp\<rparr>)) (\<lambda>_.
     k_for (rev saved_pairs) ldp_pop)))"

text \<open>What the trampoline calls: the entry function and its argument.\<close>

definition task_trampoline :: "('a sched_state_scheme, usize \<times> usize) kfn" where
  "task_trampoline = k_bind irq_enable (\<lambda>_. k_gets (\<lambda>s. (xreg s 19, xreg s 20)))"

section \<open>The scheduler\<close>

definition STACK_SIZE :: usize where "STACK_SIZE = 16 * 1024"
definition CONTEXT_REGS :: nat where "CONTEXT_REGS = 12"

definition push_task :: "Task \<Rightarrow> ('a sched_state_scheme, unit) kfn" where
  "push_task t = without_irqs (k_modify (\<lambda>s.
     s\<lparr>SCHEDULER := (SCHEDULER s)\<lparr>tasks := tasks (SCHEDULER s) @ [t]\<rparr>\<rparr>))"

definition sched_init :: "('a sched_state_scheme, unit) kfn" where
  "sched_init = push_task \<lparr>task_sp = 0, task_state = Runnable, wake_at = 0, task_process = None, task_ttbr0 = None\<rparr>"

definition write_kstack :: "usize \<Rightarrow> u64 \<Rightarrow> ('a sched_state_scheme, unit) kfn" where
  "write_kstack a v = k_modify (\<lambda>s. s\<lparr>kstack := (kstack s)(a := v)\<rparr>)"

text \<open>
  \<open>trampoline\<close> is the address of \<^verbatim>\<open>task_trampoline\<close>. \<^verbatim>\<open>vec![0u8; STACK_SIZE]\<close> allocates and
  zeroes; a null pointer ends in the allocation-error handler, which panics.
\<close>

definition spawn_inner :: "usize \<Rightarrow> usize \<Rightarrow> usize \<Rightarrow> nat option \<Rightarrow> u64 option \<Rightarrow> ('a sched_state_scheme, unit) kfn" where
  "spawn_inner trampoline entry arg process ttbr0 =
     k_bind (heap_alloc STACK_SIZE 1) (\<lambda>r.
     k_bind (k_expect ''memory allocation failed'' r) (\<lambda>stack.
     k_bind (k_modify (\<lambda>s. s\<lparr>kstack := memset stack 0 STACK_SIZE (kstack s)\<rparr>)) (\<lambda>_.
     k_bind (k_add stack STACK_SIZE) (\<lambda>limit.
     let stop = limit AND NOT 0xF; ctx = stop - of_nat CONTEXT_REGS * 8 in
     k_bind (k_for [0..<CONTEXT_REGS] (\<lambda>i. write_kstack (ctx + 8 * of_nat i) 0)) (\<lambda>_.
     k_bind (write_kstack (ctx + 8 * 1) trampoline) (\<lambda>_.
     k_bind (write_kstack (ctx + 8 * 10) entry) (\<lambda>_.
     k_bind (write_kstack (ctx + 8 * 11) arg) (\<lambda>_.
     push_task \<lparr>task_sp = ctx, task_state = Runnable, wake_at = 0, task_process = process, task_ttbr0 = ttbr0\<rparr>))))))))"

definition sched_spawn :: "usize \<Rightarrow> usize \<Rightarrow> usize \<Rightarrow> ('a sched_state_scheme, unit) kfn" where
  "sched_spawn trampoline entry arg = spawn_inner trampoline entry arg None None"

definition spawn_user :: "usize \<Rightarrow> usize \<Rightarrow> usize \<Rightarrow> nat \<Rightarrow> u64 \<Rightarrow> ('a sched_state_scheme, unit) kfn" where
  "spawn_user trampoline entry arg process ttbr0 = spawn_inner trampoline entry arg (Some process) (Some ttbr0)"

definition any_worker_alive :: "('a sched_state_scheme, bool) kfn" where
  "any_worker_alive = without_irqs (k_gets (\<lambda>s.
     \<exists>t \<in> set (drop 1 (tasks (SCHEDULER s))). task_state t \<noteq> Exited))"

text \<open>The loop \<^verbatim>\<open>for i in 1..=n\<close> with its \<^verbatim>\<open>break\<close>.\<close>

fun find_next :: "Task list \<Rightarrow> nat \<Rightarrow> nat list \<Rightarrow> nat" where
  "find_next ts cur [] = cur"
| "find_next ts cur (i # is) =
     (let cand = (cur + i) mod length ts in
      if task_state (ts ! cand) = Runnable then cand else find_next ts cur is)"

definition schedule :: "('a sched_state_scheme, unit) kfn" where
  "schedule =
     k_bind (k_gets SCHEDULER) (\<lambda>s.
     let cur = current s; n = length (tasks s); next = find_next (tasks s) cur [1..<n + 1] in
     if next = cur then k_return ()
     else
       k_bind (k_modify (\<lambda>st. st\<lparr>SCHEDULER := s\<lparr>current := next\<rparr>\<rparr>)) (\<lambda>_.
       k_bind (k_index (tasks s) cur) (\<lambda>_.
       k_bind (k_index (tasks s) next) (\<lambda>t.
       k_bind (case task_ttbr0 t of None \<Rightarrow> k_return () | Some ttbr0 \<Rightarrow> activate ttbr0) (\<lambda>_.
       context_switch cur (task_sp t))))))"

definition yield_now :: "('a sched_state_scheme, u64) kfn" where
  "yield_now = k_bind irq_disable (\<lambda>d. k_bind schedule (\<lambda>_. k_return d))"

definition current_task :: "('a sched_state_scheme, nat) kfn" where
  "current_task = without_irqs (k_gets (\<lambda>s. current (SCHEDULER s)))"

definition current_process :: "('a sched_state_scheme, nat option) kfn" where
  "current_process = without_irqs (
     k_bind (k_gets SCHEDULER) (\<lambda>s.
     k_bind (k_index (tasks s) (current s)) (\<lambda>t.
     k_return (task_process t))))"

text \<open>\<open>update_task i f\<close>: an assignment to fields of \<^verbatim>\<open>s.tasks[i]\<close>.\<close>

definition update_task :: "nat \<Rightarrow> (Task \<Rightarrow> Task) \<Rightarrow> ('a sched_state_scheme, unit) kfn" where
  "update_task i f =
     k_bind (k_gets (\<lambda>s. tasks (SCHEDULER s))) (\<lambda>ts.
     k_bind (k_index ts i) (\<lambda>t.
     k_modify (\<lambda>s. s\<lparr>SCHEDULER := set_task i f (SCHEDULER s)\<rparr>)))"

definition block_current :: "('a sched_state_scheme, u64) kfn" where
  "block_current =
     k_bind irq_disable (\<lambda>d.
     k_bind (k_gets (\<lambda>s. current (SCHEDULER s))) (\<lambda>cur.
     k_bind (update_task cur (\<lambda>t. t\<lparr>wake_at := - 1, task_state := Blocked\<rparr>)) (\<lambda>_.
     k_bind schedule (\<lambda>_.
     k_return d))))"

definition wake :: "nat \<Rightarrow> ('a sched_state_scheme, unit) kfn" where
  "wake task = without_irqs (
     update_task task (\<lambda>t. if task_state t = Blocked then t\<lparr>task_state := Runnable\<rparr> else t))"

definition sleep_ticks :: "u64 \<Rightarrow> ('a sched_state_scheme, u64) kfn" where
  "sleep_ticks n =
     k_bind irq_disable (\<lambda>d.
     k_bind (k_gets (\<lambda>s. current (SCHEDULER s))) (\<lambda>cur.
     k_bind ticks (\<lambda>now.
     k_bind (k_add now n) (\<lambda>due.
     k_bind (update_task cur (\<lambda>t. t\<lparr>wake_at := due, task_state := Blocked\<rparr>)) (\<lambda>_.
     k_bind schedule (\<lambda>_.
     k_return d))))))"

definition wake_sleepers :: "u64 \<Rightarrow> ('a sched_state_scheme, unit) kfn" where
  "wake_sleepers now = k_modify (\<lambda>s. s\<lparr>SCHEDULER := (SCHEDULER s)\<lparr>tasks :=
     map (\<lambda>t. if task_state t = Blocked \<and> wake_at t \<le> now then t\<lparr>task_state := Runnable\<rparr> else t)
       (tasks (SCHEDULER s))\<rparr>\<rparr>)"

definition sched_tick :: "('a sched_state_scheme, unit) kfn" where
  "sched_tick = k_bind ticks (\<lambda>now. k_bind (wake_sleepers now) (\<lambda>_. schedule))"

definition task_exit :: "('a sched_state_scheme, unit) kfn" where
  "task_exit =
     k_bind irq_disable (\<lambda>_.
     k_bind (k_gets (\<lambda>s. current (SCHEDULER s))) (\<lambda>cur.
     k_bind (update_task cur (\<lambda>t. t\<lparr>task_state := Exited\<rparr>)) (\<lambda>_.
     schedule)))"

definition exit_current :: "('a sched_state_scheme, unit) kfn" where
  "exit_current = task_exit"

section \<open>What a switch does\<close>

text \<open>
  The twelve saved registers lie at \<open>p - 96\<close> upwards, in the order of \<open>ctx_regs\<close>, when
  the stack pointer was \<open>p\<close>.
\<close>

definition ctx_regs :: "nat list" where
  "ctx_regs = [29, 30, 27, 28, 25, 26, 23, 24, 21, 22, 19, 20]"

definition save_ctx :: "(nat \<Rightarrow> u64) \<Rightarrow> usize \<Rightarrow> memory \<Rightarrow> memory" where
  "save_ctx x p m = m(p - 16 := x 19, p - 8 := x 20, p - 32 := x 21, p - 24 := x 22, p - 48 := x 23, p - 40 := x 24,
     p - 64 := x 25, p - 56 := x 26, p - 80 := x 27, p - 72 := x 28, p - 96 := x 29, p - 88 := x 30)"

definition load_ctx :: "memory \<Rightarrow> usize \<Rightarrow> (nat \<Rightarrow> u64) \<Rightarrow> nat \<Rightarrow> u64" where
  "load_ctx m q x = x(29 := m q, 30 := m (q + 8), 27 := m (q + 16), 28 := m (q + 24), 25 := m (q + 32), 26 := m (q + 40),
     23 := m (q + 48), 24 := m (q + 56), 21 := m (q + 64), 22 := m (q + 72), 19 := m (q + 80), 20 := m (q + 88))"

lemma stp_push_step: "stp_push (a, b) (s\<lparr>sp := p, kstack := m\<rparr>) =
    Inr ((), s\<lparr>sp := p - 16, kstack := m(p - 16 := xreg s a, p - 8 := xreg s b)\<rparr>)"
  by (simp add: stp_push_def run_simps)

lemma ldp_pop_step: "ldp_pop (a, b) (s\<lparr>sp := p, xreg := x\<rparr>) =
    Inr ((), s\<lparr>sp := p + 16, xreg := x(a := kstack s p, b := kstack s (p + 8))\<rparr>)"
  by (simp add: ldp_pop_def run_simps)

lemma save_loop: "k_for saved_pairs stp_push s = Inr ((), s\<lparr>sp := sp s - 96, kstack := save_ctx (xreg s) (sp s) (kstack s)\<rparr>)"
proof -
  have "k_for saved_pairs stp_push (s\<lparr>sp := p, kstack := m\<rparr>) =
      Inr ((), s\<lparr>sp := p - 96, kstack := save_ctx (xreg s) p m\<rparr>)" for p m
    by (simp only: saved_pairs_def k_for.simps run_bind stp_push_step run_return sum.case prod.case)
      (simp add: save_ctx_def)
  from this[where p = "sp s" and m = "kstack s"] show ?thesis by simp
qed

lemma load_loop: "k_for (rev saved_pairs) ldp_pop s = Inr ((), s\<lparr>sp := sp s + 96, xreg := load_ctx (kstack s) (sp s) (xreg s)\<rparr>)"
proof -
  have "k_for (rev saved_pairs) ldp_pop (s\<lparr>sp := p, xreg := x\<rparr>) =
      Inr ((), s\<lparr>sp := p + 96, xreg := load_ctx (kstack s) p x\<rparr>)" for p x
    by (simp only: saved_pairs_def rev.simps append.simps k_for.simps run_bind ldp_pop_step run_return sum.case prod.case)
      (simp add: load_ctx_def add.commute)
  from this[where p = "sp s" and x = "xreg s"] show ?thesis by simp
qed

lemma context_switch_eq:
  "context_switch prev q s = Inr ((), s\<lparr>kstack := save_ctx (xreg s) (sp s) (kstack s),
     SCHEDULER := set_task prev (\<lambda>t. t\<lparr>task_sp := sp s - 96\<rparr>) (SCHEDULER s),
     xreg := load_ctx (save_ctx (xreg s) (sp s) (kstack s)) q (xreg s), sp := q + 96\<rparr>)"
  by (simp add: context_switch_def run_simps save_loop load_loop)

lemma save_ctx_load: "load_ctx (save_ctx x p m) (p - 96) y r = (if r \<in> set ctx_regs then x r else y r)"
  by (simp add: load_ctx_def save_ctx_def ctx_regs_def)


text \<open>The twelve addresses of a saved context.\<close>

definition ctx_addr :: "usize \<Rightarrow> nat \<Rightarrow> usize" where
  "ctx_addr q i = q + 8 * of_nat i"

lemma save_ctx_outside:
  "(\<And>i. i < 12 \<Longrightarrow> a \<noteq> ctx_addr (p - 96) i) \<Longrightarrow> save_ctx x p m a = m a"
proof -
  assume "\<And>i :: nat. i < 12 \<Longrightarrow> a \<noteq> ctx_addr (p - 96) i"
  then have o: "\<And>i :: nat. i < 12 \<Longrightarrow> a \<noteq> p - 96 + 8 * of_nat i" by (simp add: ctx_addr_def)
  have "a \<noteq> p - 96" "a \<noteq> p - 88" "a \<noteq> p - 80" "a \<noteq> p - 72" "a \<noteq> p - 64" "a \<noteq> p - 56"
    "a \<noteq> p - 48" "a \<noteq> p - 40" "a \<noteq> p - 32" "a \<noteq> p - 24" "a \<noteq> p - 16" "a \<noteq> p - 8"
    using o[of 0] o[of 1] o[of 2] o[of 3] o[of 4] o[of 5] o[of 6] o[of 7] o[of 8] o[of 9] o[of 10] o[of 11] by simp_all
  then show ?thesis by (simp add: save_ctx_def)
qed

lemma activate_total:
  "\<exists>r' i T. activate r s = Inr ((), s\<lparr>ttbr0_el1 := r', INSTALLED := i, tlb := T\<rparr>)"
proof (cases "INSTALLED s = r")
  case True
  then have "activate r s = Inr ((), s)"
    by (simp add: activate_def without_irqs_def irq_disable_def irq_restore_def run_simps)
  moreover have "s = s\<lparr>ttbr0_el1 := ttbr0_el1 s, INSTALLED := INSTALLED s, tlb := tlb s\<rparr>" by simp
  ultimately show ?thesis by metis
next
  case False
  then have "activate r s = Inr ((), s\<lparr>ttbr0_el1 := r, INSTALLED := r, tlb := Map.empty\<rparr>)"
    by (simp add: activate_def without_irqs_def irq_disable_def irq_restore_def tlbi_vmalle1_def run_simps)
  then show ?thesis by blast
qed

section \<open>Which task runs next\<close>

definition runnable :: "Task list \<Rightarrow> nat \<Rightarrow> bool" where
  "runnable ts i \<longleftrightarrow> task_state (ts ! i) = Runnable"

lemma find_next_upt:
  "find_next ts cur [a..<b] = cur \<and> (\<forall>k \<in> {a..<b}. \<not> runnable ts ((cur + k) mod length ts)) \<or>
   (\<exists>i \<in> {a..<b}. find_next ts cur [a..<b] = (cur + i) mod length ts \<and> runnable ts ((cur + i) mod length ts) \<and>
      (\<forall>k \<in> {a..<i}. \<not> runnable ts ((cur + k) mod length ts)))"
proof (induction "b - a" arbitrary: a)
  case 0
  then show ?case by simp
next
  case (Suc n)
  then have u: "[a..<b] = a # [Suc a..<b]" and ab: "a < b" by (simp_all add: upt_rec)
  have r: "{a..<b} = insert a {Suc a..<b}" and ri: "\<And>i. i \<in> {Suc a..<b} \<Longrightarrow> {a..<i} = insert a {Suc a..<i}" using ab by auto
  show ?case
  proof (cases "runnable ts ((cur + a) mod length ts)")
    case True
    then show ?thesis unfolding u using ab by (auto simp: runnable_def intro!: bexI[of _ a])
  next
    case False
    then have e: "find_next ts cur [a..<b] = find_next ts cur [Suc a..<b]" unfolding u by (simp add: runnable_def)
    have "n = b - Suc a" using Suc.hyps(2) by simp
    from Suc.hyps(1)[OF this] show ?thesis
    proof (elim disjE conjE bexE)
      fix i assume i: "i \<in> {Suc a..<b}" "find_next ts cur [Suc a..<b] = (cur + i) mod length ts"
        "runnable ts ((cur + i) mod length ts)" "\<forall>k \<in> {Suc a..<i}. \<not> runnable ts ((cur + k) mod length ts)"
      then show ?thesis unfolding e using ri[OF i(1)] False r by (intro disjI2 bexI[of _ i]) auto
    qed (use e r False in auto)
  qed
qed

text \<open>
  The chosen task is the first runnable one in cyclic order after the current task, which
  itself comes last.
\<close>

definition picks :: "Task list \<Rightarrow> nat \<Rightarrow> nat \<Rightarrow> bool" where
  "picks ts cur next \<longleftrightarrow> (\<exists>i \<in> {1..length ts}. next = (cur + i) mod length ts \<and> runnable ts next \<and>
     (\<forall>k \<in> {1..<i}. \<not> runnable ts ((cur + k) mod length ts)))"

definition next_task :: "Task list \<Rightarrow> nat \<Rightarrow> nat" where
  "next_task ts cur = find_next ts cur [1..<length ts + 1]"

lemma cyclic_index:
  fixes n :: nat assumes "cur < n" "j < n" shows "\<exists>i \<in> {1..n}. j = (cur + i) mod n"
proof (cases "cur < j")
  case True
  then show ?thesis using assms by (intro bexI[of _ "j - cur"]) auto
next
  case False
  then have "(cur + (n + j - cur)) mod n = j" using assms by simp
  then show ?thesis using False assms by (intro bexI[of _ "n + j - cur"]) auto
qed

lemma next_task_picks:
  assumes "cur < length ts" "j < length ts" "runnable ts j"
  shows "picks ts cur (next_task ts cur)" and "next_task ts cur < length ts"
proof -
  obtain i where i: "i \<in> {1..<length ts + 1}" "j = (cur + i) mod length ts"
    using cyclic_index[OF assms(1,2)] by (auto simp: less_Suc_eq_le)
  then have "\<not> (\<forall>k \<in> {1..<length ts + 1}. \<not> runnable ts ((cur + k) mod length ts))" using assms(3) by blast
  with find_next_upt[of ts cur 1 "length ts + 1"]
  show p: "picks ts cur (next_task ts cur)" unfolding picks_def next_task_def by force
  then show "next_task ts cur < length ts" using assms by (auto simp: picks_def intro!: mod_less_divisor)
qed

text \<open>What a call of \<^verbatim>\<open>schedule\<close> does to the task table: only stack pointers move.\<close>

definition same_tasks :: "Task list \<Rightarrow> Task list \<Rightarrow> bool" where
  "same_tasks ts us \<longleftrightarrow> map (\<lambda>t. t\<lparr>task_sp := 0\<rparr>) us = map (\<lambda>t. t\<lparr>task_sp := 0\<rparr>) ts"

lemma same_tasks_refl [simp]: "same_tasks ts ts"
  by (simp add: same_tasks_def)

lemma same_tasks_length: "same_tasks ts us \<Longrightarrow> length us = length ts"
  unfolding same_tasks_def by (metis length_map)

lemma same_tasks_nth:
  assumes "same_tasks ts us" "i < length ts"
  shows "task_state (us ! i) = task_state (ts ! i)" "wake_at (us ! i) = wake_at (ts ! i)"
    "task_process (us ! i) = task_process (ts ! i)" "task_ttbr0 (us ! i) = task_ttbr0 (ts ! i)"
proof -
  have "map (\<lambda>t. t\<lparr>task_sp := 0\<rparr>) us ! i = map (\<lambda>t. t\<lparr>task_sp := 0\<rparr>) ts ! i"
    using assms(1) by (simp add: same_tasks_def)
  then have e: "(us ! i)\<lparr>task_sp := 0\<rparr> = (ts ! i)\<lparr>task_sp := 0\<rparr>" using assms same_tasks_length by simp
  show "task_state (us ! i) = task_state (ts ! i)" "wake_at (us ! i) = wake_at (ts ! i)"
    "task_process (us ! i) = task_process (ts ! i)" "task_ttbr0 (us ! i) = task_ttbr0 (ts ! i)"
    using arg_cong[OF e, of task_state] arg_cong[OF e, of wake_at] arg_cong[OF e, of task_process]
      arg_cong[OF e, of task_ttbr0] by simp_all
qed

lemma same_tasks_set_sp: "same_tasks ts (ts[i := (ts ! i)\<lparr>task_sp := p\<rparr>])"
proof -
  have "map (\<lambda>t. t\<lparr>task_sp := 0\<rparr>) (ts[i := (ts ! i)\<lparr>task_sp := p\<rparr>]) = map (\<lambda>t. t\<lparr>task_sp := 0\<rparr>) ts"
    by (cases "i < length ts") (auto simp: nth_list_update list_update_beyond intro!: nth_equalityI)
  then show ?thesis by (simp add: same_tasks_def)
qed

text \<open>The state after the switch, as a function of the one before.\<close>

lemma schedule_stay:
  assumes "next_task (tasks (SCHEDULER s)) (current (SCHEDULER s)) = current (SCHEDULER s)"
  shows "schedule s = Inr ((), s)"
  using assms by (simp add: schedule_def run_simps Let_def next_task_def)

lemma schedule_switch:
  assumes nx: "next_task (tasks (SCHEDULER s)) (current (SCHEDULER s)) = next" "next \<noteq> current (SCHEDULER s)"
    and len: "current (SCHEDULER s) < length (tasks (SCHEDULER s))" "next < length (tasks (SCHEDULER s))"
  obtains r i T where "schedule s = Inr ((), s\<lparr>ttbr0_el1 := r, INSTALLED := i, tlb := T,
      kstack := save_ctx (xreg s) (sp s) (kstack s),
      SCHEDULER := set_task (current (SCHEDULER s)) (\<lambda>t. t\<lparr>task_sp := sp s - 96\<rparr>) ((SCHEDULER s)\<lparr>current := next\<rparr>),
      xreg := load_ctx (save_ctx (xreg s) (sp s) (kstack s)) (task_sp (tasks (SCHEDULER s) ! next)) (xreg s),
      sp := task_sp (tasks (SCHEDULER s) ! next) + 96\<rparr>)"
proof -
  let ?t = "tasks (SCHEDULER s) ! next" and ?s1 = "s\<lparr>SCHEDULER := (SCHEDULER s)\<lparr>current := next\<rparr>\<rparr>"
  have "\<exists>r i T. (case task_ttbr0 ?t of None \<Rightarrow> k_return () | Some ttbr0 \<Rightarrow> activate ttbr0) ?s1 =
      Inr ((), ?s1\<lparr>ttbr0_el1 := r, INSTALLED := i, tlb := T\<rparr>)"
  proof (cases "task_ttbr0 ?t")
    case None
    then show ?thesis
      by (intro exI[of _ "ttbr0_el1 s"] exI[of _ "INSTALLED s"] exI[of _ "tlb s"]) (simp add: run_simps)
  next
    case (Some a)
    then show ?thesis using activate_total[of a ?s1] by simp
  qed
  then obtain r i T where a: "(case task_ttbr0 ?t of None \<Rightarrow> k_return () | Some ttbr0 \<Rightarrow> activate ttbr0) ?s1 =
      Inr ((), ?s1\<lparr>ttbr0_el1 := r, INSTALLED := i, tlb := T\<rparr>)" by blast
  show ?thesis
    by (rule that[where r = r and i = i and T = T]) (use nx len a in \<open>simp add: schedule_def run_simps Let_def next_task_def context_switch_eq\<close>)
qed


definition sched_ok :: "Scheduler \<Rightarrow> bool" where
  "sched_ok sch \<longleftrightarrow> current sch < length (tasks sch)"

lemma schedule_ok:
  assumes ok: "sched_ok (SCHEDULER s)" and j: "j < length (tasks (SCHEDULER s))" "runnable (tasks (SCHEDULER s)) j"
  shows "wp schedule (\<lambda>_ t. sched_ok (SCHEDULER t) \<and>
    picks (tasks (SCHEDULER s)) (current (SCHEDULER s)) (current (SCHEDULER t)) \<and>
    same_tasks (tasks (SCHEDULER s)) (tasks (SCHEDULER t)) \<and> TICKS t = TICKS s \<and> daif t = daif s) s"
proof -
  let ?ts = "tasks (SCHEDULER s)" and ?cur = "current (SCHEDULER s)"
  have cur: "?cur < length ?ts" using ok by (simp add: sched_ok_def)
  note p = next_task_picks[OF cur j]
  show ?thesis
  proof (cases "next_task ?ts ?cur = ?cur")
    case True
    with p ok show ?thesis by (simp add: wp_def schedule_stay)
  next
    case False
    from schedule_switch[OF refl False cur p(2)] obtain r i T where
      "schedule s = Inr ((), s\<lparr>ttbr0_el1 := r, INSTALLED := i, tlb := T,
        kstack := save_ctx (xreg s) (sp s) (kstack s),
        SCHEDULER := set_task ?cur (\<lambda>t. t\<lparr>task_sp := sp s - 96\<rparr>) ((SCHEDULER s)\<lparr>current := next_task ?ts ?cur\<rparr>),
        xreg := load_ctx (save_ctx (xreg s) (sp s) (kstack s)) (task_sp (?ts ! next_task ?ts ?cur)) (xreg s),
        sp := task_sp (?ts ! next_task ?ts ?cur) + 96\<rparr>)" .
    with p show ?thesis by (simp add: wp_def set_task_def same_tasks_set_sp sched_ok_def)
  qed
qed

text \<open>
  C30. schedule never panics, makes the first runnable task in cyclic order the current one,
  never a blocked or exited one, and changes no task state.
\<close>

theorem schedule_runs_next_runnable:
  assumes "sched_ok (SCHEDULER s)" and "j < length (tasks (SCHEDULER s))" and "runnable (tasks (SCHEDULER s)) j"
  shows "wp schedule (\<lambda>_ t. current (SCHEDULER t) < length (tasks (SCHEDULER t)) \<and>
    task_state (tasks (SCHEDULER t) ! current (SCHEDULER t)) = Runnable \<and>
    picks (tasks (SCHEDULER s)) (current (SCHEDULER s)) (current (SCHEDULER t)) \<and>
    (\<forall>i. i < length (tasks (SCHEDULER s)) \<longrightarrow>
      task_state (tasks (SCHEDULER t) ! i) = task_state (tasks (SCHEDULER s) ! i))) s"
  using schedule_ok[OF assms]
proof (rule wp_mono, elim conjE)
  fix u t assume ok: "sched_ok (SCHEDULER t)" and p: "picks (tasks (SCHEDULER s)) (current (SCHEDULER s)) (current (SCHEDULER t))"
    and same: "same_tasks (tasks (SCHEDULER s)) (tasks (SCHEDULER t))"
  have len: "length (tasks (SCHEDULER t)) = length (tasks (SCHEDULER s))" by (rule same_tasks_length[OF same])
  have st: "task_state (tasks (SCHEDULER t) ! i) = task_state (tasks (SCHEDULER s) ! i)"
    if "i < length (tasks (SCHEDULER s))" for i using same_tasks_nth(1)[OF same that] .
  show "current (SCHEDULER t) < length (tasks (SCHEDULER t)) \<and>
    task_state (tasks (SCHEDULER t) ! current (SCHEDULER t)) = Runnable \<and>
    picks (tasks (SCHEDULER s)) (current (SCHEDULER s)) (current (SCHEDULER t)) \<and>
    (\<forall>i. i < length (tasks (SCHEDULER s)) \<longrightarrow>
      task_state (tasks (SCHEDULER t) ! i) = task_state (tasks (SCHEDULER s) ! i))"
    using ok p st len by (auto simp: sched_ok_def picks_def runnable_def)
qed

section \<open>Bounded waiting\<close>

text \<open>
  \<open>waits j k s t\<close>: from \<open>s\<close> to \<open>t\<close> there were \<open>k\<close> calls of \<^verbatim>\<open>schedule\<close>, none of which
  chose task \<open>j\<close>, although it was runnable each time. Between two calls the running task
  does anything that keeps the current task and the number of tasks: sleep, block, exit,
  wake others, take interrupts.
\<close>

inductive waits :: "nat \<Rightarrow> nat \<Rightarrow> 'a sched_state_scheme \<Rightarrow> 'a sched_state_scheme \<Rightarrow> bool" for j where
  start: "waits j 0 s s"
| other: "waits j k s t \<Longrightarrow> current (SCHEDULER u) = current (SCHEDULER t) \<Longrightarrow>
    length (tasks (SCHEDULER u)) = length (tasks (SCHEDULER t)) \<Longrightarrow> waits j k s u"
| round: "waits j k s t \<Longrightarrow> runnable (tasks (SCHEDULER t)) j \<Longrightarrow> schedule t = Inr ((), u) \<Longrightarrow>
    current (SCHEDULER u) \<noteq> j \<Longrightarrow> waits j (Suc k) s u"

definition cyclic_distance :: "nat \<Rightarrow> nat \<Rightarrow> nat \<Rightarrow> nat" where
  "cyclic_distance n i j = (j + n - i) mod n"

lemma cyclic_distance_less: "0 < n \<Longrightarrow> cyclic_distance n i j < n"
  by (simp add: cyclic_distance_def)

lemma cyclic_distance_unique:
  assumes "x < n" "e < n" "(x + e) mod n = j" shows "cyclic_distance n x j = e"
proof (cases "x + e < n")
  case True
  then have "j + n - x = e + n" using assms by simp
  then show ?thesis using assms by (simp add: cyclic_distance_def)
next
  case False
  then have "j = x + e - n" using assms le_mod_geq[of n "x + e"] by auto
  then have "j + n - x = e" using False by simp
  then show ?thesis using assms by (simp add: cyclic_distance_def)
qed

lemma cyclic_distance_reach:
  assumes "x < n" "j < n" shows "(x + cyclic_distance n x j) mod n = j"
proof -
  have "(x + cyclic_distance n x j) mod n = (x + (j + n - x)) mod n"
    unfolding cyclic_distance_def by (rule mod_add_right_eq)
  also have "x + (j + n - x) = j + n" using assms by simp
  finally show ?thesis using assms by simp
qed

lemma cyclic_distance_step:
  assumes n: "cur < n" "j < n" and i: "i \<in> {1..n}" "nx = (cur + i) mod n" "nx \<noteq> j"
    and first: "\<forall>k \<in> {1..<i}. (cur + k) mod n \<noteq> j" and c: "cur \<noteq> j"
  shows "cyclic_distance n nx j < cyclic_distance n cur j"
proof -
  let ?d = "cyclic_distance n cur j"
  have reach: "(cur + ?d) mod n = j" by (rule cyclic_distance_reach[OF n])
  have dn: "?d < n" using n by (simp add: cyclic_distance_less)
  have "?d \<noteq> 0" using reach c n by (cases "?d = 0") auto
  then have "i \<le> ?d" using first reach by (meson atLeastLessThan_iff leI less_one linorder_not_less)
  moreover have "i \<noteq> ?d" using reach i by auto
  ultimately have lt: "i < ?d" by simp
  have "(nx + (?d - i)) mod n = (cur + i + (?d - i)) mod n" unfolding i(2) by (rule mod_add_left_eq)
  also have "cur + i + (?d - i) = cur + ?d" using lt by simp
  finally have "(nx + (?d - i)) mod n = j" using reach by simp
  moreover have "nx < n" unfolding i(2) using n by (simp add: mod_less_divisor)
  ultimately have "cyclic_distance n nx j = ?d - i" using dn by (intro cyclic_distance_unique) auto
  then show ?thesis using lt i(1) by simp
qed

lemma waits_distance:
  assumes "waits j k s t" "sched_ok (SCHEDULER s)" "j < length (tasks (SCHEDULER s))"
  shows "sched_ok (SCHEDULER t) \<and> length (tasks (SCHEDULER t)) = length (tasks (SCHEDULER s)) \<and>
    (0 < k \<longrightarrow> current (SCHEDULER t) \<noteq> j \<and>
       k + cyclic_distance (length (tasks (SCHEDULER s))) (current (SCHEDULER t)) j \<le> length (tasks (SCHEDULER s)))"
  using assms
proof (induction rule: waits.induct)
  case (other k s t u)
  then show ?case by (auto simp: sched_ok_def)
next
  case (round k s t u)
  let ?n = "length (tasks (SCHEDULER s))" and ?ts = "tasks (SCHEDULER t)"
  have IH: "sched_ok (SCHEDULER t)" "length ?ts = ?n"
    "0 < k \<longrightarrow> current (SCHEDULER t) \<noteq> j \<and> k + cyclic_distance ?n (current (SCHEDULER t)) j \<le> ?n"
    using round.IH round.prems by auto
  have j: "j < length ?ts" using round.prems IH by simp
  from schedule_ok[OF IH(1) j round.hyps(2)] round.hyps(3)
  have u: "sched_ok (SCHEDULER u)" "picks ?ts (current (SCHEDULER t)) (current (SCHEDULER u))"
    "length (tasks (SCHEDULER u)) = ?n"
    using same_tasks_length IH(2) by (auto simp: wp_def)
  from u(2) obtain i where i: "i \<in> {1..?n}" "current (SCHEDULER u) = (current (SCHEDULER t) + i) mod ?n"
    "\<forall>k \<in> {1..<i}. \<not> runnable ?ts ((current (SCHEDULER t) + k) mod ?n)" by (auto simp: picks_def IH(2))
  have first: "\<forall>k \<in> {1..<i}. (current (SCHEDULER t) + k) mod ?n \<noteq> j" using i(3) round.hyps(2) by auto
  have cur: "current (SCHEDULER t) < ?n" "j < ?n" "0 < ?n" using IH(1,2) j by (auto simp: sched_ok_def)
  have "Suc k + cyclic_distance ?n (current (SCHEDULER u)) j \<le> ?n"
  proof (cases "k = 0")
    case True
    then show ?thesis using cyclic_distance_less[OF cur(3), of "current (SCHEDULER u)" j] by simp
  next
    case False
    then have "current (SCHEDULER t) \<noteq> j" using IH(3) by simp
    from cyclic_distance_step[OF cur(1,2) i(1,2) round.hyps(4) first this] show ?thesis using IH(3) False by simp
  qed
  then show ?case using u round.hyps(4) by simp
qed simp



section \<open>A thread resumes where it was\<close>

lemma next_task_less: "cur < length ts \<Longrightarrow> next_task ts cur < length ts"
  using find_next_upt[of ts cur 1 "length ts + 1"] unfolding next_task_def
  by (auto intro!: mod_less_divisor)

lemma schedule_current:
  assumes run: "schedule s = Inr (u, t)" and ok: "sched_ok (SCHEDULER s)"
  shows "current (SCHEDULER t) = next_task (tasks (SCHEDULER s)) (current (SCHEDULER s))"
proof -
  let ?ts = "tasks (SCHEDULER s)" and ?cur = "current (SCHEDULER s)"
  have cur: "?cur < length ?ts" using ok by (simp add: sched_ok_def)
  show ?thesis
  proof (cases "next_task ?ts ?cur = ?cur")
    case True
    then show ?thesis using run by (simp add: schedule_stay)
  next
    case False
    from schedule_switch[OF refl False cur next_task_less[OF cur]] show ?thesis
      by cases (use run in \<open>simp add: set_task_def\<close>)
  qed
qed

lemma schedule_switched:
  assumes run: "schedule s = Inr (u, t)" and ok: "sched_ok (SCHEDULER s)" and sw: "current (SCHEDULER t) \<noteq> current (SCHEDULER s)"
  shows "kstack t = save_ctx (xreg s) (sp s) (kstack s)"
    and "task_sp (tasks (SCHEDULER t) ! current (SCHEDULER s)) = sp s - 96"
    and "xreg t = load_ctx (kstack t) (task_sp (tasks (SCHEDULER s) ! current (SCHEDULER t))) (xreg s)"
    and "sp t = task_sp (tasks (SCHEDULER s) ! current (SCHEDULER t)) + 96"
proof -
  let ?ts = "tasks (SCHEDULER s)" and ?cur = "current (SCHEDULER s)"
  have cur: "?cur < length ?ts" using ok by (simp add: sched_ok_def)
  have ne: "next_task ?ts ?cur \<noteq> ?cur"
    using sw run by (cases "next_task ?ts ?cur = ?cur") (auto simp: schedule_stay)
  from schedule_switch[OF refl ne cur next_task_less[OF cur]] obtain r i T where
    "schedule s = Inr ((), s\<lparr>ttbr0_el1 := r, INSTALLED := i, tlb := T,
      kstack := save_ctx (xreg s) (sp s) (kstack s),
      SCHEDULER := set_task ?cur (\<lambda>t. t\<lparr>task_sp := sp s - 96\<rparr>) ((SCHEDULER s)\<lparr>current := next_task ?ts ?cur\<rparr>),
      xreg := load_ctx (save_ctx (xreg s) (sp s) (kstack s)) (task_sp (?ts ! next_task ?ts ?cur)) (xreg s),
      sp := task_sp (?ts ! next_task ?ts ?cur) + 96\<rparr>)" .
  then have t: "t = s\<lparr>ttbr0_el1 := r, INSTALLED := i, tlb := T,
      kstack := save_ctx (xreg s) (sp s) (kstack s),
      SCHEDULER := set_task ?cur (\<lambda>t. t\<lparr>task_sp := sp s - 96\<rparr>) ((SCHEDULER s)\<lparr>current := next_task ?ts ?cur\<rparr>),
      xreg := load_ctx (save_ctx (xreg s) (sp s) (kstack s)) (task_sp (?ts ! next_task ?ts ?cur)) (xreg s),
      sp := task_sp (?ts ! next_task ?ts ?cur) + 96\<rparr>" using run by simp
  show "kstack t = save_ctx (xreg s) (sp s) (kstack s)" "task_sp (tasks (SCHEDULER t) ! ?cur) = sp s - 96"
    "xreg t = load_ctx (kstack t) (task_sp (?ts ! current (SCHEDULER t))) (xreg s)"
    "sp t = task_sp (?ts ! current (SCHEDULER t)) + 96"
    using cur by (simp_all add: t set_task_def)
qed

lemma load_ctx_cong:
  assumes "\<And>i. i < 12 \<Longrightarrow> m (ctx_addr q i) = m' (ctx_addr q i)"
  shows "load_ctx m q x = load_ctx m' q x"
  using assms[of 0] assms[of 1] assms[of 2] assms[of 3] assms[of 4] assms[of 5] assms[of 6] assms[of 7]
    assms[of 8] assms[of 9] assms[of 10] assms[of 11]
  by (simp add: load_ctx_def ctx_addr_def)

text \<open>
  C29. A thread that is switched out and later switched in again finds its stack pointer and
  callee-saved registers as they were, provided its saved context was not overwritten.
\<close>

theorem thread_context_preserved:
  assumes out: "schedule s = Inr (u, s1)" "sched_ok (SCHEDULER s)" "current (SCHEDULER s) = a" "current (SCHEDULER s1) \<noteq> a"
    and kept: "task_sp (tasks (SCHEDULER s2) ! a) = task_sp (tasks (SCHEDULER s1) ! a)"
      "\<And>i. i < 12 \<Longrightarrow> kstack s2 (ctx_addr (sp s - 96) i) = kstack s1 (ctx_addr (sp s - 96) i)"
    and stacks: "\<And>i k. i < 12 \<Longrightarrow> k < 12 \<Longrightarrow> ctx_addr (sp s2 - 96) k \<noteq> ctx_addr (sp s - 96) i"
    and ret: "schedule s2 = Inr (v, s3)" "sched_ok (SCHEDULER s2)" "current (SCHEDULER s2) \<noteq> a" "current (SCHEDULER s3) = a"
  shows "sp s3 = sp s \<and> (\<forall>r \<in> set ctx_regs. xreg s3 r = xreg s r)"
proof -
  note o = schedule_switched[OF out(1,2)] and b = schedule_switched[OF ret(1,2)]
  have q: "task_sp (tasks (SCHEDULER s2) ! current (SCHEDULER s3)) = sp s - 96"
    using o(2) out(3,4) kept(1) ret(4) by simp
  have k3: "kstack s3 (ctx_addr (sp s - 96) i) = save_ctx (xreg s) (sp s) (kstack s) (ctx_addr (sp s - 96) i)"
    if i: "i < 12" for i
  proof -
    have "kstack s3 (ctx_addr (sp s - 96) i) = kstack s2 (ctx_addr (sp s - 96) i)"
      unfolding b(1)[unfolded ret(4), OF ret(3)[symmetric]] by (rule save_ctx_outside) (metis stacks i)
    then show ?thesis using kept(2)[OF i] o(1) out(3,4) by simp
  qed
  have "xreg s3 = load_ctx (save_ctx (xreg s) (sp s) (kstack s)) (sp s - 96) (xreg s2)"
    using b(3) ret(3,4) q load_ctx_cong[of "kstack s3" "sp s - 96"] k3 by simp
  moreover have "sp s3 = sp s" using b(4) ret(3,4) q by simp
  ultimately show ?thesis by (auto simp: save_ctx_load)
qed

section \<open>A new thread starts in its entry function\<close>

lemma unat_and_not_0xF: "unat ((x :: u64) AND NOT 0xF) = unat x - unat x mod 16"
  using unat_and_not_pow2[of 4 x] by simp

lemma write_context:
  "k_for [0..<CONTEXT_REGS] (\<lambda>i. write_kstack (ctx + 8 * of_nat i) 0) s =
     Inr ((), s\<lparr>kstack := fold (\<lambda>i m. m(ctx + 8 * of_nat i := 0)) [0..<CONTEXT_REGS] (kstack s)\<rparr>)"
proof -
  have "k_for is (\<lambda>i. write_kstack (ctx + 8 * of_nat i) 0) s =
     Inr ((), s\<lparr>kstack := fold (\<lambda>i m. m(ctx + 8 * of_nat i := 0)) is (kstack s)\<rparr>)" for "is" and s :: "'a sched_state_scheme"
    by (induction "is" arbitrary: s) (simp_all add: run_simps write_kstack_def)
  then show ?thesis .
qed


text \<open>The stack contents a new thread gets: the context that the first switch restores.\<close>

definition new_context :: "usize \<Rightarrow> usize \<Rightarrow> usize \<Rightarrow> usize \<Rightarrow> memory \<Rightarrow> memory" where
  "new_context ctx trampoline entry arg m =
     (fold (\<lambda>i m. m(ctx + 8 * of_nat i := 0)) [0..<CONTEXT_REGS] m)
       (ctx + 8 * 1 := trampoline, ctx + 8 * 10 := entry, ctx + 8 * 11 := arg)"

lemma new_context_regs:
  "load_ctx (new_context ctx trampoline entry arg m) ctx x 30 = trampoline"
  "load_ctx (new_context ctx trampoline entry arg m) ctx x 19 = entry"
  "load_ctx (new_context ctx trampoline entry arg m) ctx x 20 = arg"
  by (simp_all add: load_ctx_def new_context_def)

lemma unat_cell: "unat (cell a) = unat a - unat a mod 8"
  using unat_and_not_pow2[of 3 a] by (simp add: cell_def)

lemma ld8_cell_other: "cell a \<noteq> c \<Longrightarrow> ld8 (m(c := v)) a = ld8 m a"
  by (simp add: ld8_def)

lemma new_context_frame:
  assumes ctx: "unat ctx + 96 \<le> 2 ^ 64" and a: "unat a < unat ctx \<or> unat ctx + 96 \<le> unat a"
    and al: "unat ctx mod 8 = 0"
  shows "ld8 (new_context ctx trampoline entry arg m) a = ld8 m a"
proof -
  have other: "cell a \<noteq> ctx + 8 * of_nat i" if "i < 12" for i
  proof
    assume eq: "cell a = ctx + 8 * of_nat i"
    have "unat (ctx + 8 * of_nat i) = unat ctx + 8 * i"
      using that ctx by (simp add: unat_word_ariths unat_of_nat)
    then have e: "unat a - unat a mod 8 = unat ctx + 8 * i" using eq unat_cell[of a] by simp
    have "unat a mod 8 < 8" "unat a mod 8 \<le> unat a" by simp_all
    then have "unat ctx + 8 * i \<le> unat a" "unat a < unat ctx + 8 * i + 8" using e by linarith+
    then show False using a that by linarith
  qed
  have "ld8 (fold (\<lambda>i m. m(ctx + 8 * of_nat i := 0)) is m) a = ld8 m a" if "\<forall>i \<in> set is. i < 12" for "is"
    using that by (induction "is" arbitrary: m) (auto simp: ld8_cell_other[OF other])
  then show ?thesis
    using other[of 1] other[of 10] other[of 11] by (simp add: new_context_def ld8_cell_other CONTEXT_REGS_def)
qed

lemma ctx_size: "of_nat CONTEXT_REGS * 8 = (96 :: usize)"
  by (simp add: CONTEXT_REGS_def)

lemma write_kstack_eq: "write_kstack a v s = Inr ((), s\<lparr>kstack := (kstack s)(a := v)\<rparr>)"
  by (simp add: write_kstack_def run_simps)

lemma push_task_eq: "push_task t s =
    Inr ((), s\<lparr>SCHEDULER := (SCHEDULER s)\<lparr>tasks := tasks (SCHEDULER s) @ [t]\<rparr>\<rparr>)"
  by (simp add: push_task_def without_irqs_def irq_disable_def irq_restore_def run_simps)

lemma memset_frame: "(\<And>k. k < n \<Longrightarrow> a \<noteq> dest + k) \<Longrightarrow> ld8 (memset dest v n m) a = ld8 m a"
  using memset_loop_spec[of 0 n dest "ucast v" m] by (auto simp: memset_def)

lemma heap_alloc_some:
  assumes "heap_inv live (ALLOCATOR s)" "n \<noteq> 0" "k < 63"
    and "unat (bump_next (ALLOCATOR s)) + 2 ^ k + unat n \<le> unat (heap_end (ALLOCATOR s))"
  obtains p b where "heap_alloc n (2 ^ k) s = Inr (Some p, s\<lparr>ALLOCATOR := b\<rparr>)" "heap_inv ((p, n, 2 ^ k) # live) b"
proof -
  from heap_alloc_ok[OF assms(1-3)] obtain r s' b where r: "heap_alloc n (2 ^ k) s = Inr (r, s')" "s' = s\<lparr>ALLOCATOR := b\<rparr>"
    and c: "case r of Some p \<Rightarrow> heap_inv ((p, n, 2 ^ k) # live) (ALLOCATOR s')
      | None \<Rightarrow> s' = s \<and> unat (heap_end (ALLOCATOR s)) < unat (bump_next (ALLOCATOR s)) + 2 ^ k + unat n"
    unfolding wp_iff by blast
  show ?thesis
  proof (cases r)
    case None
    then show ?thesis using c assms(4) by simp
  next
    case (Some p)
    then show ?thesis using that[of p b] r c by simp
  qed
qed

text \<open>
  C31. A spawned task gets a stack of its own, 16-byte aligned, and a saved context from which
  the first switch resumes in the trampoline with the entry function and its argument; no other
  stack byte changes.
\<close>

theorem spawn_starts_entry:
  assumes inv: "heap_inv live (ALLOCATOR s)"
    and room: "unat (bump_next (ALLOCATOR s)) + unat STACK_SIZE < unat (heap_end (ALLOCATOR s))"
  shows "wp (spawn_inner trampoline entry arg process ttbr0) (\<lambda>_ t. \<exists>stack ctx.
    heap_inv ((stack, STACK_SIZE, 1) # live) (ALLOCATOR t) \<and>
    unat stack \<le> unat ctx \<and> unat ctx + 96 \<le> unat stack + unat STACK_SIZE \<and> (unat ctx + 96) mod 16 = 0 \<and>
    tasks (SCHEDULER t) = tasks (SCHEDULER s) @ [\<lparr>task_sp = ctx, task_state = Runnable, wake_at = 0,
      task_process = process, task_ttbr0 = ttbr0\<rparr>] \<and> current (SCHEDULER t) = current (SCHEDULER s) \<and>
    (\<forall>x. load_ctx (kstack t) ctx x 30 = trampoline \<and> load_ctx (kstack t) ctx x 19 = entry \<and>
       load_ctx (kstack t) ctx x 20 = arg) \<and>
    (\<forall>a. unat a < unat stack \<or> unat stack + unat STACK_SIZE \<le> unat a \<longrightarrow> ld8 (kstack t) a = ld8 (kstack s) a)) s"
proof -
  have n: "STACK_SIZE \<noteq> 0" "unat STACK_SIZE = 16384" by (simp_all add: STACK_SIZE_def)
  from heap_alloc_some[OF inv n(1), of 0] room obtain stack b where
    r: "heap_alloc STACK_SIZE 1 s = Inr (Some stack, s\<lparr>ALLOCATOR := b\<rparr>)" and hi: "heap_inv ((stack, STACK_SIZE, 1) # live) b"
    by auto
  have bd: "0x100000000 \<le> unat stack" "unat stack + 16384 \<le> 0x100200000"
    using hi heap_bounds n by (auto simp: heap_inv_def word_le_nat_alt)
  let ?limit = "stack + STACK_SIZE" let ?stop = "?limit AND NOT 0xF" let ?ctx = "?stop - 96"
  have lim: "unat ?limit = unat stack + 16384" using bd n by (simp add: unat_word_ariths)
  have stop: "unat ?stop = unat stack + 16384 - (unat stack + 16384) mod 16" unfolding unat_and_not_0xF lim ..
  have m16: "(unat stack + 16384) mod 16 < 16" by simp
  have "96 \<le> ?stop" using stop m16 bd unfolding word_le_nat_alt by simp
  then have ctx: "unat ?ctx = unat stack + 16384 - (unat stack + 16384) mod 16 - 96" using stop by (simp add: unat_sub)
  have "(unat stack + 16384 - (unat stack + 16384) mod 16) mod 16 = 0" by (simp add: minus_mod_eq_mult_div)
  moreover have "unat ?ctx + 96 = unat stack + 16384 - (unat stack + 16384) mod 16" using ctx m16 by linarith
  ultimately have al: "(unat ?ctx + 96) mod 16 = 0" and c96: "unat ?ctx + 96 \<le> unat stack + 16384" by simp_all
  have lo: "unat stack \<le> unat ?ctx" using ctx m16 by linarith
  let ?m = "memset stack 0 STACK_SIZE (kstack s)"
  let ?k = "new_context ?ctx trampoline entry arg ?m"
  have run: "spawn_inner trampoline entry arg process ttbr0 s = Inr ((), s\<lparr>ALLOCATOR := b, kstack := ?k,
      SCHEDULER := (SCHEDULER s)\<lparr>tasks := tasks (SCHEDULER s) @ [\<lparr>task_sp = ?ctx, task_state = Runnable, wake_at = 0,
        task_process = process, task_ttbr0 = ttbr0\<rparr>]\<rparr>\<rparr>)"
    using bd n by (simp add: spawn_inner_def run_simps r Let_def ctx_size write_context write_kstack_eq push_task_eq
        new_context_def)
  have frame: "ld8 ?k a = ld8 (kstack s) a" if "unat a < unat stack \<or> unat stack + unat STACK_SIZE \<le> unat a" for a
  proof -
    have "16 dvd unat ?ctx + 96" using al by (simp only: dvd_eq_mod_eq_0)
    then have "8 dvd unat ?ctx + 96" by (rule dvd_trans[rotated]) simp
    then have "8 dvd unat ?ctx" by (subst (asm) dvd_add_left_iff) simp_all
    then have "unat ?ctx mod 8 = 0" by (rule dvd_imp_mod_0)
    then have "ld8 ?k a = ld8 ?m a"
      using c96 lo bd that n by (intro new_context_frame) auto
    moreover have "a \<noteq> stack + k" if "k < STACK_SIZE" for k
      using that \<open>unat a < unat stack \<or> unat stack + unat STACK_SIZE \<le> unat a\<close> bd n
      by (auto simp: unat_word_ariths word_less_nat_alt)
    ultimately show ?thesis by (simp add: memset_frame)
  qed
  show ?thesis
    unfolding wp_def run sum.case prod.case
    using hi lo c96 al frame n new_context_regs by (intro exI[of _ stack] exI[of _ ?ctx]) simp
qed


section \<open>Sleeping\<close>

text \<open>The fields a switch may change: the address space, the CPU context, stacks, the task table.\<close>

definition switch_erase :: "'a sched_state_scheme \<Rightarrow> 'a sched_state_scheme" where
  "switch_erase s = s\<lparr>ttbr0_el1 := 0, INSTALLED := 0, tlb := Map.empty, kstack := (\<lambda>_. 0),
     SCHEDULER := \<lparr>tasks = [], current = 0\<rparr>, xreg := (\<lambda>_. 0), sp := 0\<rparr>"

definition switch_only :: "'a sched_state_scheme \<Rightarrow> 'a sched_state_scheme \<Rightarrow> bool" where
  "switch_only s t \<longleftrightarrow> switch_erase t = switch_erase s"

lemma switch_only_simps [simp]: "switch_only s s" "switch_only s (t\<lparr>SCHEDULER := x\<rparr>) = switch_only s t"
  by (simp_all add: switch_only_def switch_erase_def)

lemma switch_only_trans: "switch_only s t \<Longrightarrow> switch_only t u \<Longrightarrow> switch_only s u"
  by (simp add: switch_only_def)

lemma switch_only_fields:
  assumes "switch_only s t"
  shows "TICKS t = TICKS s" "daif t = daif s" "mem t = mem s" "ALLOCATOR t = ALLOCATOR s" "INPUT t = INPUT s"
    "uart_tx t = uart_tx s" "FRAME_ALLOCATOR t = FRAME_ALLOCATOR s"
proof -
  have e: "switch_erase t = switch_erase s" using assms by (simp add: switch_only_def)
  show "TICKS t = TICKS s" "daif t = daif s" "mem t = mem s" "ALLOCATOR t = ALLOCATOR s" "INPUT t = INPUT s"
    "uart_tx t = uart_tx s" "FRAME_ALLOCATOR t = FRAME_ALLOCATOR s"
    using arg_cong[OF e, of TICKS] arg_cong[OF e, of daif] arg_cong[OF e, of mem] arg_cong[OF e, of ALLOCATOR]
      arg_cong[OF e, of INPUT] arg_cong[OF e, of uart_tx] arg_cong[OF e, of FRAME_ALLOCATOR]
    by (simp_all add: switch_erase_def)
qed

lemma schedule_frame:
  assumes ok: "sched_ok (SCHEDULER s)"
  shows "wp schedule (\<lambda>_ t. sched_ok (SCHEDULER t) \<and> same_tasks (tasks (SCHEDULER s)) (tasks (SCHEDULER t)) \<and>
    switch_only s t) s"
proof -
  let ?ts = "tasks (SCHEDULER s)" and ?cur = "current (SCHEDULER s)"
  have cur: "?cur < length ?ts" using ok by (simp add: sched_ok_def)
  show ?thesis
  proof (cases "next_task ?ts ?cur = ?cur")
    case True
    with ok show ?thesis by (simp add: wp_def schedule_stay)
  next
    case False
    from schedule_switch[OF refl False cur next_task_less[OF cur]] show ?thesis
    proof cases
      case (1 r i T)
      show ?thesis
        unfolding wp_def 1 sum.case prod.case
        by (simp add: set_task_def same_tasks_set_sp sched_ok_def switch_only_def switch_erase_def next_task_less[OF cur])
    qed
  qed
qed

definition timer_irq :: "('a sched_state_scheme, unit) kfn" where
  "timer_irq = k_bind on_tick (\<lambda>_. sched_tick)"

definition woken :: "u64 \<Rightarrow> Task \<Rightarrow> Task" where
  "woken now t = (if task_state t = Blocked \<and> wake_at t \<le> now then t\<lparr>task_state := Runnable\<rparr> else t)"

lemma timer_irq_ok:
  assumes "sched_ok (SCHEDULER s)"
  shows "wp timer_irq (\<lambda>_ t. sched_ok (SCHEDULER t) \<and> TICKS t = TICKS s + 1 \<and>
    same_tasks (map (woken (TICKS s + 1)) (tasks (SCHEDULER s))) (tasks (SCHEDULER t))) s"
proof -
  let ?s = "s\<lparr>TICKS := TICKS s + 1, cntp_tval_el0 := FREQ s div TICK_HZ,
    SCHEDULER := (SCHEDULER s)\<lparr>tasks := map (woken (TICKS s + 1)) (tasks (SCHEDULER s))\<rparr>\<rparr>"
  have ok: "sched_ok (SCHEDULER ?s)" using assms by (simp add: sched_ok_def)
  have "timer_irq s = schedule ?s"
    by (simp add: timer_irq_def on_tick_def interval_def sched_tick_def ticks_def wake_sleepers_def woken_def[abs_def] run_simps)
  then have "wp timer_irq Q s = wp schedule Q ?s" for Q by (simp add: wp_def)
  then show ?thesis
    using schedule_frame[OF ok] by (simp only:) (erule wp_mono, auto dest: switch_only_fields(1))
qed

lemma woken_nth:
  assumes "same_tasks (map (woken now) ts) us" "i < length ts"
  shows "task_state (us ! i) = (if task_state (ts ! i) = Blocked \<and> wake_at (ts ! i) \<le> now then Runnable else task_state (ts ! i))"
    and "wake_at (us ! i) = wake_at (ts ! i)"
  using same_tasks_nth[OF assms(1)] assms(2) by (simp_all add: woken_def)

lemma update_task_eq: "i < length (tasks (SCHEDULER s)) \<Longrightarrow>
    update_task i f s = Inr ((), s\<lparr>SCHEDULER := set_task i f (SCHEDULER s)\<rparr>)"
  by (simp add: update_task_def run_simps)

lemma sleep_ticks_ok:
  assumes ok: "sched_ok (SCHEDULER s)" and n: "unat (TICKS s) + unat n < 2 ^ 64"
  shows "wp (sleep_ticks n) (\<lambda>_ t. sched_ok (SCHEDULER t) \<and> TICKS t = TICKS s \<and>
    same_tasks ((tasks (SCHEDULER s))[current (SCHEDULER s) :=
      (tasks (SCHEDULER s) ! current (SCHEDULER s))\<lparr>wake_at := TICKS s + n, task_state := Blocked\<rparr>])
      (tasks (SCHEDULER t))) s"
proof -
  let ?cur = "current (SCHEDULER s)"
  let ?s = "s\<lparr>daif := daif s OR DAIF_I, SCHEDULER := set_task ?cur (\<lambda>t. t\<lparr>wake_at := TICKS s + n, task_state := Blocked\<rparr>) (SCHEDULER s)\<rparr>"
  have cur: "?cur < length (tasks (SCHEDULER s))" using ok by (simp add: sched_ok_def)
  have ok': "sched_ok (SCHEDULER ?s)" using ok by (simp add: sched_ok_def set_task_def)
  from schedule_frame[OF ok'] obtain t where t: "schedule ?s = Inr ((), t)" "sched_ok (SCHEDULER t)"
    "same_tasks (tasks (SCHEDULER ?s)) (tasks (SCHEDULER t))" "switch_only ?s t" by (auto simp: wp_iff)
  have "sleep_ticks n s = Inr (daif s, t)"
    using cur n t(1) by (simp add: sleep_ticks_def irq_disable_def ticks_def run_simps update_task_eq)
  then show ?thesis using t(2,3) switch_only_fields(1)[OF t(4)] by (simp add: wp_def set_task_def)
qed

text \<open>
  C32. A task that sleeps n ticks stays blocked for the first n - 1 timer interrupts and is
  runnable from the n-th on.
\<close>

theorem sleeper_wakes_on_time:
  assumes ok: "sched_ok (SCHEDULER s)" and n: "unat (TICKS s) + unat n < 2 ^ 64" and m: "unat (TICKS s) + m < 2 ^ 64"
  shows "wp (k_bind (sleep_ticks n) (\<lambda>_. k_for [0..<m] (\<lambda>_. timer_irq)))
    (\<lambda>_ t. task_state (tasks (SCHEDULER t) ! current (SCHEDULER s)) =
       (if 0 < m \<and> unat n \<le> m then Runnable else Blocked)) s"
proof -
  let ?cur = "current (SCHEDULER s)" and ?n = "length (tasks (SCHEDULER s))"
  have cur: "?cur < ?n" using ok by (simp add: sched_ok_def)
  define I where "I k t \<longleftrightarrow> sched_ok (SCHEDULER t) \<and> length (tasks (SCHEDULER t)) = ?n \<and>
    TICKS t = TICKS s + of_nat k \<and> wake_at (tasks (SCHEDULER t) ! ?cur) = TICKS s + n \<and>
    task_state (tasks (SCHEDULER t) ! ?cur) = (if 0 < k \<and> unat n \<le> k then Runnable else Blocked)"
    for k and t :: "'a sched_state_scheme"
  have step: "wp timer_irq (\<lambda>_. I (Suc k)) t" if I: "I k t" and k: "k < m" for k t
  proof -
    have ok: "sched_ok (SCHEDULER t)" and len: "length (tasks (SCHEDULER t)) = ?n" using I by (auto simp: I_def)
    have le: "TICKS s + n \<le> TICKS t + 1 \<longleftrightarrow> unat n \<le> Suc k"
    proof -
      have "TICKS t + 1 = TICKS s + of_nat (Suc k)" using I by (simp add: I_def)
      moreover have "unat (TICKS s + of_nat (Suc k)) = unat (TICKS s) + Suc k"
        using k m by (simp add: unat_word_ariths unat_of_nat)
      moreover have "unat (TICKS s + n) = unat (TICKS s) + unat n" using n by (simp add: unat_word_ariths)
      ultimately show ?thesis unfolding word_le_nat_alt by (simp only: add_le_cancel_left)
    qed
    show ?thesis
      by (rule wp_mono[OF timer_irq_ok[OF ok]])
        (use I len cur le woken_nth[where i = ?cur and ts = "tasks (SCHEDULER t)"] same_tasks_length in
          \<open>auto simp: I_def algebra_simps split: if_splits\<close>)
  qed
  show ?thesis
    unfolding wp_bind
  proof (rule wp_mono[OF sleep_ticks_ok[OF ok n]])
    fix x and t :: "'a sched_state_scheme" assume "sched_ok (SCHEDULER t) \<and> TICKS t = TICKS s \<and>
      same_tasks ((tasks (SCHEDULER s))[?cur := (tasks (SCHEDULER s) ! ?cur)\<lparr>wake_at := TICKS s + n, task_state := Blocked\<rparr>])
      (tasks (SCHEDULER t))"
    then have "I 0 t" using cur same_tasks_nth(1,2)[where i = ?cur] same_tasks_length by (fastforce simp: I_def)
    then have "wp (k_for [0..<m] (\<lambda>_. timer_irq)) (\<lambda>_. I (length [0..<m])) t"
      by (intro wp_for[where I = "\<lambda>pre. I (length pre)"])
        (use step in \<open>auto dest!: arg_cong[where f = length and y = "_ @ _"]\<close>)
    then show "wp (k_for [0..<m] (\<lambda>_. timer_irq)) (\<lambda>_ t. task_state (tasks (SCHEDULER t) ! ?cur) =
       (if 0 < m \<and> unat n \<le> m then Runnable else Blocked)) t"
      by (rule wp_mono) (simp add: I_def)
  qed
qed


section \<open>Instances\<close>

definition sample_task :: "usize \<Rightarrow> Task" where
  "sample_task p = \<lparr>task_sp = p, task_state = Runnable, wake_at = 0, task_process = None, task_ttbr0 = None\<rparr>"

text \<open>A machine whose heap is set up, running task 0 of three.\<close>

definition three_tasks :: sched_state where
  "three_tasks = console_state.extend (heap_state.extend (mmu_state.extend off_mmu
      \<lparr>ALLOCATOR = \<lparr>heap_start = HEAP_VBASE, heap_end = HEAP_VBASE + HEAP_SIZE, bump_next = HEAP_VBASE, allocations = 0\<rparr>\<rparr>)
      \<lparr>uart_rx = [], uart_tx = [], uart_tx_busy = 0, uart_imsc = 0, INPUT = InputBuf_init\<rparr>)
    \<lparr>cntfrq_el0 = 62500000, cntp_tval_el0 = 0, cntp_ctl_el0 = 0, FREQ = 62500000, TICKS = 0,
     SCHEDULER = \<lparr>tasks = [sample_task 0, sample_task 0x2000, sample_task 0x3000], current = 0\<rparr>,
     xreg = (\<lambda>r. of_nat r), sp = 0x1000, kstack = (\<lambda>_. 0)\<rparr>"

lemmas state_defs = sched_state.defs console_state.defs heap_state.defs mmu_state.defs

lemma three_tasks_simps:
  "SCHEDULER three_tasks = \<lparr>tasks = [sample_task 0, sample_task 0x2000, sample_task 0x3000], current = 0\<rparr>"
  "TICKS three_tasks = 0" "sp three_tasks = 0x1000" "xreg three_tasks = of_nat"
  "ALLOCATOR three_tasks = \<lparr>heap_start = HEAP_VBASE, heap_end = HEAP_VBASE + HEAP_SIZE, bump_next = HEAP_VBASE, allocations = 0\<rparr>"
  by (simp_all add: three_tasks_def state_defs)

lemma three_tasks_ok: "sched_ok (SCHEDULER three_tasks)" "j < 3 \<Longrightarrow> runnable (tasks (SCHEDULER three_tasks)) j"
  by (auto simp: sched_ok_def runnable_def three_tasks_simps sample_task_def nth_Cons split: nat.splits)

theorem schedule_runs_next_runnable_witness:
  "wp schedule (\<lambda>_ t. task_state (tasks (SCHEDULER t) ! current (SCHEDULER t)) = Runnable) three_tasks"
  using schedule_runs_next_runnable[OF three_tasks_ok(1), of 2] three_tasks_ok(2)[of 2]
  by (auto simp: three_tasks_simps elim!: wp_mono)

lemma three_tasks_next: "next_task (tasks (SCHEDULER three_tasks)) (current (SCHEDULER three_tasks)) = 1"
  by (simp add: next_task_def three_tasks_simps sample_task_def upt_rec)

lemma three_tasks_switch:
  obtains s1 where "schedule three_tasks = Inr ((), s1)" "current (SCHEDULER s1) = 1" "sched_ok (SCHEDULER s1)"
    "same_tasks (tasks (SCHEDULER three_tasks)) (tasks (SCHEDULER s1))" "sp s1 = 0x2060"
proof -
  from schedule_frame[OF three_tasks_ok(1)] obtain s1 where s1: "schedule three_tasks = Inr ((), s1)"
    "sched_ok (SCHEDULER s1)" "same_tasks (tasks (SCHEDULER three_tasks)) (tasks (SCHEDULER s1))"
    by (auto simp: wp_iff)
  have c: "current (SCHEDULER s1) = 1"
    using schedule_current[OF s1(1) three_tasks_ok(1)] three_tasks_next by simp
  then have "sp s1 = 0x2060"
    using schedule_switched(4)[OF s1(1) three_tasks_ok(1)] by (simp add: three_tasks_simps sample_task_def)
  with s1 c show thesis using that by blast
qed


theorem thread_context_preserved_witness:
  "\<exists>s1 s2 s3 :: sched_state. schedule three_tasks = Inr ((), s1) \<and> schedule s2 = Inr ((), s3) \<and>
     current (SCHEDULER s3) = 0 \<and> sp s3 = 0x1000 \<and> xreg s3 19 = 19"
proof -
  obtain s1 where s1: "schedule three_tasks = Inr ((), s1)" "current (SCHEDULER s1) = 1" "sched_ok (SCHEDULER s1)"
    "same_tasks (tasks (SCHEDULER three_tasks)) (tasks (SCHEDULER s1))" "sp s1 = 0x2060" by (rule three_tasks_switch)
  let ?ts = "tasks (SCHEDULER s1)"
  have len: "length ?ts = 3" using same_tasks_length[OF s1(4)] by (simp add: three_tasks_simps)
  define s2 where "s2 = s1\<lparr>SCHEDULER := set_task 2 (\<lambda>t. t\<lparr>task_state := Blocked\<rparr>) (SCHEDULER s1)\<rparr>"
  have st: "task_state (tasks (SCHEDULER s2) ! 0) = Runnable" "task_state (tasks (SCHEDULER s2) ! 2) = Blocked"
    "length (tasks (SCHEDULER s2)) = 3" "current (SCHEDULER s2) = 1" "sp s2 = 0x2060"
    "task_sp (tasks (SCHEDULER s2) ! 0) = task_sp (?ts ! 0)" "kstack s2 = kstack s1"
    using same_tasks_nth(1)[OF s1(4), of 0] len s1 by (simp_all add: s2_def set_task_def three_tasks_simps sample_task_def)
  have ok2: "sched_ok (SCHEDULER s2)" using st by (simp add: sched_ok_def)
  have nx: "next_task (tasks (SCHEDULER s2)) (current (SCHEDULER s2)) = 0"
    by (simp add: next_task_def st st(2)[unfolded numeral_2_eq_2] upt_rec)
  from schedule_frame[OF ok2] obtain s3 where s3': "schedule s2 = Inr ((), s3)" by (auto simp: wp_iff)
  have s3: "schedule s2 = Inr ((), s3)" "current (SCHEDULER s3) = 0"
    using s3' schedule_current[OF s3' ok2] nx by simp_all
  have apart: "ctx_addr (sp s2 - 96) k \<noteq> ctx_addr (sp three_tasks - 96) i" if "i < 12" "k < 12" for i k
  proof -
    have "unat (ctx_addr (0x2060 - 96) k) = 0x2000 + 8 * k" "unat (ctx_addr (0x1000 - 96) i) = 0xFA0 + 8 * i"
      using that by (simp_all add: ctx_addr_def unat_word_ariths unat_of_nat)
    then have "unat (ctx_addr (0x2060 - 96) k) \<noteq> unat (ctx_addr (0x1000 - 96) i)" using that by simp
    then show ?thesis using st by (auto simp: three_tasks_simps)
  qed
  have "sp s3 = sp three_tasks \<and> (\<forall>r \<in> set ctx_regs. xreg s3 r = xreg three_tasks r)"
    by (rule thread_context_preserved[OF s1(1) three_tasks_ok(1) _ _ _ _ apart s3(1) ok2, where a = 0])
      (use s1 st s3 in \<open>simp_all add: three_tasks_simps\<close>)
  then show ?thesis using s1 s3 by (intro exI[of _ s1] exI[of _ s2] exI[of _ s3]) (simp add: three_tasks_simps ctx_regs_def)
qed

theorem spawn_starts_entry_witness:
  "wp (spawn_inner 0x40080000 0x40081000 7 None None) (\<lambda>_ t. length (tasks (SCHEDULER t)) = 4 \<and>
     (\<exists>ctx. task_sp (tasks (SCHEDULER t) ! 3) = ctx \<and> load_ctx (kstack t) ctx (xreg t) 19 = 0x40081000)) three_tasks"
proof -
  have inv: "heap_inv [] (ALLOCATOR three_tasks)"
    by (simp add: heap_inv_def three_tasks_simps HEAP_VBASE_def HEAP_SIZE_def)
  have room: "unat (bump_next (ALLOCATOR three_tasks)) + unat STACK_SIZE < unat (heap_end (ALLOCATOR three_tasks))"
    by (simp add: three_tasks_simps HEAP_VBASE_def HEAP_SIZE_def STACK_SIZE_def)
  show ?thesis
    by (rule wp_mono[OF spawn_starts_entry[OF inv room]]) (auto simp: three_tasks_simps nth_append)
qed

theorem sleeper_wakes_on_time_witness:
  "wp (k_bind (sleep_ticks 3) (\<lambda>_. k_for [0..<2] (\<lambda>_. timer_irq)))
     (\<lambda>_ t. task_state (tasks (SCHEDULER t) ! 0) = Blocked) three_tasks"
  using sleeper_wakes_on_time[OF three_tasks_ok(1), of 3 2] by (simp add: three_tasks_simps)

end
