(* ===== verification/User_Space.thy ===== *)
theory User_Space
  imports Heap
begin

unbundle bit_operations_syntax

text \<open>
  The user half of an address space as the kernel builds it: a list of pages, each with
  the frame behind it and its EL0 permissions. \<open>owns_pages\<close> says that a space maps exactly
  these pages in the user window; the lemmas show how the operations of the loader, of
  process creation and of teardown change the list, and that other spaces are not touched.
\<close>

section \<open>The user window\<close>

definition user_va :: "usize \<Rightarrow> bool" where
  "user_va va \<longleftrightarrow> USER_BASE \<le> va \<and> va < 2 * USER_BASE"

lemma user_va_unat: "user_va va \<longleftrightarrow> 0x8000000000 \<le> unat va \<and> unat va < 0x10000000000"
  by (simp add: user_va_def USER_BASE_def word_le_nat_alt word_less_nat_alt)

lemma user_va_index: "user_va va \<Longrightarrow> table_index va 39 = USER_L0_IDX" "user_va va \<Longrightarrow> va < 0x1000000000000"
proof -
  assume u: "user_va va"
  then have "unat va div 2 ^ 39 = 1" by (intro div_nat_eqI) (auto simp: user_va_unat)
  then show "table_index va 39 = USER_L0_IDX" by (simp only: word_unat_eq_iff unat_table_index USER_L0_IDX_1) simp
  show "va < 0x1000000000000" using u by (simp add: user_va_unat word_less_nat_alt)
qed

lemma user_va_not_kernel: "user_va va \<Longrightarrow> table_index va 39 \<noteq> 0"
  by (simp add: user_va_index USER_L0_IDX_1)

text \<open>Two canonical addresses are on the same page exactly when they agree above bit 12.\<close>

lemma unat_page_of: "unat (page_of va) = unat va - unat va mod 4096"
  by (simp only: page_of_def unat_and_not_0xFFF)

lemma unat_page_of_div: "unat (page_of va) = 4096 * (unat va div 4096)"
  by (simp add: unat_page_of minus_mod_eq_mult_div)

lemma page_of_page [simp]: "page_aligned (page_of va)"
  by (simp add: page_aligned_iff_mod unat_page_of_div)

lemma index_digits:
  fixes n :: nat assumes "n < 2 ^ 48"
  shows "n div 2 ^ 12 = ((n div 2 ^ 39 mod 512 * 512 + n div 2 ^ 30 mod 512) * 512 + n div 2 ^ 21 mod 512) * 512 +
    n div 2 ^ 12 mod 512"
proof -
  have d: "n div 2 ^ 21 = n div 2 ^ 12 div 512" "n div 2 ^ 30 = n div 2 ^ 21 div 512" "n div 2 ^ 39 = n div 2 ^ 30 div 512"
    by (simp_all add: div_mult2_eq[symmetric])
  have "n div 2 ^ 39 < 512" using assms by (simp add: div_less_iff_less_mult)
  then have "n div 2 ^ 39 mod 512 = n div 2 ^ 39" by simp
  then show ?thesis using d by (metis div_mult_mod_eq)
qed

lemma same_page_iff:
  assumes "va < 0x1000000000000" "va' < 0x1000000000000"
  shows "same_page va va' \<longleftrightarrow> page_of va = page_of va'"
proof -
  have lt: "unat va < 2 ^ 48" "unat va' < 2 ^ 48" using assms by (simp_all add: word_less_nat_alt)
  have pg: "page_of va = page_of va' \<longleftrightarrow> unat va div 2 ^ 12 = unat va' div 2 ^ 12"
    by (simp add: word_unat_eq_iff unat_page_of_div)
  have sp: "same_page va va' \<longleftrightarrow> unat va div 2 ^ 39 mod 512 = unat va' div 2 ^ 39 mod 512 \<and>
      unat va div 2 ^ 30 mod 512 = unat va' div 2 ^ 30 mod 512 \<and>
      unat va div 2 ^ 21 mod 512 = unat va' div 2 ^ 21 mod 512 \<and> unat va div 2 ^ 12 mod 512 = unat va' div 2 ^ 12 mod 512"
    by (simp add: same_page_def va_path_def word_unat_eq_iff unat_table_index)
  have div: "unat va div 2 ^ 12 = unat va' div 2 ^ 12 \<Longrightarrow> unat va div 2 ^ k mod 512 = unat va' div 2 ^ k mod 512" if "12 \<le> k" for k
  proof -
    assume e: "unat va div 2 ^ 12 = unat va' div 2 ^ 12"
    have "(2 :: nat) ^ k = 2 ^ 12 * 2 ^ (k - 12)" using that by (metis le_add_diff_inverse power_add)
    then have "n div 2 ^ k = n div 2 ^ 12 div 2 ^ (k - 12)" for n :: nat by (metis div_mult2_eq)
    then show ?thesis using e by metis
  qed
  show ?thesis
    unfolding pg sp
  proof
    show "unat va div 2 ^ 12 = unat va' div 2 ^ 12"
      if "unat va div 2 ^ 39 mod 512 = unat va' div 2 ^ 39 mod 512 \<and>
      unat va div 2 ^ 30 mod 512 = unat va' div 2 ^ 30 mod 512 \<and>
      unat va div 2 ^ 21 mod 512 = unat va' div 2 ^ 21 mod 512 \<and> unat va div 2 ^ 12 mod 512 = unat va' div 2 ^ 12 mod 512"
      by (subst index_digits[OF lt(1)], subst index_digits[OF lt(2)]) (simp only: that)
  qed (intro conjI div; simp)
qed


lemma leaf_same_page: "same_page va va' \<Longrightarrow> leaf m r va = leaf m r va'"
  by (simp add: leaf_def same_page_def cong: option.case_cong)

lemma user_va_page_of: "user_va va \<Longrightarrow> user_va (page_of va)"
proof -
  assume u: "user_va va"
  have "0x8000000 \<le> unat va div 4096" using u by (simp add: user_va_unat less_eq_div_iff_mult_less_eq)
  moreover have "4096 * (unat va div 4096) \<le> unat va" by simp
  ultimately show ?thesis using u unfolding user_va_unat unat_page_of_div by linarith
qed

lemma user_va_same_page: "user_va va \<Longrightarrow> user_va va' \<Longrightarrow> same_page va va' \<longleftrightarrow> page_of va = page_of va'"
  by (simp add: same_page_iff user_va_index)

lemma leaf_page_of: "user_va va \<Longrightarrow> leaf m r (page_of va) = leaf m r va"
  by (rule leaf_same_page) (simp add: user_va_same_page user_va_page_of)

section \<open>EL0 permissions\<close>

text \<open>
  The access bits of a page descriptor: AP[1] (bit 6) lets EL0 in, AP[2] (bit 7) makes the
  page read-only at every level, UXN (bit 54) forbids execution at EL0.
\<close>

definition el0_read :: "u64 \<Rightarrow> bool" where
  "el0_read d \<longleftrightarrow> bit d 6"

definition el0_write :: "u64 \<Rightarrow> bool" where
  "el0_write d \<longleftrightarrow> bit d 6 \<and> \<not> bit d 7"

definition el0_exec :: "u64 \<Rightarrow> bool" where
  "el0_exec d \<longleftrightarrow> bit d 6 \<and> \<not> bit d 54"

definition user_perm :: "u64 \<Rightarrow> bool" where
  "user_perm p \<longleftrightarrow> p = PAGE_USER_RW \<or> p = PAGE_USER_RX"

lemma user_rw_value: "PAGE_USER_RW = 0x60000000000743"
  by (simp add: PAGE_USER_RW_def DESC_PAGE_def AP_EL0_RW_def SH_INNER_def AF_def UXN_def PXN_def)

lemma user_rx_value: "PAGE_USER_RX = 0x200000000007C3"
  by (simp add: PAGE_USER_RX_def DESC_PAGE_def AP_EL0_RO_def SH_INNER_def AF_def UXN_def PXN_def)

lemma user_perm_flags: "user_perm p \<Longrightarrow> p AND DESC_VALID \<noteq> 0" "user_perm p \<Longrightarrow> p AND ADDR_MASK = 0"
  "user_perm p \<Longrightarrow> p AND DESC_TABLE = DESC_TABLE"
  by (auto simp: user_perm_def user_rw_value user_rx_value DESC_VALID_def ADDR_MASK_def DESC_TABLE_def)

lemma valid_frame_bits: "valid_frame f \<Longrightarrow> n < 12 \<Longrightarrow> \<not> bit f n" "valid_frame f \<Longrightarrow> 31 \<le> n \<Longrightarrow> \<not> bit f n"
proof -
  assume v: "valid_frame f"
  show "\<not> bit f n" if "n < 12" using v that page_aligned_bit by (auto simp: valid_frame_def)
  have "unat f < 2 ^ 31" using v by (simp add: valid_frame_unat)
  then have "take_bit 31 f = f" by (rule take_bit_word_self)
  then show "\<not> bit f n" if "31 \<le> n" using that by (metis bit_take_bit_iff not_less)
qed

lemma user_desc:
  assumes "valid_frame f" "user_perm p"
  shows "(f OR p) AND ADDR_MASK = f" "is_table (f OR p)" "f OR p \<noteq> 0" "el0_read (f OR p)"
    "el0_write (f OR p) \<longleftrightarrow> p = PAGE_USER_RW" "el0_exec (f OR p) \<longleftrightarrow> p = PAGE_USER_RX"
proof -
  show "(f OR p) AND ADDR_MASK = f"
    using assms by (simp add: bit.conj_disj_distrib2 user_perm_flags)
  have "(f OR p) AND DESC_TABLE = DESC_TABLE"
    by (rule bit_word_eqI)
      (use arg_cong[OF user_perm_flags(3)[OF assms(2)], of "\<lambda>w. bit w _"] in \<open>auto simp: bit_simps\<close>)
  then show t: "is_table (f OR p)" by (simp add: is_table_def)
  show "f OR p \<noteq> 0" using assms(2) by (auto simp: or_eq_0_iff user_perm_def user_rw_value user_rx_value)
  have f: "\<not> bit f 6" "\<not> bit f 7" "\<not> bit f 54" using assms(1) by (auto simp: valid_frame_bits)
  show "el0_read (f OR p)" "el0_write (f OR p) \<longleftrightarrow> p = PAGE_USER_RW" "el0_exec (f OR p) \<longleftrightarrow> p = PAGE_USER_RX"
    using f assms(2)
    by (auto simp: el0_read_def el0_write_def el0_exec_def bit_or_iff user_perm_def user_rw_value user_rx_value)
qed

section \<open>The pages of a space\<close>

type_synonym upage = "usize \<times> usize \<times> u64"

definition page_frames :: "upage list \<Rightarrow> usize set" where
  "page_frames ps = (\<lambda>x. fst (snd x)) ` set ps"

definition owns_pages :: "memory \<Rightarrow> usize \<Rightarrow> upage list \<Rightarrow> bool" where
  "owns_pages m r ps \<longleftrightarrow>
     (\<forall>(va, f, p) \<in> set ps. user_va va \<and> page_aligned va \<and> valid_frame f \<and> user_perm p \<and> leaf m r va = f OR p) \<and>
     distinct (map fst ps) \<and> distinct (map (\<lambda>x. fst (snd x)) ps) \<and>
     (\<forall>va. user_va va \<longrightarrow> page_of va \<notin> fst ` set ps \<longrightarrow> leaf m r va = 0)"

lemma page_frames_simps [simp]: "page_frames [] = {}" "page_frames (x # ps) = insert (fst (snd x)) (page_frames ps)"
  "page_frames (ps @ qs) = page_frames ps \<union> page_frames qs"
  by (auto simp: page_frames_def)

lemma owns_pages_cong:
  "owns_pages m r ps \<Longrightarrow> (\<And>va. user_va va \<Longrightarrow> leaf m' r va = leaf m r va) \<Longrightarrow> owns_pages m' r ps"
  unfolding owns_pages_def by fastforce

lemma owns_pages_new: "(\<And>va. user_va va \<Longrightarrow> leaf m r va = 0) \<Longrightarrow> owns_pages m r []"
  by (simp add: owns_pages_def)

lemma owns_pages_leaf:
  assumes "owns_pages m r ps" "(page_of va, f, p) \<in> set ps" "user_va va"
  shows "leaf m r va = f OR p" "valid_frame f" "user_perm p"
  using assms leaf_page_of[OF assms(3), of m r] by (auto simp: owns_pages_def)

lemma owns_pages_map:
  assumes own: "owns_pages m r ps" and lu: "leaf_update R m r va (f OR p) m'" and r: "r \<in> R"
    and va: "user_va va" "page_aligned va" "va \<notin> fst ` set ps" and f: "valid_frame f" "f \<notin> page_frames ps" "user_perm p"
  shows "owns_pages m' r (ps @ [(va, f, p)])"
proof -
  have lf: "leaf m' r va' = (if page_of va' = va then f OR p else leaf m r va')" if "user_va va'" for va'
    using lu r va(1,2) that user_va_same_page[OF that va(1)] by (simp add: leaf_update_def)
  have "f \<notin> set (map (\<lambda>x. fst (snd x)) ps)" using f(2) by (simp add: page_frames_def)
  moreover have "leaf m' r va' = f' OR p'" if "(va', f', p') \<in> set ps" for va' f' p'
  proof -
    have "user_va va'" "page_aligned va'" "leaf m r va' = f' OR p'" using own that by (auto simp: owns_pages_def)
    moreover have "va' \<noteq> va" using va(3) that by force
    ultimately show ?thesis using lf[of va'] by simp
  qed
  ultimately show ?thesis
    using own va f lf unfolding owns_pages_def by fastforce
qed

lemma owns_pages_map_other:
  assumes own: "owns_pages m r' ps" and lu: "leaf_update R m r va d m'" and r: "r' \<in> R" "r' \<noteq> r" and va: "user_va va"
  shows "owns_pages m' r' ps"
  by (rule owns_pages_cong[OF own]) (use lu r user_va_not_kernel[OF va] in \<open>simp add: leaf_update_def\<close>)

lemma owns_pages_unmap:
  assumes own: "owns_pages m r ((va, f, p) # ps)" and lu: "leaf_update R m r va 0 m'" and r: "r \<in> R"
  shows "owns_pages m' r ps"
proof -
  have va: "user_va va" "page_aligned va" "va \<notin> fst ` set ps" using own by (auto simp: owns_pages_def)
  have lf: "leaf m' r va' = (if page_of va' = va then 0 else leaf m r va')" if "user_va va'" for va'
    using lu r va(1,2) that user_va_same_page[OF that va(1)] by (simp add: leaf_update_def)
  have "leaf m' r va' = f' OR p'" if "(va', f', p') \<in> set ps" for va' f' p'
  proof -
    have "user_va va'" "page_aligned va'" "leaf m r va' = f' OR p'" using own that by (auto simp: owns_pages_def)
    moreover have "va' \<noteq> va" using va(3) that by force
    ultimately show ?thesis using lf[of va'] by simp
  qed
  then show ?thesis using own lf unfolding owns_pages_def by fastforce
qed

text \<open>What the MMU finds at a user address.\<close>

lemma owns_pages_walk:
  assumes own: "owns_pages m r ps" and pg: "(page_of va, f, p) \<in> set ps" and va: "user_va va"
  shows "hw_walk m r va = Some (f OR p, f OR (va AND 0xFFF))"
proof -
  note l = owns_pages_leaf[OF own pg va]
  show ?thesis
    using hw_walk_page[of va m r] user_desc[OF l(2,3)] l user_va_index(2)[OF va] by simp
qed


section \<open>Building a space\<close>

text \<open>Everything the loader and the page-table code may change of the kernel state.\<close>

definition load_erase :: "'a mmu_state_scheme \<Rightarrow> 'a mmu_state_scheme" where
  "load_erase s = s\<lparr>mem := (\<lambda>_. 0), tlb := Map.empty, FRAME_ALLOCATOR := FrameAllocator_new, ic_synced := []\<rparr>"

definition load_only :: "'a mmu_state_scheme \<Rightarrow> 'a mmu_state_scheme \<Rightarrow> bool" where
  "load_only s t \<longleftrightarrow> load_erase t = load_erase s"

lemma load_only_refl [simp]: "load_only s s"
  by (simp add: load_only_def)

lemma load_only_trans: "load_only s t \<Longrightarrow> load_only t u \<Longrightarrow> load_only s u"
  by (simp add: load_only_def)

lemma load_only_mem [simp]: "load_only s (t\<lparr>mem := m\<rparr>) = load_only s t"
  by (simp add: load_only_def load_erase_def)

lemma load_only_synced [simp]: "load_only s (t\<lparr>ic_synced := l\<rparr>) = load_only s t"
  by (simp add: load_only_def load_erase_def)

lemma load_only_pop [simp]: "load_only s (pop_state f t) = load_only s t"
  by (simp add: load_only_def load_erase_def pop_state_def)

lemma load_only_push [simp]: "load_only s (push_state f t) = load_only s t"
  by (simp add: load_only_def load_erase_def push_state_def)

lemma load_only_vm: "vm_only s t \<Longrightarrow> load_only s t"
proof -
  assume "vm_only s t"
  then obtain m b a where "t = s\<lparr>mem := m, tlb := b, FRAME_ALLOCATOR := a\<rparr>" unfolding vm_only_def by blast
  then show ?thesis by (simp add: load_only_def load_erase_def)
qed

lemma vm_only_synced: "vm_only s t \<Longrightarrow> ic_synced t = ic_synced s"
  unfolding vm_only_def by (metis frames_state.update_convs(1) machine.update_convs(1,2) mmu_state.select_convs(4)
      mmu_state.surjective)

lemma load_only_fields:
  assumes "load_only s t"
  shows "KERNEL_TTBR0 t = KERNEL_TTBR0 s" "KERNEL_L1 t = KERNEL_L1 s" "INSTALLED t = INSTALLED s"
    "ttbr0_el1 t = ttbr0_el1 s" "daif t = daif s" "mmu_state.more t = mmu_state.more s"
proof -
  have e: "load_erase t = load_erase s" using assms by (simp add: load_only_def)
  show "KERNEL_TTBR0 t = KERNEL_TTBR0 s" using arg_cong[OF e, of KERNEL_TTBR0] by (simp add: load_erase_def)
  show "KERNEL_L1 t = KERNEL_L1 s" using arg_cong[OF e, of KERNEL_L1] by (simp add: load_erase_def)
  show "INSTALLED t = INSTALLED s" using arg_cong[OF e, of INSTALLED] by (simp add: load_erase_def)
  show "ttbr0_el1 t = ttbr0_el1 s" using arg_cong[OF e, of ttbr0_el1] by (simp add: load_erase_def)
  show "daif t = daif s" using arg_cong[OF e, of daif] by (simp add: load_erase_def)
  show "mmu_state.more t = mmu_state.more s" using arg_cong[OF e, of mmu_state.more] by (simp add: load_erase_def)
qed

text \<open>The space \<open>r\<close> maps exactly the pages \<open>ps\<close> for EL0, on data frames of the kernel.\<close>

definition user_space :: "usize set \<Rightarrow> usize set \<Rightarrow> memory \<Rightarrow> usize \<Rightarrow> upage list \<Rightarrow> bool" where
  "user_space R D m r ps \<longleftrightarrow> r \<in> R \<and> owns_pages m r ps \<and> page_frames ps \<subseteq> D \<and> window_only m r"

text \<open>The other spaces and the contents of the data frames \<open>D\<close> are as before.\<close>

definition others_kept :: "usize set \<Rightarrow> usize set \<Rightarrow> usize \<Rightarrow> memory \<Rightarrow> memory \<Rightarrow> bool" where
  "others_kept R D r m m' \<longleftrightarrow>
     (\<forall>r' \<in> R - {r}. (\<forall>va. leaf m' r' va = leaf m r' va) \<and> (window_only m r' \<longrightarrow> window_only m' r')) \<and>
     (\<forall>a. page_of a \<in> D \<longrightarrow> m' a = m a)"

lemma others_kept_refl [simp]: "others_kept R D r m m"
  by (simp add: others_kept_def)

lemma others_kept_trans: "others_kept R D r m m' \<Longrightarrow> others_kept R D r m' m'' \<Longrightarrow> others_kept R D r m m''"
  by (simp add: others_kept_def)

lemma others_kept_less: "others_kept R D r m m' \<Longrightarrow> D' \<subseteq> D \<Longrightarrow> others_kept R D' r m m'"
  by (auto simp: others_kept_def)

lemma user_space_kept:
  "others_kept R D r m m' \<Longrightarrow> user_space R D' m r' ps \<Longrightarrow> r' \<noteq> r \<Longrightarrow> user_space R D' m' r' ps"
  by (auto simp: others_kept_def user_space_def elim: owns_pages_cong)

lemma user_space_more: "user_space R D m r ps \<Longrightarrow> D \<subseteq> D' \<Longrightarrow> user_space R D' m r ps"
  by (auto simp: user_space_def)

lemma user_va_slot: "user_va va \<Longrightarrow> table_index va 39 = 0 \<or> table_index va 39 = USER_L0_IDX"
  by (simp add: user_va_index)

lemma map_user_page:
  assumes good: "vm_good U R D fs s" and sp: "user_space R D (mem s) r ps" and room: "3 \<le> length fs"
    and f: "f \<in> D" "f \<notin> page_frames ps" and va: "user_va va" "page_aligned va" "va \<notin> fst ` set ps" and p: "user_perm p"
  shows "wp (map_page_in r va f p) (\<lambda>_ s'. (\<exists>n \<le> 3. vm_good U R D (drop n fs) s') \<and>
    user_space R D (mem s') r (ps @ [(va, f, p)]) \<and> vm_only s s' \<and> others_kept R D r (mem s) (mem s')) s"
proof -
  note g = vm_goodD[OF good]
  have r: "r \<in> R" and own: "owns_pages (mem s) r ps" and w: "window_only (mem s) r" "page_frames ps \<subseteq> D"
    using sp by (auto simp: user_space_def)
  have vf: "valid_frame f" using g(9) f by simp
  then have d: "(f AND ADDR_MASK) OR p = f OR p" by simp
  have nb: "no_block (mem s) r (va_path va)" using private_no_block[OF g(3) r] va(1) by (simp add: user_va_not_kernel)
  have "new_tables (mem s) r va \<le> 3" by (rule new_tables_le)
  then have room': "new_tables (mem s) r va \<le> length fs" using room by simp
  show ?thesis
  proof (rule wp_mono[OF good_map[OF good r user_va_index(2)[OF va(1)] nb room', of f p]], elim conjE exE)
    fix s' n
    assume n: "n \<le> new_tables (mem s) r va" "vm_good U R D (drop n fs) s'"
      and lu: "leaf_update R (mem s) r va (f AND ADDR_MASK OR p) (mem s')"
      and gr: "grows_on R r (va_path va) (mem s) (mem s')" and vo: "vm_only s s'"
      and keep: "\<forall>a. page_of a \<in> D \<longrightarrow> mem s' a = mem s a"
    note lu = lu[unfolded d]
    have wo: "window_only (mem s') r'" if "r' \<in> R" "window_only (mem s) r'" for r'
      by (rule window_only_grows[OF gr that user_va_slot[OF va(1)]])
    have "leaf (mem s') r' va' = leaf (mem s) r' va'" if "r' \<in> R - {r}" for r' va'
      using lu that user_va_not_kernel[OF va(1)] by (auto simp: leaf_update_def)
    then have "others_kept R D r (mem s) (mem s')" using wo keep by (auto simp: others_kept_def)
    moreover have "user_space R D (mem s') r (ps @ [(va, f, p)])"
      using owns_pages_map[OF own lu r va vf f(2) p] wo[OF r] w r f(1) by (simp add: user_space_def)
    moreover have "n \<le> 3" using n(1) new_tables_le[of "mem s" r va] by simp
    ultimately show "(\<exists>n \<le> 3. vm_good U R D (drop n fs) s') \<and>
        user_space R D (mem s') r (ps @ [(va, f, p)]) \<and> vm_only s s' \<and> others_kept R D r (mem s) (mem s')"
      using n(2) vo by blast
  qed
qed

lemma unmap_page_in_tbl:
  assumes inv: "vm_inv R fs s" and r: "r \<in> R"
  shows "wlp (unmap_page_in r va) (\<lambda>_ s'. \<forall>r'\<in>R. \<forall>p. is_path p \<longrightarrow> tbl (mem s') r' p = tbl (mem s) r' p) s"
proof (cases "tbl (mem s) r (va_path va)")
  case None
  then show ?thesis by (simp add: unmap_page_in_def wp_rules walk_tables_tbl va_path_def[symmetric])
next
  case (Some t)
  have "pt_inv R (KERNEL_L1 s) (mem s)" using inv by (simp add: vm_inv_def)
  from tbl_leaf_write[OF this r Some table_index_less] show ?thesis
    by (simp add: unmap_page_in_def wp_rules walk_tables_tbl va_path_def[symmetric] tlbi_vaae1_def write_u64_def Some)
qed

lemma window_only_same:
  assumes "window_only m r" "\<And>p. is_path p \<Longrightarrow> tbl m' r p = tbl m r p"
  shows "window_only m' r"
  using assms unfolding window_only_tbl by (simp add: is_path_def)

lemma unmap_user_page:
  assumes good: "vm_good U R D fs s" and sp: "user_space R D (mem s) r ((va, f, p) # ps)"
  shows "wp (unmap_page_in r va) (\<lambda>_ s'. vm_good U R D fs s' \<and> user_space R D (mem s') r ps \<and>
    vm_only s s' \<and> others_kept R D r (mem s) (mem s')) s"
proof -
  have r: "r \<in> R" and own: "owns_pages (mem s) r ((va, f, p) # ps)" and w: "window_only (mem s) r" "page_frames ps \<subseteq> D"
    using sp by (auto simp: user_space_def)
  have va: "user_va va" using own by (auto simp: owns_pages_def)
  note g = vm_goodD[OF good]
  show ?thesis
  proof (rule wp_mono[OF wp_conj[OF good_unmap[OF good r user_va_index(2)[OF va]] unmap_page_in_tbl[OF g(3) r]]], elim conjE)
    fix s'
    assume n: "vm_good U R D fs s'"
      and lu: "leaf_update R (mem s) r va 0 (mem s')" and vo: "vm_only s s'"
      and keep: "\<forall>a. page_of a \<in> D \<longrightarrow> mem s' a = mem s a"
      and tb: "\<forall>r'\<in>R. \<forall>p. is_path p \<longrightarrow> tbl (mem s') r' p = tbl (mem s) r' p"
    have wo: "window_only (mem s') r'" if "r' \<in> R" "window_only (mem s) r'" for r'
      by (rule window_only_same[OF that(2)]) (use tb that in blast)
    have "leaf (mem s') r' va' = leaf (mem s) r' va'" if "r' \<in> R - {r}" for r' va'
      using lu that user_va_not_kernel[OF va] by (auto simp: leaf_update_def)
    then have "others_kept R D r (mem s) (mem s')" using wo keep by (auto simp: others_kept_def)
    moreover have "user_space R D (mem s') r ps"
      using owns_pages_unmap[OF own lu r] wo[OF r] w r by (simp add: user_space_def)
    ultimately show "vm_good U R D fs s' \<and> user_space R D (mem s') r ps \<and> vm_only s s' \<and> others_kept R D r (mem s) (mem s')"
      using n vo by blast
  qed
qed

text \<open>Releasing a frame that no page uses any more.\<close>

lemma free_user_frame:
  assumes good: "vm_good U R D fs s" and f: "f \<in> D" and sp: "user_space R D (mem s) r ps" "f \<notin> page_frames ps"
  shows "wp (free_frame f) (\<lambda>_ s'. vm_good U R (D - {f}) (f # fs) s' \<and> user_space R (D - {f}) (mem s') r ps \<and>
    load_only s s' \<and> others_kept R (D - {f}) r (mem s) (mem s')) s"
proof -
  note fr = good_free[OF good f]
  have wo: "window_only (mem (push_state f s)) r'" if "r' \<in> R" "window_only (mem s) r'" for r'
    by (rule window_only_same[OF that(2)]) (use fr(5) that in blast)
  have "owns_pages (mem (push_state f s)) r ps"
    using sp(1) fr(3) by (auto simp: user_space_def elim: owns_pages_cong)
  then have "user_space R (D - {f}) (mem (push_state f s)) r ps"
    using sp wo by (auto simp: user_space_def)
  moreover have "others_kept R (D - {f}) r (mem s) (mem (push_state f s))"
    using fr(3,6) wo by (auto simp: others_kept_def)
  ultimately show ?thesis using fr(1,2) by (simp add: wp_def)
qed

text \<open>Storing into a data frame.\<close>

lemma store_user_frame:
  assumes good: "vm_good U R D fs s" and sp: "user_space R D (mem s) r ps"
    and m: "\<And>a. page_of a \<noteq> f \<Longrightarrow> m a = mem s a" and f: "f \<in> D"
  shows "vm_good U R D fs (s\<lparr>mem := m\<rparr>)" "user_space R D m r ps" "others_kept R (D - {f}) r' (mem s) m"
proof -
  have m': "m a = mem s a" if "page_of a \<notin> D" for a by (rule m) (use f that in auto)
  note st = good_store[OF good m']
  show "vm_good U R D fs (s\<lparr>mem := m\<rparr>)" by (rule st)
  have wo: "window_only m r'" if "r' \<in> R" "window_only (mem s) r'" for r'
    by (rule window_only_same[OF that(2)]) (use st(4) that in blast)
  show "user_space R D m r ps"
    using sp st(2) wo by (auto simp: user_space_def elim: owns_pages_cong)
  show "others_kept R (D - {f}) r' (mem s) m"
    using st(2) wo m by (auto simp: others_kept_def)
qed


section \<open>A sample space\<close>

text \<open>Boot on a pool of \<open>n\<close> frames, then create one address space.\<close>

lemma frame_range_4:
  assumes "4 \<le> n"
  shows "frame_range n = 0x40100000 # 0x40101000 # 0x40102000 # 0x40103000 # drop 4 (frame_range n)"
proof -
  obtain k where "n = 4 + k" using le_Suc_ex[OF assms] ..
  then have "n = Suc (Suc (Suc (Suc k)))" by simp
  then show ?thesis by (simp add: frame_range_def map_upt_Suc eval_nat_numeral del: upt_Suc)
qed

lemma sample_space:
  fixes b :: "'a mmu_state_scheme"
  assumes b: "INSTALLED b = 0" and n: "4 \<le> n" "n \<le> 0x7F00"
  shows "wp (k_bind init_mmu (\<lambda>_. new_address_space)) (\<lambda>r t. r = 0x40103000 \<and>
      vm_good (set (frame_range n)) {0x40100000, 0x40103000} {} (drop 4 (frame_range n)) t \<and>
      user_space {0x40100000, 0x40103000} {} (mem t) 0x40103000 [] \<and>
      KERNEL_TTBR0 t = 0x40100000 \<and> ttbr0_el1 t = 0x40100000)
    (pool_of (frame_range n) b)"
proof -
  let ?s = "pool_of (frame_range n) b" and ?gs = "drop 4 (frame_range n)"
  have inv: "frames_inv (frame_range n) ?s" by (rule frames_inv_pool_of[OF frame_range_ok[OF n(2)]])
  have inv4: "frames_inv (0x40100000 # 0x40101000 # 0x40102000 # 0x40103000 # ?gs) ?s"
    using inv frame_range_4[OF n(1)] by simp
  have i0: "INSTALLED ?s = 0" using b by (simp add: pool_of_def)
  from init_mmu_vm_inv[OF inv4] obtain t where t: "init_mmu ?s = Inr ((), t)" "KERNEL_TTBR0 t = 0x40100000"
    "vm_inv {0x40100000} (0x40103000 # ?gs) t" "ttbr0_el1 t = 0x40100000" by (auto simp: wp_iff)
  have "vm_good (set (frame_range n)) {0x40100000} {} (0x40103000 # ?gs) t"
    using vm_ok_boot[OF inv i0 t(1)] t(2,3) by (simp add: vm_good_def)
  from good_new_space[OF this] t(2,4) have "wp new_address_space (\<lambda>r t. r = 0x40103000 \<and>
      vm_good (set (frame_range n)) {0x40100000, 0x40103000} {} ?gs t \<and>
      user_space {0x40100000, 0x40103000} {} (mem t) 0x40103000 [] \<and>
      KERNEL_TTBR0 t = 0x40100000 \<and> ttbr0_el1 t = 0x40100000) t"
  proof (elim wp_mono conjE, intro conjI)
    fix r u assume *: "r = 0x40103000" "vm_only t u" "window_only (mem u) 0x40103000"
      "vm_good (set (frame_range n)) {0x40103000, 0x40100000} {} ?gs u"
      "\<forall>va. table_index va 39 \<noteq> 0 \<longrightarrow> leaf (mem u) 0x40103000 va = 0"
    show "user_space {0x40100000, 0x40103000} {} (mem u) 0x40103000 []"
      using *(3,5) by (auto simp: user_space_def intro!: owns_pages_new dest: user_va_not_kernel)
    show "KERNEL_TTBR0 u = 0x40100000" "ttbr0_el1 u = 0x40100000"
      using load_only_fields[OF load_only_vm[OF *(2)]] t by simp_all
    show "vm_good (set (frame_range n)) {0x40100000, 0x40103000} {} ?gs u" using *(4) by (simp add: insert_commute)
  qed
  then show ?thesis by - (rule wp_seq, rule t(1))
qed

end
