(* ===== verification/Elf.thy ===== *)
theory Elf
  imports User_Space
begin

unbundle bit_operations_syntax

text \<open>
  The program loader of \<^verbatim>\<open>kernel/src/elf.rs\<close>: the little-endian readers, header validation
  and the loop that maps every \<^verbatim>\<open>PT_LOAD\<close> segment page by page into a new address space.
  An image is the byte slice of the source; the vector \<^verbatim>\<open>owned\<close> is threaded as a list.
\<close>

section \<open>Header fields\<close>

definition E_TYPE :: usize where "E_TYPE = 16"
definition E_MACHINE :: usize where "E_MACHINE = 18"
definition E_ENTRY :: usize where "E_ENTRY = 24"
definition E_PHOFF :: usize where "E_PHOFF = 32"
definition E_PHENTSIZE :: usize where "E_PHENTSIZE = 54"
definition E_PHNUM :: usize where "E_PHNUM = 56"

text \<open>\<^verbatim>\<open>from_le_bytes\<close>: the first byte is the least significant.\<close>

primrec from_le_bytes :: "u8 list \<Rightarrow> 'a::len word" where
  "from_le_bytes [] = 0"
| "from_le_bytes (b # bs) = ucast b OR push_bit 8 (from_le_bytes bs)"

definition k_byte :: "u8 list \<Rightarrow> usize \<Rightarrow> ('s, u8) kfn" where
  "k_byte b off = k_index b (unat off)"

definition read_u16 :: "u8 list \<Rightarrow> usize \<Rightarrow> ('s, u16) kfn" where
  "read_u16 b off =
     k_bind (k_byte b off) (\<lambda>b0.
     k_bind (k_add off 1) (\<lambda>o1. k_bind (k_byte b o1) (\<lambda>b1.
     k_return (from_le_bytes [b0, b1]))))"

definition read_u32 :: "u8 list \<Rightarrow> usize \<Rightarrow> ('s, u32) kfn" where
  "read_u32 b off =
     k_bind (k_byte b off) (\<lambda>b0.
     k_bind (k_add off 1) (\<lambda>o1. k_bind (k_byte b o1) (\<lambda>b1.
     k_bind (k_add off 2) (\<lambda>o2. k_bind (k_byte b o2) (\<lambda>b2.
     k_bind (k_add off 3) (\<lambda>o3. k_bind (k_byte b o3) (\<lambda>b3.
     k_return (from_le_bytes [b0, b1, b2, b3]))))))))"

text \<open>The slice \<^verbatim>\<open>b[off..off + 8]\<close> panics when it leaves the image.\<close>

definition read_u64_le :: "u8 list \<Rightarrow> usize \<Rightarrow> ('s, u64) kfn" where
  "read_u64_le b off =
     k_bind (k_add off 8) (\<lambda>e.
     if unat e \<le> length b then k_return (from_le_bytes (take 8 (drop (unat off) b)))
     else k_panic IndexOutOfBounds)"

definition validate :: "u8 list \<Rightarrow> ('s, usize) kfn" where
  "validate img =
     k_bind (k_assert (64 \<le> length img) ''ELF image too small for a header'') (\<lambda>_.
     k_bind (k_assert (take 4 img = [0x7F, 0x45, 0x4C, 0x46]) ''bad ELF magic'') (\<lambda>_.
     k_bind (k_byte img 4) (\<lambda>class.
     k_bind (k_assert (class = 2) ''not ELFCLASS64'') (\<lambda>_.
     k_bind (read_u16 img E_TYPE) (\<lambda>ty.
     k_bind (k_assert (ty = 2) ''not ET_EXEC'') (\<lambda>_.
     k_bind (read_u16 img E_MACHINE) (\<lambda>mach.
     k_bind (k_assert (mach = 0xB7) ''not EM_AARCH64'') (\<lambda>_.
     read_u64_le img E_ENTRY))))))))"

section \<open>Program headers and the result of loading\<close>

definition P_TYPE :: usize where "P_TYPE = 0"
definition P_FLAGS :: usize where "P_FLAGS = 4"
definition P_OFFSET :: usize where "P_OFFSET = 8"
definition P_VADDR :: usize where "P_VADDR = 16"
definition P_FILESZ :: usize where "P_FILESZ = 32"
definition P_MEMSZ :: usize where "P_MEMSZ = 40"

definition PT_LOAD :: u32 where "PT_LOAD = 1"
definition PF_X :: u32 where "PF_X = 1"
definition PF_W :: u32 where "PF_W = 2"

definition MAX_SEGMENTS :: nat where "MAX_SEGMENTS = 8"

record Range =
  r_start :: usize
  r_end :: usize
  r_writable :: bool

record Loaded =
  l_entry :: usize
  l_ranges :: "Range list"
  l_count :: nat

definition elf_align_up :: "usize \<Rightarrow> ('s, usize) kfn" where
  "elf_align_up x =
     k_bind (k_add x FRAME_SIZE) (\<lambda>y.
     k_bind (k_sub y 1) (\<lambda>z. k_return (z AND NOT (FRAME_SIZE - 1))))"

text \<open>The fields of one program header the loader reads, after \<^verbatim>\<open>memsz\<close> and the flags.\<close>

record segment =
  sg_vaddr :: usize
  sg_memsz :: usize
  sg_filesz :: usize
  sg_offset :: usize
  sg_executable :: bool

definition segment_perms :: "segment \<Rightarrow> u64" where
  "segment_perms seg = (if sg_executable seg then PAGE_USER_RX else PAGE_USER_RW)"

text \<open>The byte loop over one frame.\<close>

definition copy_page :: "u8 list \<Rightarrow> segment \<Rightarrow> usize \<Rightarrow> usize \<Rightarrow> ('a mmu_state_scheme, unit) kfn" where
  "copy_page img seg page dst =
     k_for (map of_nat [0..<unat FRAME_SIZE]) (\<lambda>b.
       k_bind (k_add page b) (\<lambda>seg_off.
       k_bind (if seg_off < sg_filesz seg
               then k_bind (k_add (sg_offset seg) seg_off) (\<lambda>i. k_byte img i)
               else k_return 0) (\<lambda>byte.
       write_u8 (dst + b) byte)))"

text \<open>The body of the page loop: fill a fresh frame, then install the user mapping.\<close>

definition load_page :: "u8 list \<Rightarrow> usize \<Rightarrow> segment \<Rightarrow> usize \<Rightarrow> ('a mmu_state_scheme, usize \<times> usize) kfn" where
  "load_page img l0 seg page =
     k_bind alloc_frame (\<lambda>fo.
     k_bind (k_expect ''out of frames loading a user segment'' fo) (\<lambda>frame.
     k_bind (copy_page img seg page frame) (\<lambda>_.
     k_bind (k_when (sg_executable seg) (sync_instruction_cache frame FRAME_SIZE)) (\<lambda>_.
     k_bind (k_add (sg_vaddr seg) page) (\<lambda>va.
     k_bind (map_page_in l0 va frame (segment_perms seg)) (\<lambda>_.
     k_return (va, frame)))))))"

text \<open>
  \<^verbatim>\<open>while page < align_up(memsz)\<close>; the bound does not change in the loop, so it is computed
  once by the caller.
\<close>

function load_pages :: "u8 list \<Rightarrow> usize \<Rightarrow> segment \<Rightarrow> usize \<Rightarrow> usize \<Rightarrow> (usize \<times> usize) list \<Rightarrow>
    ('a mmu_state_scheme, (usize \<times> usize) list) kfn" where
  "load_pages img l0 seg limit page owned =
     (if page < limit then
        k_bind (load_page img l0 seg page) (\<lambda>pf.
        case checked_add page FRAME_SIZE of
          None \<Rightarrow> k_panic ArithmeticOverflow
        | Some page' \<Rightarrow> load_pages img l0 seg limit page' (owned @ [pf]))
      else k_return owned)"
  by pat_completeness auto
termination
  by (relation "measure (\<lambda>(img, l0, seg, limit, page, owned). 2 ^ 64 - unat page)")
    (auto simp: checked_add_def unat_word_ariths FRAME_SIZE_def split: if_splits)

declare load_pages.simps [simp del]

text \<open>
  The reading half of the loop over program headers, up to the segment's permissions;
  \<open>None\<close> is \<^verbatim>\<open>continue\<close>. A field is read at \<^verbatim>\<open>ph + P_...\<close>.
\<close>

definition field_u32 :: "u8 list \<Rightarrow> usize \<Rightarrow> usize \<Rightarrow> ('s, u32) kfn" where
  "field_u32 img ph field = k_bind (k_add ph field) (read_u32 img)"

definition field_u64 :: "u8 list \<Rightarrow> usize \<Rightarrow> usize \<Rightarrow> ('s, u64) kfn" where
  "field_u64 img ph field = k_bind (k_add ph field) (read_u64_le img)"

definition read_segment :: "u8 list \<Rightarrow> usize \<Rightarrow> ('s, segment option) kfn" where
  "read_segment img ph =
     k_bind (field_u32 img ph P_TYPE) (\<lambda>ty.
     if ty \<noteq> PT_LOAD then k_return None
     else
       k_bind (field_u64 img ph P_MEMSZ) (\<lambda>memsz.
       if memsz = 0 then k_return None
       else
         k_bind (field_u64 img ph P_FILESZ) (\<lambda>filesz.
         k_bind (field_u64 img ph P_VADDR) (\<lambda>vaddr.
         k_bind (field_u64 img ph P_OFFSET) (\<lambda>offset.
         k_bind (field_u32 img ph P_FLAGS) (\<lambda>flags.
         k_bind (k_assert (vaddr mod FRAME_SIZE = 0) ''segment vaddr not page-aligned'') (\<lambda>_.
         let executable = flags AND PF_X \<noteq> 0 in
         k_bind (if executable
                 then k_assert (flags AND PF_W = 0) ''W^X violated: segment is both W and X''
                 else k_return ()) (\<lambda>_.
         k_return (Some \<lparr>sg_vaddr = vaddr, sg_memsz = memsz, sg_filesz = filesz, sg_offset = offset,
           sg_executable = executable\<rparr>)))))))))"

definition load_segment :: "u8 list \<Rightarrow> usize \<Rightarrow> segment \<Rightarrow> Range list \<times> nat \<times> (usize \<times> usize) list \<Rightarrow>
    ('a mmu_state_scheme, Range list \<times> nat \<times> (usize \<times> usize) list) kfn" where
  "load_segment img l0 seg = (\<lambda>(ranges, count, owned).
     k_bind (elf_align_up (sg_memsz seg)) (\<lambda>limit.
     k_bind (load_pages img l0 seg limit 0 owned) (\<lambda>owned'.
     k_bind (k_assert (count < MAX_SEGMENTS) ''too many PT_LOAD segments'') (\<lambda>_.
     k_bind (k_add (sg_vaddr seg) (sg_memsz seg)) (\<lambda>e.
     k_return (ranges[count := \<lparr>r_start = sg_vaddr seg, r_end = e, r_writable = \<not> sg_executable seg\<rparr>],
       Suc count, owned'))))))"

primrec load_headers :: "u8 list \<Rightarrow> usize \<Rightarrow> usize \<Rightarrow> usize \<Rightarrow> usize list \<Rightarrow>
    Range list \<times> nat \<times> (usize \<times> usize) list \<Rightarrow>
    ('a mmu_state_scheme, Range list \<times> nat \<times> (usize \<times> usize) list) kfn" where
  "load_headers img l0 phoff phentsize [] acc = k_return acc"
| "load_headers img l0 phoff phentsize (i # is) acc =
     k_bind (k_bind (k_mul i phentsize) (k_add phoff)) (\<lambda>ph.
     k_bind (read_segment img ph) (\<lambda>so.
     case so of
       None \<Rightarrow> load_headers img l0 phoff phentsize is acc
     | Some seg \<Rightarrow> k_bind (load_segment img l0 seg acc) (load_headers img l0 phoff phentsize is)))"

definition load :: "u8 list \<Rightarrow> u64 \<Rightarrow> (usize \<times> usize) list \<Rightarrow>
    ('a mmu_state_scheme, Loaded \<times> (usize \<times> usize) list) kfn" where
  "load img ttbr0 owned =
     k_bind (validate img) (\<lambda>entry.
     let l0 = l0_ptr ttbr0 in
     k_bind (read_u64_le img E_PHOFF) (\<lambda>phoff.
     k_bind (read_u16 img E_PHENTSIZE) (\<lambda>phentsize.
     k_bind (read_u16 img E_PHNUM) (\<lambda>phnum.
     k_bind (load_headers img l0 phoff (ucast phentsize) (map of_nat [0..<unat phnum])
       (replicate MAX_SEGMENTS \<lparr>r_start = 0, r_end = 0, r_writable = False\<rparr>, 0, owned))
       (\<lambda>(ranges, count, owned').
     k_return (\<lparr>l_entry = entry, l_ranges = ranges, l_count = count\<rparr>, owned'))))))"


section \<open>The readers\<close>

lemma wp_byte [wp_rules]: "wp (k_byte b off) Q = (\<lambda>s. unat off < length b \<and> Q (b ! unat off) s)"
  by (rule ext) (simp add: k_byte_def wp_rules)

lemma run_byte [run_simps]: "k_byte b off s = (if unat off < length b then Inr (b ! unat off, s) else Inl IndexOutOfBounds)"
  by (simp add: k_byte_def run_simps)

lemma read_u16_run:
  assumes "unat off + 1 < length b" "length b < 2 ^ 63"
  shows "read_u16 b off s = Inr (from_le_bytes [b ! unat off, b ! (unat off + 1)], s)"
proof -
  have "unat (off + 1) = unat off + 1" using assms by (simp add: unat_word_ariths)
  then show ?thesis using assms by (simp add: read_u16_def run_simps)
qed

lemma read_u32_run:
  assumes "unat off + 3 < length b" "length b < 2 ^ 63"
  shows "read_u32 b off s = Inr (from_le_bytes [b ! unat off, b ! (unat off + 1), b ! (unat off + 2), b ! (unat off + 3)], s)"
proof -
  have "unat (off + 1) = unat off + 1" "unat (off + 2) = unat off + 2" "unat (off + 3) = unat off + 3"
    using assms by (simp_all add: unat_word_ariths)
  then show ?thesis using assms by (simp add: read_u32_def run_simps)
qed

lemma read_u64_le_run:
  assumes "unat off + 8 \<le> length b" "length b < 2 ^ 63"
  shows "read_u64_le b off s = Inr (from_le_bytes (take 8 (drop (unat off) b)), s)"
proof -
  have "unat (off + 8) = unat off + 8" using assms by (simp add: unat_word_ariths)
  then show ?thesis using assms by (simp add: read_u64_le_def run_simps)
qed

lemma from_le_bytes_2: "(from_le_bytes [a, b] :: u16) = from_le_bytes [c, d] \<longleftrightarrow> a = c \<and> b = d"
proof
  assume e: "(from_le_bytes [a, b] :: u16) = from_le_bytes [c, d]"
  have b: "bit (from_le_bytes [x, y] :: u16) n \<longleftrightarrow> (if n < 8 then bit x n else n < 16 \<and> bit y (n - 8))" for x y n
    by (auto simp: bit_simps dest: bit_imp_le_length)
  have "bit a n = bit c n" if "n < 8" for n using b[of a b n] b[of c d n] that e by simp
  moreover have "bit b n = bit d n" if "n < 8" for n using b[of a b "n + 8"] b[of c d "n + 8"] that e by simp
  ultimately show "a = c \<and> b = d" by (auto intro!: bit_word_eqI)
qed simp

lemma from_le_bytes_header: "(2 :: u16) = from_le_bytes [2, 0]" "(0xB7 :: u16) = from_le_bytes [0xB7, 0]"
  by simp_all

text \<open>The header checks, in order.\<close>

lemma validate_run:
  assumes "length img < 2 ^ 63"
  shows "validate img s =
    (if length img < 64 then Inl (Assertion ''ELF image too small for a header'')
     else if take 4 img \<noteq> [0x7F, 0x45, 0x4C, 0x46] then Inl (Assertion ''bad ELF magic'')
     else if img ! 4 \<noteq> 2 then Inl (Assertion ''not ELFCLASS64'')
     else if \<not> (img ! 16 = 2 \<and> img ! 17 = 0) then Inl (Assertion ''not ET_EXEC'')
     else if \<not> (img ! 18 = 0xB7 \<and> img ! 19 = 0) then Inl (Assertion ''not EM_AARCH64'')
     else Inr (from_le_bytes (take 8 (drop 24 img)), s))"
proof (cases "64 \<le> length img")
  case True
  have e: "unat E_TYPE = 16" "unat E_MACHINE = 18" "unat E_ENTRY = 24" by (simp_all add: E_TYPE_def E_MACHINE_def E_ENTRY_def)
  have "read_u16 img E_TYPE s = Inr (from_le_bytes [img ! 16, img ! 17], s)"
    "read_u16 img E_MACHINE s = Inr (from_le_bytes [img ! 18, img ! 19], s)"
    "read_u64_le img E_ENTRY s = Inr (from_le_bytes (take 8 (drop 24 img)), s)"
    using read_u16_run[of E_TYPE img s] read_u16_run[of E_MACHINE img s] read_u64_le_run[of E_ENTRY img s] assms True
    by (simp_all add: e)
  then show ?thesis
    unfolding validate_def from_le_bytes_header using True by (simp add: run_simps from_le_bytes_2 del: from_le_bytes.simps)
qed (simp add: validate_def run_simps)

section \<open>Page-sized steps\<close>

lemma elf_align_up_run:
  assumes "unat x + 4096 < 2 ^ 64"
  shows "elf_align_up x s = Inr (4096 * of_nat ((unat x + 4095) div 4096), s)"
proof -
  have u: "unat (x + 4096) = unat x + 4096" using assms by (simp add: unat_word_ariths)
  then have "unat (x + 4096 - 1) = unat x + 4095" by (subst unat_sub) (simp_all add: word_le_nat_alt)
  then have "unat ((x + 4096 - 1) AND NOT 0xFFF) = 4096 * ((unat x + 4095) div 4096)"
    by (simp only: unat_and_not_0xFFF minus_mod_eq_mult_div)
  moreover have "4096 * ((unat x + 4095) div 4096) < 2 ^ 64" using assms by linarith
  ultimately have "(x + 4096 - 1) AND NOT 0xFFF = of_nat (4096 * ((unat x + 4095) div 4096))"
    unfolding word_unat_eq_iff by (simp only: unat_of_nat) simp
  moreover have "(1 :: usize) \<le> x + 4096" by (simp add: word_le_nat_alt u)
  ultimately show ?thesis using assms by (simp add: elf_align_up_def run_simps FRAME_SIZE_def)
qed

definition fill_mem :: "usize \<Rightarrow> (nat \<Rightarrow> u8) \<Rightarrow> nat \<Rightarrow> memory \<Rightarrow> memory" where
  "fill_mem dst g n m = fold (\<lambda>b m. st8 m (dst + of_nat b) (g b)) [0..<n] m"

lemma fill_mem_Suc: "fill_mem dst g (Suc n) m = st8 (fill_mem dst g n m) (dst + of_nat n) (g n)"
  by (simp add: fill_mem_def)

lemma fill_mem_page:
  assumes "page_aligned dst" "n \<le> 4096"
  shows "page_of a \<noteq> dst \<Longrightarrow> fill_mem dst g n m a = m a"
    and "b < 4096 \<Longrightarrow> ld8 (fill_mem dst g n m) (dst + of_nat b) = (if b < n then g b else ld8 m (dst + of_nat b))"
proof -
  have small: "of_nat k < (0x1000 :: usize)" if "k < 4096" for k
    using that by (simp add: word_less_nat_alt unat_of_nat)
  have cellp: "page_of (cell (dst + of_nat k)) = dst" if "k < 4096" for k
    using page_of_add[OF assms(1) small[OF that]] by (simp add: page_of_cell)
  have inj: "dst + of_nat k = dst + of_nat b \<longleftrightarrow> k = b" if "k < 4096" "b < 4096" for k b
    using that by (simp add: word_unat_eq_iff[of "of_nat k"] unat_of_nat)
  show "fill_mem dst g n m a = m a" if "page_of a \<noteq> dst"
    using assms(2)
  proof (induction n)
    case (Suc n)
    have "cell (dst + of_nat n) \<noteq> a" using cellp[of n] that Suc.prems by auto
    then show ?case using Suc by (simp add: fill_mem_Suc st8_cell_other)
  qed (simp add: fill_mem_def)
  show "ld8 (fill_mem dst g n m) (dst + of_nat b) = (if b < n then g b else ld8 m (dst + of_nat b))" if "b < 4096"
    using assms(2)
  proof (induction n)
    case (Suc n)
    then show ?case using inj[of n b] that by (auto simp: fill_mem_Suc ld8_st8)
  qed (simp add: fill_mem_def)
qed

lemma fill_run:
  assumes "\<And>b t. b < n \<Longrightarrow> body (of_nat b) t = Inr ((), t\<lparr>mem := st8 (mem t) (dst + of_nat b) (g b)\<rparr>)"
  shows "k_for (map of_nat [0..<n]) body s = Inr ((), s\<lparr>mem := fill_mem dst g n (mem s)\<rparr>)"
  using assms
proof (induction n)
  case (Suc n)
  then show ?case by (simp add: k_for_append run_simps fill_mem_Suc)
qed (simp add: fill_mem_def run_simps)

text \<open>The byte at offset \<open>k\<close> of a segment: from the file, then zeros.\<close>

definition seg_byte :: "u8 list \<Rightarrow> segment \<Rightarrow> nat \<Rightarrow> u8" where
  "seg_byte img seg k = (if k < unat (sg_filesz seg) then img ! (unat (sg_offset seg) + k) else 0)"

lemma copy_page_run:
  assumes "unat page + 4096 < 2 ^ 64" "length img < 2 ^ 63" "unat (sg_offset seg) + unat (sg_filesz seg) \<le> length img"
  shows "copy_page img seg page dst s =
    Inr ((), s\<lparr>mem := fill_mem dst (\<lambda>b. seg_byte img seg (unat page + b)) 4096 (mem s)\<rparr>)"
proof -
  have "unat FRAME_SIZE = 4096" by (simp add: FRAME_SIZE_def)
  then show ?thesis
    unfolding copy_page_def
  proof (simp only:, intro fill_run)
    fix b :: nat and t :: "'a mmu_state_scheme" assume b: "b < 4096"
    have u: "unat (of_nat b :: usize) = b" using b by (simp add: unat_of_nat)
    have pb: "unat (page + of_nat b) = unat page + b" using b assms(1) by (simp add: unat_word_ariths u)
    have "unat (sg_offset seg + (page + of_nat b)) = unat (sg_offset seg) + (unat page + b)"
      if "unat page + b < unat (sg_filesz seg)"
      using that assms(2,3) by (subst unat_word_ariths) (simp add: pb)
    then show "k_bind (k_add page (of_nat b)) (\<lambda>seg_off.
       k_bind (if seg_off < sg_filesz seg
               then k_bind (k_add (sg_offset seg) seg_off) (\<lambda>i. k_byte img i)
               else k_return 0) (\<lambda>byte.
       write_u8 (dst + of_nat b) byte)) t = Inr ((), t\<lparr>mem := st8 (mem t) (dst + of_nat b) (seg_byte img seg (unat page + b))\<rparr>)"
      using b assms by (simp add: run_simps u pb seg_byte_def word_less_nat_alt write_u8_def)
  qed
qed

text \<open>Cache maintenance returns and covers every byte of the range.\<close>

lemma cache_lines_some:
  assumes "unat limit + 64 < 2 ^ 64"
  shows "\<exists>ls. cache_lines p limit = Some ls \<and>
    (\<forall>a. p \<le> a \<longrightarrow> a < limit \<longrightarrow> (\<exists>l \<in> set ls. unat l \<le> unat a \<and> unat a < unat l + 64))"
  using assms
proof (induction p limit rule: cache_lines.induct)
  case (1 p limit)
  show ?case
  proof (cases "p < limit")
    case True
    then have c: "checked_add p 64 = Some (p + 64)" and u: "unat (p + 64) = unat p + 64"
      using 1(2) by (simp_all add: checked_add_def word_less_nat_alt unat_word_ariths)
    from 1(1)[OF True c 1(2)] obtain ls where ls: "cache_lines (p + 64) limit = Some ls"
      "\<forall>a. p + 64 \<le> a \<longrightarrow> a < limit \<longrightarrow> (\<exists>l \<in> set ls. unat l \<le> unat a \<and> unat a < unat l + 64)" by blast
    have "\<exists>l \<in> set (p # ls). unat l \<le> unat a \<and> unat a < unat l + 64" if "p \<le> a" "a < limit" for a
    proof (cases "p + 64 \<le> a")
      case True
      then show ?thesis using ls(2) that by auto
    next
      case False
      then show ?thesis using that by (auto simp: word_le_nat_alt u)
    qed
    moreover have "cache_lines p limit = Some (p # ls)" using True c ls(1) by (subst cache_lines.simps) simp
    ultimately show ?thesis by blast
  next
    case False
    then show ?thesis by (subst cache_lines.simps) (auto dest: order.strict_trans1)
  qed
qed


definition frame_synced :: "usize list \<Rightarrow> usize \<Rightarrow> bool" where
  "frame_synced ls f \<longleftrightarrow> (\<forall>b < 4096. \<exists>l \<in> set ls. unat l \<le> unat f + b \<and> unat f + b < unat l + 64)"

lemma frame_synced_more: "frame_synced ls f \<Longrightarrow> set ls \<subseteq> set ls' \<Longrightarrow> frame_synced ls' f"
  unfolding frame_synced_def by blast

lemma sync_frame:
  assumes "valid_frame f"
  shows "\<exists>ls. sync_instruction_cache f FRAME_SIZE s = Inr ((), s\<lparr>ic_synced := ic_synced s @ ls\<rparr>) \<and> frame_synced ls f"
proof -
  have f: "unat f + 4096 + 64 < 2 ^ 64" using assms by (simp add: valid_frame_unat)
  have st: "f AND NOT (64 - 1) = f"
  proof -
    have e: "(64 - 1 :: usize) = mask 6" by (simp add: mask_eq_exp_minus_1)
    show ?thesis unfolding e by (rule bit_word_eqI) (auto simp: bit_simps dest: valid_frame_bit[OF assms])
  qed
  have u: "unat (f + 4096) = unat f + 4096" using f by (simp add: unat_word_ariths)
  from cache_lines_some[of "f + 4096" f] obtain ls where ls: "cache_lines f (f + 4096) = Some ls"
    and cov: "\<forall>a. f \<le> a \<longrightarrow> a < f + 4096 \<longrightarrow> (\<exists>l \<in> set ls. unat l \<le> unat a \<and> unat a < unat l + 64)"
    using f u by auto
  have "\<exists>l \<in> set ls. unat l \<le> unat f + b \<and> unat f + b < unat l + 64" if "b < 4096" for b
  proof -
    have "unat (f + of_nat b) = unat f + b" using that f by (simp add: unat_word_ariths unat_of_nat)
    then show ?thesis using cov[rule_format, of "f + of_nat b"] that u by (simp add: word_le_nat_alt word_less_nat_alt)
  qed
  moreover have "sync_instruction_cache f FRAME_SIZE s = Inr ((), s\<lparr>ic_synced := ic_synced s @ ls\<rparr>)"
    unfolding sync_instruction_cache_def st Let_def using f ls by (simp add: run_simps FRAME_SIZE_def)
  ultimately show ?thesis unfolding frame_synced_def by blast
qed

section \<open>What loading builds\<close>

text \<open>A page the program asks for: its address, its permissions and its 4096 bytes.\<close>

type_synonym pspec = "usize \<times> u64 \<times> (nat \<Rightarrow> u8)"

definition page_loaded :: "'a mmu_state_scheme \<Rightarrow> usize \<times> usize \<Rightarrow> pspec \<Rightarrow> bool" where
  "page_loaded s = (\<lambda>(va, f) (va', p, g). va = va' \<and> (\<forall>b < 4096. ld8 (mem s) (f + of_nat b) = g b) \<and>
     (p = PAGE_USER_RX \<longrightarrow> frame_synced (ic_synced s) f))"

definition owned_pages :: "(usize \<times> usize) list \<Rightarrow> pspec list \<Rightarrow> upage list" where
  "owned_pages owned T = map2 (\<lambda>(va, f) (va', p, g). (va, f, p)) owned T"

text \<open>
  \<open>load_inv\<close>: from \<open>s0\<close>, the pages \<open>T\<close> have been loaded into space \<open>r\<close> on the frames of
  \<open>owned\<close>, which joined the data frames \<open>D\<close>; nothing else changed.
\<close>

definition load_inv :: "usize set \<Rightarrow> usize set \<Rightarrow> usize set \<Rightarrow> usize \<Rightarrow> 'a mmu_state_scheme \<Rightarrow> pspec list \<Rightarrow>
    (usize \<times> usize) list \<Rightarrow> usize list \<Rightarrow> 'a mmu_state_scheme \<Rightarrow> bool" where
  "load_inv U R D r s0 T owned fs s \<longleftrightarrow>
     vm_good U R (D \<union> snd ` set owned) fs s \<and> D \<inter> snd ` set owned = {} \<and>
     user_space R (D \<union> snd ` set owned) (mem s) r (owned_pages owned T) \<and>
     list_all2 (page_loaded s) owned T \<and> load_only s0 s \<and> others_kept R D r (mem s0) (mem s)"

lemma owned_pages_fst: "length owned = length T \<Longrightarrow> fst ` set (owned_pages owned T) = fst ` set owned"
  by (induction owned T rule: list_induct2) (auto simp: owned_pages_def)

lemma owned_pages_frames: "length owned = length T \<Longrightarrow> page_frames (owned_pages owned T) = snd ` set owned"
  by (induction owned T rule: list_induct2) (auto simp: owned_pages_def)

lemma owned_pages_snoc: "length owned = length T \<Longrightarrow>
   owned_pages (owned @ [(va, f)]) (T @ [(va', p, g)]) = owned_pages owned T @ [(va, f, p)]"
  by (simp add: owned_pages_def)

lemma page_loaded_vas: "list_all2 (page_loaded s) owned T \<Longrightarrow> map fst owned = map fst T"
  by (induction owned T rule: list_all2_induct) (auto simp: page_loaded_def)

lemma page_loaded_mono:
  assumes "page_loaded s (va, f) t" "\<And>a. page_of a = f \<Longrightarrow> mem s' a = mem s a" "set (ic_synced s) \<subseteq> set (ic_synced s')"
    "page_aligned f"
  shows "page_loaded s' (va, f) t"
proof -
  have "ld8 (mem s') (f + of_nat b) = ld8 (mem s) (f + of_nat b)" if "b < 4096" for b
  proof -
    have "of_nat b < (0x1000 :: usize)" using that by (simp add: word_less_nat_alt unat_of_nat)
    then have "page_of (cell (f + of_nat b)) = f" using page_of_add[OF assms(4)] by (simp add: page_of_cell)
    then show ?thesis using assms(2) by (simp add: ld8_def)
  qed
  then show ?thesis using assms(1) frame_synced_more[OF _ assms(3)] by (auto simp: page_loaded_def split: prod.splits)
qed

lemma load_inv_start:
  assumes "vm_good U R D fs s" "user_space R D (mem s) r []"
  shows "load_inv U R D r s [] [] fs s"
  using assms by (simp add: load_inv_def owned_pages_def)

text \<open>Allocating a frame, filling it and mapping it, as one step.\<close>

lemma load_inv_alloc:
  assumes inv: "load_inv U R D r s0 T owned (f # fs) s"
  shows "vm_good U R (insert f (D \<union> snd ` set owned)) fs (pop_state f s)" "f \<notin> D \<union> snd ` set owned" "valid_frame f"
    "user_space R (insert f (D \<union> snd ` set owned)) (mem (pop_state f s)) r (owned_pages owned T)"
proof -
  have g: "vm_good U R (D \<union> snd ` set owned) (f # fs) s" using inv by (simp add: load_inv_def)
  note a = good_alloc[OF g]
  show "vm_good U R (insert f (D \<union> snd ` set owned)) fs (pop_state f s)" "f \<notin> D \<union> snd ` set owned" "valid_frame f"
    by (rule a)+
  show "user_space R (insert f (D \<union> snd ` set owned)) (mem (pop_state f s)) r (owned_pages owned T)"
    using inv by (auto simp: load_inv_def pop_state_def intro: user_space_more)
qed

lemma load_inv_map:
  assumes inv: "load_inv U R D r s0 T owned (f # fs) s" and room: "3 \<le> length fs"
    and va: "user_va va" "page_aligned va" "va \<notin> fst ` set T" and p: "user_perm p"
    and m: "\<And>a. page_of a \<noteq> f \<Longrightarrow> m a = mem s a" and t: "t = (pop_state f s)\<lparr>mem := m, ic_synced := ic_synced s @ ls\<rparr>"
    and g: "\<And>b. b < 4096 \<Longrightarrow> ld8 m (f + of_nat b) = g b"
    and sync: "p = PAGE_USER_RX \<Longrightarrow> frame_synced ls f"
  shows "wp (map_page_in r va f p) (\<lambda>_ s'. \<exists>fs'. length fs \<le> length fs' + 3 \<and>
    load_inv U R D r s0 (T @ [(va, p, g)]) (owned @ [(va, f)]) fs' s') t"
proof -
  let ?D = "insert f (D \<union> snd ` set owned)"
  note a = load_inv_alloc[OF inv]
  have l2: "list_all2 (page_loaded s) owned T" and lo: "load_only s0 s" and ok: "others_kept R D r (mem s0) (mem s)"
    and dj: "D \<inter> snd ` set owned = {}" using inv by (auto simp: load_inv_def)
  have len: "length owned = length T" using l2 by (rule list_all2_lengthD)
  have vas: "fst ` set owned = fst ` set T" using page_loaded_vas[OF l2] by (metis set_map)
  have m': "\<And>a. page_of a \<noteq> f \<Longrightarrow> m a = mem (pop_state f s) a" using m by (simp add: pop_state_def)
  note st = store_user_frame[OF a(1,4) m', of f, OF _ insertI1, simplified]
  have good: "vm_good U R ?D fs t" using st(1) vm_good_cong[of "(pop_state f s)\<lparr>mem := m\<rparr>" t U R ?D fs] by (simp add: t)
  have sp: "user_space R ?D (mem t) r (owned_pages owned T)" using st(2) by (simp add: t)
  have ok1: "others_kept R (D \<union> snd ` set owned) r (mem s) (mem t)"
    using st(3)[of r] a(2) by (simp add: t pop_state_def)
  have tm: "mem t = m" "load_only s t" "ic_synced t = ic_synced s @ ls" by (simp_all add: t)
  show ?thesis
  proof (rule wp_mono[OF map_user_page[OF good sp room insertI1 _ va(1,2) _ p]], goal_cases)
    case 1 show ?case using a(2) len by (simp add: owned_pages_frames)
  next
    case 2 show ?case using va(3) len vas by (simp add: owned_pages_fst)
  next
    case (3 u s')
    then obtain n where n: "n \<le> 3" "vm_good U R ?D (drop n fs) s'"
      and sp': "user_space R ?D (mem s') r (owned_pages owned T @ [(va, f, p)])"
      and lo': "vm_only t s'" and ok': "others_kept R ?D r (mem t) (mem s')" by blast
    have D': "?D = D \<union> snd ` set (owned @ [(va, f)])" by auto
    have keep: "mem s' a = mem t a" if "page_of a \<in> ?D" for a using ok' that unfolding others_kept_def by blast
    have syn: "ic_synced s' = ic_synced s @ ls" using vm_only_synced[OF lo'] tm(3) by simp
    have al: "page_aligned h" if "h \<in> ?D" for h using vm_goodD(9)[OF good that] by (simp add: valid_frame_aligned)
    have "page_loaded s' x y" if pl: "page_loaded s x y" "x \<in> set owned" for x y
    proof (cases x)
      case (Pair v h)
      then have h: "h \<in> snd ` set owned" using pl(2) by force
      show ?thesis
        unfolding Pair
      proof (rule page_loaded_mono)
        show "page_loaded s (v, h) y" using pl(1) Pair by simp
        show "mem s' a = mem s a" if "page_of a = h" for a
          using keep[of a] m[of a] a(2) h that tm(1) by auto
      qed (use syn al h in auto)
    qed
    then have "list_all2 (page_loaded s') owned T"
      using l2 by (auto elim: list_all2_mono simp: list_all2_conv_all_nth)
    moreover have "page_loaded s' (va, f) (va, p, g)"
    proof (rule page_loaded_mono)
      show "page_loaded t (va, f) (va, p, g)" 
        using g frame_synced_more[OF sync, of "ic_synced s @ ls"] tm by (simp add: page_loaded_def)
    qed (use keep syn tm al in auto)
    ultimately have "list_all2 (page_loaded s') (owned @ [(va, f)]) (T @ [(va, p, g)])" by (simp add: list_all2_appendI)
    moreover have "others_kept R D r (mem s0) (mem s')"
      using others_kept_trans[OF ok others_kept_trans[OF others_kept_less[OF ok1] others_kept_less[OF ok']]] by blast
    moreover have "load_only s0 s'" using load_only_trans[OF lo load_only_trans[OF tm(2) load_only_vm[OF lo']]] .
    ultimately have "load_inv U R D r s0 (T @ [(va, p, g)]) (owned @ [(va, f)]) (drop n fs) s'"
      using n(2) sp' a(2) dj len unfolding load_inv_def D'[symmetric] owned_pages_snoc[OF len] by auto
    then show ?case using n(1) by (intro exI[of _ "drop n fs"]) auto
  qed
qed


section \<open>Segments\<close>

definition seg_ok :: "u8 list \<Rightarrow> segment \<Rightarrow> bool" where
  "seg_ok img seg \<longleftrightarrow> sg_memsz seg \<noteq> 0 \<and> page_aligned (sg_vaddr seg) \<and> USER_BASE \<le> sg_vaddr seg \<and>
     unat (sg_vaddr seg) + unat (sg_memsz seg) \<le> 2 * unat USER_BASE \<and>
     unat (sg_filesz seg) \<le> unat (sg_memsz seg) \<and>
     unat (sg_offset seg) + unat (sg_filesz seg) \<le> length img"

definition seg_npages :: "segment \<Rightarrow> nat" where
  "seg_npages seg = (unat (sg_memsz seg) + 4095) div 4096"

definition seg_page :: "u8 list \<Rightarrow> segment \<Rightarrow> nat \<Rightarrow> pspec" where
  "seg_page img seg j = (sg_vaddr seg + 4096 * of_nat j, segment_perms seg, \<lambda>b. seg_byte img seg (4096 * j + b))"

definition seg_pages :: "u8 list \<Rightarrow> segment \<Rightarrow> pspec list" where
  "seg_pages img seg = map (seg_page img seg) [0..<seg_npages seg]"

lemma segment_perms_user: "user_perm (segment_perms seg)"
  by (simp add: segment_perms_def user_perm_def)

lemma user_rx_not_rw: "PAGE_USER_RX \<noteq> PAGE_USER_RW" "PAGE_USER_RW \<noteq> PAGE_USER_RX"
  by (simp_all add: user_rw_value user_rx_value)

lemma segment_perms_rx [simp]: "segment_perms seg = PAGE_USER_RX \<longleftrightarrow> sg_executable seg"
  by (simp add: segment_perms_def user_rx_not_rw)

lemma seg_page_va:
  assumes ok: "seg_ok img seg" and j: "j < seg_npages seg"
  shows "unat (4096 * of_nat j :: usize) = 4096 * j" "unat (sg_vaddr seg + 4096 * of_nat j) = unat (sg_vaddr seg) + 4096 * j"
    "user_va (sg_vaddr seg + 4096 * of_nat j)" "page_aligned (sg_vaddr seg + 4096 * of_nat j)"
    "unat (sg_vaddr seg) + 4096 * Suc j \<le> 0x10000000000"
proof -
  have v: "0x8000000000 \<le> unat (sg_vaddr seg)" "unat (sg_vaddr seg) + unat (sg_memsz seg) \<le> 0x10000000000"
    "unat (sg_vaddr seg) mod 4096 = 0"
    using ok by (auto simp: seg_ok_def USER_BASE_def word_le_nat_alt page_aligned_iff_mod)
  have "4096 * j + 1 \<le> unat (sg_memsz seg)" using j unfolding seg_npages_def by linarith
  then have l: "unat (sg_vaddr seg) + 4096 * j < 0x10000000000" using v by linarith
  moreover have m: "(unat (sg_vaddr seg) + 4096 * j) mod 4096 = 0" using v(3) by simp
  ultimately have "unat (sg_vaddr seg) + 4096 * j + 4096 \<le> 0x10000000000"
    using page_less_iff[of "unat (sg_vaddr seg) + 4096 * j" "0x10000000000"] by simp
  then show "unat (sg_vaddr seg) + 4096 * Suc j \<le> 0x10000000000" by simp
  show u: "unat (4096 * of_nat j :: usize) = 4096 * j" using l v(1) by (simp add: unat_word_ariths unat_of_nat)
  show u': "unat (sg_vaddr seg + 4096 * of_nat j) = unat (sg_vaddr seg) + 4096 * j"
    using l by (subst unat_word_ariths) (simp add: u)
  show "user_va (sg_vaddr seg + 4096 * of_nat j)" unfolding user_va_unat u' using l v(1) by simp
  show "page_aligned (sg_vaddr seg + 4096 * of_nat j)" unfolding page_aligned_iff_mod u' by (rule m)
qed

lemma load_page_ok:
  assumes inv: "load_inv U R D r s0 T owned fs s" and room: "4 \<le> length fs"
    and ok: "seg_ok img seg" "length img < 2 ^ 63" and j: "j < seg_npages seg"
    and new: "sg_vaddr seg + 4096 * of_nat j \<notin> fst ` set T"
  shows "wp (load_page img r seg (4096 * of_nat j)) (\<lambda>pf s'. \<exists>fs'. length fs \<le> length fs' + 4 \<and>
    load_inv U R D r s0 (T @ [seg_page img seg j]) (owned @ [pf]) fs' s') s"
proof -
  note va = seg_page_va[OF ok(1) j]
  obtain f gs where fs: "fs = f # gs" using room by (cases fs) auto
  note inv = inv[unfolded fs]
  note a = load_inv_alloc[OF inv]
  have run: "alloc_frame s = Inr (Some f, pop_state f s)"
    using good_alloc(1) inv by (auto simp: load_inv_def)
  let ?g = "\<lambda>b. seg_byte img seg (4096 * j + b)"
  let ?m = "fill_mem f ?g 4096 (mem s)"
  have "unat (4096 * of_nat j :: usize) + 4096 < 2 ^ 64" using va(1,5) by simp
  from copy_page_run[OF this ok(2), of seg f "pop_state f s"] ok(1)
  have copy: "copy_page img seg (4096 * of_nat j) f (pop_state f s) = Inr ((), (pop_state f s)\<lparr>mem := ?m\<rparr>)"
    by (simp add: seg_ok_def va(1) pop_state_def)
  have al: "page_aligned f" using a(3) by (simp add: valid_frame_aligned)
  have vadd: "k_add (sg_vaddr seg) (4096 * of_nat j) t = Inr (sg_vaddr seg + 4096 * of_nat j, t)" for t :: "'a mmu_state_scheme"
    using va(1,5) by (simp add: run_simps)
  obtain ls where sync: "k_when (sg_executable seg) (sync_instruction_cache f FRAME_SIZE) ((pop_state f s)\<lparr>mem := ?m\<rparr>) =
      Inr ((), (pop_state f s)\<lparr>mem := ?m, ic_synced := ic_synced s @ ls\<rparr>)"
    and cov: "sg_executable seg \<Longrightarrow> frame_synced ls f"
  proof (cases "sg_executable seg")
    case True
    from sync_frame[OF a(3), of "(pop_state f s)\<lparr>mem := ?m\<rparr>"] True show ?thesis
      by (auto simp: run_simps pop_state_def intro: that)
  next
    case False
    then show ?thesis by (intro that[of "[]"]) (simp_all add: run_simps pop_state_def)
  qed
  let ?t = "(pop_state f s)\<lparr>mem := ?m, ic_synced := ic_synced s @ ls\<rparr>"
  have "wp (map_page_in r (sg_vaddr seg + 4096 * of_nat j) f (segment_perms seg)) (\<lambda>_ s'. \<exists>fs'. length gs \<le> length fs' + 3 \<and>
    load_inv U R D r s0 (T @ [seg_page img seg j]) (owned @ [(sg_vaddr seg + 4096 * of_nat j, f)]) fs' s') ?t"
    unfolding seg_page_def
    by (rule load_inv_map[OF inv _ va(3,4) new segment_perms_user])
      (use room fs fill_mem_page[OF al order.refl] cov in auto)
  then show ?thesis
    unfolding load_page_def
    by - (rule wp_seq, rule run, rule wp_seq, rule expect_some, rule wp_seq, rule copy, rule wp_seq, rule sync,
        rule wp_seq, rule vadd, erule wp_chain, auto simp: wp_return fs add.commute)
qed

lemma load_pages_ok:
  assumes "load_inv U R D r s0 (T @ map (seg_page img seg) [0..<j]) owned fs s" and "4 * (seg_npages seg - j) \<le> length fs"
    and ok: "seg_ok img seg" "length img < 2 ^ 63" and "j \<le> seg_npages seg"
    and new: "set (map fst (seg_pages img seg)) \<inter> fst ` set T = {}"
  shows "wp (load_pages img r seg (4096 * of_nat (seg_npages seg)) (4096 * of_nat j) owned) (\<lambda>owned' s'.
    \<exists>fs'. length fs \<le> length fs' + 4 * (seg_npages seg - j) \<and>
    load_inv U R D r s0 (T @ seg_pages img seg) owned' fs' s') s"
  using assms(1,2,5)
proof (induction "seg_npages seg - j" arbitrary: j owned fs s)
  case 0
  then have "j = seg_npages seg" by simp
  with 0 show ?case by (subst load_pages.simps) (auto simp: wp_rules seg_pages_def)
next
  case (Suc n)
  then have j: "j < seg_npages seg" by simp
  note va = seg_page_va[OF ok(1) j]
  have "unat (4096 * of_nat (seg_npages seg) :: usize) = 4096 * seg_npages seg"
    using seg_page_va(5)[OF ok(1), of "seg_npages seg - 1"] j by (simp add: unat_word_ariths unat_of_nat)
  then have lt: "4096 * of_nat j < (4096 * of_nat (seg_npages seg) :: usize)" using va(1) j by (simp add: word_less_nat_alt)
  have nxt: "checked_add (4096 * of_nat j) FRAME_SIZE = Some (4096 * of_nat (Suc j))"
  proof -
    have "4096 * of_nat (Suc j) = (4096 * of_nat j + 4096 :: usize)" by (simp add: distrib_left)
    moreover have "4096 * j + 4096 < 2 ^ 64" using va(5) by simp
    ultimately show ?thesis unfolding checked_add_def FRAME_SIZE_def va(1) by simp
  qed
  have "sg_vaddr seg + 4096 * of_nat j \<notin> fst ` set (T @ map (seg_page img seg) [0..<j])"
  proof -
    have "sg_vaddr seg + 4096 * of_nat i \<noteq> sg_vaddr seg + 4096 * of_nat j" if "i < j" for i
    proof -
      have "unat (sg_vaddr seg + 4096 * of_nat i) < unat (sg_vaddr seg + 4096 * of_nat j)"
        unfolding va(2) seg_page_va(2)[OF ok(1) order.strict_trans[OF that j]] using that by simp
      then show ?thesis by (metis less_irrefl)
    qed
    moreover have "sg_vaddr seg + 4096 * of_nat j \<notin> fst ` set T" using new j by (force simp: seg_pages_def seg_page_def)
    ultimately show ?thesis by (force simp: seg_page_def)
  qed
  from load_page_ok[OF Suc.prems(1) _ ok j this] Suc.prems(2) j
  have "wp (load_page img r seg (4096 * of_nat j)) (\<lambda>pf s'. \<exists>fs'. length fs \<le> length fs' + 4 \<and>
    load_inv U R D r s0 (T @ map (seg_page img seg) [0..<Suc j]) (owned @ [pf]) fs' s') s" by simp
  then show ?case
  proof (subst load_pages.simps, unfold if_P[OF lt] nxt option.case, elim wp_chain exE conjE)
    fix pf t fs1
    assume *: "length fs \<le> length fs1 + 4" "load_inv U R D r s0 (T @ map (seg_page img seg) [0..<Suc j]) (owned @ [pf]) fs1 t"
    have "n = seg_npages seg - Suc j" "Suc j \<le> seg_npages seg" "4 * (seg_npages seg - Suc j) \<le> length fs1"
      using Suc.hyps(2) Suc.prems(2) j *(1) by auto
    from Suc.hyps(1)[OF this(1) *(2) this(3,2)]
    show "wp (load_pages img r seg (4096 * of_nat (seg_npages seg)) (4096 * of_nat (Suc j)) (owned @ [pf]))
      (\<lambda>owned' s'. \<exists>fs'. length fs \<le> length fs' + 4 * (seg_npages seg - j) \<and>
        load_inv U R D r s0 (T @ seg_pages img seg) owned' fs' s') t"
      using *(1) j by (elim wp_mono exE conjE) (rule exI, auto)
  qed
qed


definition seg_range :: "segment \<Rightarrow> Range" where
  "seg_range seg = \<lparr>r_start = sg_vaddr seg, r_end = sg_vaddr seg + sg_memsz seg, r_writable = \<not> sg_executable seg\<rparr>"

lemma load_segment_ok:
  assumes inv: "load_inv U R D r s0 T owned fs s" and room: "4 * seg_npages seg \<le> length fs"
    and ok: "seg_ok img seg" "length img < 2 ^ 63" and c: "count < MAX_SEGMENTS"
    and new: "set (map fst (seg_pages img seg)) \<inter> fst ` set T = {}"
  shows "wp (load_segment img r seg (ranges, count, owned)) (\<lambda>(ranges', count', owned') s'.
    ranges' = ranges[count := seg_range seg] \<and> count' = Suc count \<and>
    (\<exists>fs'. length fs \<le> length fs' + 4 * seg_npages seg \<and> load_inv U R D r s0 (T @ seg_pages img seg) owned' fs' s')) s"
proof -
  have v: "unat (sg_vaddr seg) + unat (sg_memsz seg) \<le> 0x10000000000" using ok(1) by (simp add: seg_ok_def USER_BASE_def)
  then have al: "elf_align_up (sg_memsz seg) s = Inr (4096 * of_nat (seg_npages seg), s)"
    unfolding seg_npages_def by (intro elf_align_up_run) simp
  have ad: "k_add (sg_vaddr seg) (sg_memsz seg) t = Inr (sg_vaddr seg + sg_memsz seg, t)" for t :: "'a mmu_state_scheme"
    using v by (simp add: run_simps)
  have lp: "wp (load_pages img r seg (4096 * of_nat (seg_npages seg)) 0 owned) (\<lambda>owned' s'.
    \<exists>fs'. length fs \<le> length fs' + 4 * seg_npages seg \<and> load_inv U R D r s0 (T @ seg_pages img seg) owned' fs' s') s"
    using load_pages_ok[of U R D r s0 T img seg 0 owned fs s] inv room ok new by simp
  show ?thesis
    unfolding load_segment_def prod.case
    by (rule wp_seq, rule al, rule wp_chain[OF lp], rule wp_seq, rule assert_true[OF c], rule wp_seq, rule ad)
      (simp add: wp_return seg_range_def)
qed

section \<open>Program headers\<close>

definition u16_at :: "u8 list \<Rightarrow> nat \<Rightarrow> u16" where
  "u16_at img k = from_le_bytes [img ! k, img ! (k + 1)]"

definition u32_at :: "u8 list \<Rightarrow> nat \<Rightarrow> u32" where
  "u32_at img k = from_le_bytes [img ! k, img ! (k + 1), img ! (k + 2), img ! (k + 3)]"

definition u64_at :: "u8 list \<Rightarrow> nat \<Rightarrow> u64" where
  "u64_at img k = from_le_bytes (take 8 (drop k img))"

text \<open>The segment a program header at byte \<open>ph\<close> asks for, if any, and its well-formedness.\<close>

definition phdr_segment :: "u8 list \<Rightarrow> nat \<Rightarrow> segment option" where
  "phdr_segment img ph =
     (if u32_at img ph \<noteq> PT_LOAD \<or> u64_at img (ph + 40) = 0 then None
      else Some \<lparr>sg_vaddr = u64_at img (ph + 16), sg_memsz = u64_at img (ph + 40), sg_filesz = u64_at img (ph + 32),
        sg_offset = u64_at img (ph + 8), sg_executable = (u32_at img (ph + 4) AND PF_X \<noteq> 0)\<rparr>)"

definition phdr_ok :: "u8 list \<Rightarrow> nat \<Rightarrow> bool" where
  "phdr_ok img ph \<longleftrightarrow> ph + 48 \<le> length img \<and>
     (case phdr_segment img ph of None \<Rightarrow> True
      | Some seg \<Rightarrow> seg_ok img seg \<and> \<not> (sg_executable seg \<and> u32_at img (ph + 4) AND PF_W \<noteq> 0))"

lemma page_aligned_mod_word: "page_aligned v \<longleftrightarrow> v mod FRAME_SIZE = 0"
  by (simp add: page_aligned_iff_mod FRAME_SIZE_def word_unat_eq_iff unat_mod)

lemma read_segment_run:
  assumes ok: "phdr_ok img (unat ph)" and len: "length img < 2 ^ 63"
  shows "read_segment img ph s = Inr (phdr_segment img (unat ph), s)"
proof -
  have b: "unat ph + 48 \<le> length img" using ok by (simp add: phdr_ok_def)
  have u: "unat (ph + k) = unat ph + unat k" if "unat k \<le> 40" for k
    using that b len by (simp add: unat_word_ariths)
  have ad: "k_add ph k t = Inr (ph + k, t)" if "unat k \<le> 40" for k and t :: 'a
    using that b len by (simp add: run_simps)
  have r32: "field_u32 img ph k t = Inr (u32_at img (unat ph + unat k), t)" if "unat k \<le> 40" for k and t :: 'a
    unfolding field_u32_def run_bind ad[OF that] using read_u32_run[of "ph + k" img t] that b len by (simp add: u u32_at_def)
  have r64: "field_u64 img ph k t = Inr (u64_at img (unat ph + unat k), t)" if "unat k \<le> 40" for k and t :: 'a
    unfolding field_u64_def run_bind ad[OF that] using read_u64_le_run[of "ph + k" img t] that b len by (simp add: u u64_at_def)
  have flds: "unat P_TYPE = 0" "unat P_FLAGS = 4" "unat P_OFFSET = 8" "unat P_VADDR = 16" "unat P_FILESZ = 32" "unat P_MEMSZ = 40"
    by (simp_all add: P_TYPE_def P_FLAGS_def P_OFFSET_def P_VADDR_def P_FILESZ_def P_MEMSZ_def)
  show ?thesis
    using ok unfolding read_segment_def
    by (auto simp: flds r32 r64 phdr_segment_def phdr_ok_def run_simps seg_ok_def page_aligned_mod_word Let_def split: if_splits)
qed

definition elf_phdrs :: "u8 list \<Rightarrow> nat list" where
  "elf_phdrs img = map (\<lambda>i. unat (u64_at img 32) + i * unat (u16_at img 54)) [0..<unat (u16_at img 56)]"

definition elf_segments :: "u8 list \<Rightarrow> segment list" where
  "elf_segments img = List.map_filter (phdr_segment img) (elf_phdrs img)"

definition image_pages :: "u8 list \<Rightarrow> pspec list" where
  "image_pages img = concat (map (seg_pages img) (elf_segments img))"

definition header_ok :: "u8 list \<Rightarrow> bool" where
  "header_ok img \<longleftrightarrow> 64 \<le> length img \<and> length img < 2 ^ 63 \<and> take 4 img = [0x7F, 0x45, 0x4C, 0x46] \<and> img ! 4 = 2 \<and>
     img ! 16 = 2 \<and> img ! 17 = 0 \<and> img ! 18 = 0xB7 \<and> img ! 19 = 0"

definition image_ok :: "u8 list \<Rightarrow> bool" where
  "image_ok img \<longleftrightarrow> header_ok img \<and> list_all (phdr_ok img) (elf_phdrs img) \<and>
     length (elf_segments img) \<le> MAX_SEGMENTS \<and> distinct (map fst (image_pages img))"

definition put_ranges :: "Range list \<Rightarrow> nat \<Rightarrow> segment list \<Rightarrow> Range list" where
  "put_ranges ranges count segs = take count ranges @ map seg_range segs @ drop (count + length segs) ranges"

lemma load_headers_ok:
  assumes "load_inv U R D r s0 T owned fs s" and "4 * length (concat (map (seg_pages img) segs)) \<le> length fs"
    and "segs = List.map_filter (phdr_segment img) (map (\<lambda>i. unat phoff + i * unat phentsize) is)"
    and ok: "\<forall>i \<in> set is. phdr_ok img (unat phoff + i * unat phentsize)" "length img < 2 ^ 63"
    and "count + length segs \<le> MAX_SEGMENTS" "length ranges = MAX_SEGMENTS"
    and "distinct (map fst (concat (map (seg_pages img) segs)))"
      "set (map fst (concat (map (seg_pages img) segs))) \<inter> fst ` set T = {}"
  shows "wp (load_headers img r phoff phentsize (map of_nat is) (ranges, count, owned)) (\<lambda>(ranges', count', owned') s'.
    ranges' = put_ranges ranges count segs \<and> count' = count + length segs \<and>
    (\<exists>fs'. load_inv U R D r s0 (T @ concat (map (seg_pages img) segs)) owned' fs' s' \<and>
       length fs \<le> length fs' + 4 * length (concat (map (seg_pages img) segs)))) s"
  using assms
proof (induction "is" arbitrary: T owned fs s segs ranges count)
  case Nil
  then show ?case by (auto simp: wp_return put_ranges_def List.map_filter_simps)
next
  case (Cons i "is")
  let ?ph = "phoff + of_nat i * phentsize"
  have ph: "phdr_ok img (unat phoff + i * unat phentsize)" using Cons.prems(4) by simp
  then have b: "unat phoff + i * unat phentsize < 2 ^ 63" using ok(2) by (simp add: phdr_ok_def)
  have u: "unat (of_nat i * phentsize) = i * unat phentsize \<and> unat (of_nat i :: usize) * unat phentsize < 2 ^ 64"
  proof (cases "phentsize = 0")
    case False
    then have "0 < unat phentsize" by (simp add: unat_gt_0)
    then have "i * 1 \<le> i * unat phentsize" by (intro mult_le_mono2) simp
    then have "i < 2 ^ 63" using b by linarith
    then have i: "unat (of_nat i :: usize) = i" by (simp add: unat_of_nat)
    show ?thesis unfolding unat_word_ariths i using b by simp
  qed simp
  then have uph: "unat ?ph = unat phoff + i * unat phentsize" using b by (subst unat_word_ariths) simp
  have run_ph: "k_bind (k_mul (of_nat i) phentsize) (k_add phoff) t = Inr (?ph, t)" for t :: "'a mmu_state_scheme"
    using u b by (simp add: run_simps)
  have run_sg: "read_segment img ?ph t = Inr (phdr_segment img (unat phoff + i * unat phentsize), t)" for t :: "'a mmu_state_scheme"
    using read_segment_run[of img ?ph t] ph ok(2) uph by simp
  show ?case
  proof (cases "phdr_segment img (unat phoff + i * unat phentsize)")
    case None
    then have "segs = List.map_filter (phdr_segment img) (map (\<lambda>i. unat phoff + i * unat phentsize) is)"
      using Cons.prems(3) by (simp add: List.map_filter_simps)
    from Cons.IH[OF Cons.prems(1,2) this _ _ Cons.prems(6-9)] Cons.prems(4,5)
    have "wp (load_headers img r phoff phentsize (map of_nat is) (ranges, count, owned)) (\<lambda>(ranges', count', owned') s'.
      ranges' = put_ranges ranges count segs \<and> count' = count + length segs \<and>
      (\<exists>fs'. load_inv U R D r s0 (T @ concat (map (seg_pages img) segs)) owned' fs' s' \<and>
         length fs \<le> length fs' + 4 * length (concat (map (seg_pages img) segs)))) s" by simp
    then show ?thesis unfolding list.map load_headers.simps
      by - (rule wp_seq, rule run_ph, rule wp_seq, rule run_sg, simp add: None)
  next
    case (Some seg)
    define rest where "rest = List.map_filter (phdr_segment img) (map (\<lambda>i. unat phoff + i * unat phentsize) is)"
    have segs: "segs = seg # rest" using Cons.prems(3) Some by (simp add: List.map_filter_simps rest_def)
    have sok: "seg_ok img seg" using ph Some by (simp add: phdr_ok_def)
    have len: "length (seg_pages img seg) = seg_npages seg" by (simp add: seg_pages_def)
    have "wp (load_segment img r seg (ranges, count, owned)) (\<lambda>(ranges', count', owned') s'.
      ranges' = ranges[count := seg_range seg] \<and> count' = Suc count \<and>
      (\<exists>fs'. length fs \<le> length fs' + 4 * seg_npages seg \<and> load_inv U R D r s0 (T @ seg_pages img seg) owned' fs' s')) s"
      by (rule load_segment_ok[OF Cons.prems(1) _ sok ok(2)]) (use Cons.prems(2,6,9) in \<open>auto simp: segs len\<close>)
    note sg = this
    show ?thesis unfolding list.map load_headers.simps
    proof (rule wp_seq, rule run_ph, rule wp_seq, rule run_sg, simp only: Some option.case, rule wp_chain[OF sg], clarify)
      fix owned' s' fs'
      assume *: "length fs \<le> length fs' + 4 * seg_npages seg" "load_inv U R D r s0 (T @ seg_pages img seg) owned' fs' s'"
      have "wp (load_headers img r phoff phentsize (map of_nat is) (ranges[count := seg_range seg], Suc count, owned'))
        (\<lambda>(ranges', count', owned'') s'.
          ranges' = put_ranges (ranges[count := seg_range seg]) (Suc count) rest \<and> count' = Suc count + length rest \<and>
          (\<exists>fs''. load_inv U R D r s0 ((T @ seg_pages img seg) @ concat (map (seg_pages img) rest)) owned'' fs'' s' \<and>
             length fs' \<le> length fs'' + 4 * length (concat (map (seg_pages img) rest)))) s'"
      proof (rule Cons.IH[OF *(2) _ rest_def])
        have d: "distinct (map fst (seg_pages img seg) @ map fst (concat (map (seg_pages img) rest)))"
          using Cons.prems(8) by (simp only: segs list.map concat.simps map_append)
        then show "distinct (map fst (concat (map (seg_pages img) rest)))" unfolding distinct_append by blast
        show "set (map fst (concat (map (seg_pages img) rest))) \<inter> fst ` set (T @ seg_pages img seg) = {}"
          using d Cons.prems(9) unfolding segs distinct_append list.map concat.simps map_append set_append set_map image_Un
          by blast
      qed (use Cons.prems(2,4-7) * in \<open>auto simp: segs len\<close>)
      moreover have "put_ranges (ranges[count := seg_range seg]) (Suc count) rest = put_ranges ranges count segs"
        using Cons.prems(6,7) by (simp add: put_ranges_def segs take_Suc_conv_app_nth)
      ultimately show "wp (load_headers img r phoff phentsize (map of_nat is) (ranges[count := seg_range seg], Suc count, owned'))
        (\<lambda>(ranges', count', owned') s'. ranges' = put_ranges ranges count segs \<and> count' = count + length segs \<and>
          (\<exists>fs'. load_inv U R D r s0 (T @ concat (map (seg_pages img) segs)) owned' fs' s' \<and>
            length fs \<le> length fs' + 4 * length (concat (map (seg_pages img) segs)))) s'"
        using *(1) by (elim wp_mono) (auto simp: segs len, (rule exI, auto)?)
    qed
  qed
qed


definition loaded_of :: "u8 list \<Rightarrow> Loaded" where
  "loaded_of img = \<lparr>l_entry = u64_at img 24,
     l_ranges = put_ranges (replicate MAX_SEGMENTS \<lparr>r_start = 0, r_end = 0, r_writable = False\<rparr>) 0 (elf_segments img),
     l_count = length (elf_segments img)\<rparr>"

lemma loaded_ranges: "take (l_count (loaded_of img)) (l_ranges (loaded_of img)) = map seg_range (elf_segments img)"
  by (simp add: loaded_of_def put_ranges_def)

lemma image_ok_header:
  assumes "image_ok img"
  shows "validate img s = Inr (u64_at img 24, s)" "read_u64_le img E_PHOFF s = Inr (u64_at img 32, s)"
    "read_u16 img E_PHENTSIZE s = Inr (u16_at img 54, s)" "read_u16 img E_PHNUM s = Inr (u16_at img 56, s)"
proof -
  have h: "64 \<le> length img" "length img < 2 ^ 63" using assms by (auto simp: image_ok_def header_ok_def)
  show "validate img s = Inr (u64_at img 24, s)"
    using assms h by (simp add: validate_run image_ok_def header_ok_def u64_at_def)
  show "read_u64_le img E_PHOFF s = Inr (u64_at img 32, s)"
    using h read_u64_le_run[of E_PHOFF img s] by (simp add: E_PHOFF_def u64_at_def)
  show "read_u16 img E_PHENTSIZE s = Inr (u16_at img 54, s)" "read_u16 img E_PHNUM s = Inr (u16_at img 56, s)"
    using h read_u16_run[of E_PHENTSIZE img s] read_u16_run[of E_PHNUM img s]
    by (simp_all add: E_PHENTSIZE_def E_PHNUM_def u16_at_def del: from_le_bytes.simps)
qed

lemma load_ok:
  assumes good: "vm_good U R D fs s" and sp: "user_space R D (mem s) r []" and ok: "image_ok img"
    and room: "4 * length (image_pages img) \<le> length fs"
  shows "wp (load img r []) (\<lambda>(ld, owned) s'. ld = loaded_of img \<and>
    (\<exists>fs'. load_inv U R D r s (image_pages img) owned fs' s' \<and>
      length fs \<le> length fs' + 4 * length (image_pages img))) s"
proof -
  have h: "length img < 2 ^ 63" "\<forall>p \<in> set (elf_phdrs img). phdr_ok img p" "length (elf_segments img) \<le> MAX_SEGMENTS"
    "distinct (map fst (image_pages img))"
    using ok by (auto simp: image_ok_def header_ok_def list_all_iff)
  note hd = image_ok_header[OF ok]
  have r: "l0_ptr r = r" using vm_goodD(12)[OF good, of r] sp by (simp add: l0_ptr_def user_space_def)
  have e: "unat (ucast (u16_at img 54) :: usize) = unat (u16_at img 54)"
    using unsigned_less[of "u16_at img 54", where 'a = nat] by (simp add: unsigned_ucast_eq take_bit_nat_eq_self del: unsigned_less)
  have "wp (load_headers img r (u64_at img 32) (ucast (u16_at img 54)) (map of_nat [0..<unat (u16_at img 56)])
      (replicate MAX_SEGMENTS \<lparr>r_start = 0, r_end = 0, r_writable = False\<rparr>, 0, [])) (\<lambda>(ranges', count', owned') s'.
    ranges' = put_ranges (replicate MAX_SEGMENTS \<lparr>r_start = 0, r_end = 0, r_writable = False\<rparr>) 0 (elf_segments img) \<and>
    count' = 0 + length (elf_segments img) \<and>
    (\<exists>fs'. load_inv U R D r s ([] @ concat (map (seg_pages img) (elf_segments img))) owned' fs' s' \<and>
       length fs \<le> length fs' + 4 * length (concat (map (seg_pages img) (elf_segments img))))) s"
    by (rule load_headers_ok[OF load_inv_start[OF good sp]])
      (use room h e in \<open>auto simp: image_pages_def elf_segments_def elf_phdrs_def\<close>)
  then show ?thesis
    unfolding load_def Let_def r
    by - (rule wp_seq, rule hd, rule wp_seq, rule hd, rule wp_seq, rule hd, rule wp_seq, rule hd,
        elim wp_chain, auto simp: wp_return loaded_of_def image_pages_def)
qed

text \<open>What EL0 sees at an address of a loaded page.\<close>

lemma load_inv_walk:
  assumes inv: "load_inv U R D r s0 T owned fs s" and t: "(va, p, g) \<in> set T" and k: "k < 4096"
  shows "\<exists>f. hw_walk (mem s) r (va + of_nat k) = Some (f OR p, f + of_nat k) \<and> ld8 (mem s) (f + of_nat k) = g k \<and>
    valid_frame f \<and> user_perm p \<and> f \<in> snd ` set owned"
proof -
  have l2: "list_all2 (page_loaded s) owned T" and own: "owns_pages (mem s) r (owned_pages owned T)"
    using inv by (auto simp: load_inv_def user_space_def)
  from t obtain i where i: "i < length T" "T ! i = (va, p, g)" by (auto simp: in_set_conv_nth)
  then have io: "i < length owned" using list_all2_lengthD[OF l2] by simp
  obtain va' f where o: "owned ! i = (va', f)" by fastforce
  have pl: "page_loaded s (va', f) (va, p, g)" using list_all2_nthD[OF l2 io] i o by simp
  then have va': "va' = va" by (simp add: page_loaded_def)
  have fo: "f \<in> snd ` set owned" using nth_mem[OF io] o by force
  have "owned_pages owned T ! i = (va, f, p)" using i io o va' by (simp add: owned_pages_def)
  moreover have "i < length (owned_pages owned T)" using i io by (simp add: owned_pages_def)
  ultimately have mem: "(va, f, p) \<in> set (owned_pages owned T)" by (metis nth_mem)
  then have v: "user_va va" "page_aligned va" "valid_frame f" "user_perm p" using own by (auto simp: owns_pages_def)
  have k': "of_nat k < (0x1000 :: usize)" using k by (simp add: word_less_nat_alt unat_of_nat)
  have pg: "page_of (va + of_nat k) = va" "(va + of_nat k) AND 0xFFF = of_nat k"
    using page_of_add[OF v(2) k'] page_aligned_add_off[OF v(2) k'] by auto
  have u: "unat (va + of_nat k) = unat va + k"
    using v(1) k by (simp add: user_va_unat unat_word_ariths unat_of_nat)
  have "unat va + 4096 \<le> 0x10000000000"
    using page_less_iff[of "unat va" "0x10000000000"] v(1,2) by (simp add: user_va_unat page_aligned_iff_mod)
  then have uv: "user_va (va + of_nat k)" using v(1) k by (simp add: user_va_unat u)
  have "f OR of_nat k = f + of_nat k"
    using page_aligned_add_or[of f "of_nat k"] v(3) k' by (simp add: valid_frame_aligned)
  moreover have "hw_walk (mem s) r (va + of_nat k) = Some (f OR p, f OR ((va + of_nat k) AND 0xFFF))"
    by (rule owns_pages_walk[OF own _ uv]) (simp add: pg mem)
  moreover have "ld8 (mem s) (f + of_nat k) = g k" using pl k by (simp add: page_loaded_def)
  ultimately show ?thesis using v fo pg by auto
qed

lemma image_page_of:
  assumes ok: "image_ok img" and seg: "seg \<in> set (elf_segments img)" and k: "k < unat (sg_memsz seg)"
  shows "seg_page img seg (k div 4096) \<in> set (image_pages img)"
    and "sg_vaddr seg + of_nat k = (sg_vaddr seg + 4096 * of_nat (k div 4096)) + of_nat (k mod 4096)"
proof -
  have "k div 4096 < seg_npages seg" unfolding seg_npages_def using k by (simp add: div_less_iff_less_mult)
  then show "seg_page img seg (k div 4096) \<in> set (image_pages img)"
    using seg by (auto simp: image_pages_def seg_pages_def intro!: bexI[of _ seg])
  have "of_nat (4096 * (k div 4096) + k mod 4096) = (4096 * of_nat (k div 4096) + of_nat (k mod 4096) :: usize)"
    by (simp only: of_nat_add of_nat_mult of_nat_numeral)
  then show "sg_vaddr seg + of_nat k = (sg_vaddr seg + 4096 * of_nat (k div 4096)) + of_nat (k mod 4096)"
    by (simp add: add.assoc)
qed

lemma load_inv_byte:
  assumes inv: "load_inv U R D r s0 (image_pages img @ T) owned fs s"
    and ok: "image_ok img" and seg: "seg \<in> set (elf_segments img)" and k: "k < unat (sg_memsz seg)"
  shows "\<exists>d pa. hw_walk (mem s) r (sg_vaddr seg + of_nat k) = Some (d, pa) \<and> ld8 (mem s) pa = seg_byte img seg k \<and>
    el0_read d \<and> (el0_exec d \<longleftrightarrow> sg_executable seg) \<and> (el0_write d \<longleftrightarrow> \<not> sg_executable seg)"
proof -
  have "(sg_vaddr seg + 4096 * of_nat (k div 4096), segment_perms seg, \<lambda>b. seg_byte img seg (4096 * (k div 4096) + b))
      \<in> set (image_pages img @ T)"
    using image_page_of(1)[OF ok seg k] by (simp add: seg_page_def)
  from load_inv_walk[OF inv this, of "k mod 4096"] obtain f where
    w: "hw_walk (mem s) r (sg_vaddr seg + of_nat k) = Some (f OR segment_perms seg, f + of_nat (k mod 4096))"
      "ld8 (mem s) (f + of_nat (k mod 4096)) = seg_byte img seg k" "valid_frame f" "user_perm (segment_perms seg)"
    using image_page_of(2)[OF ok seg k] by auto
  have "segment_perms seg = PAGE_USER_RW \<longleftrightarrow> \<not> sg_executable seg" by (simp add: segment_perms_def user_rx_not_rw)
  then show ?thesis using w user_desc[OF w(3,4)] by auto
qed


section \<open>Properties of the loader\<close>

text \<open>A program of one instruction, \<^verbatim>\<open>svc #0\<close>, with a zero tail of four bytes.\<close>

definition mini_elf :: "u8 list" where
  "mini_elf = [0x7f, 0x45, 0x4c, 0x46, 0x2, 0x1, 0x1, 0, 0, 0, 0, 0, 0, 0, 0, 0, 0x2, 0, 0xb7, 0, 0x1, 0,
     0, 0, 0, 0, 0, 0, 0x80, 0, 0, 0, 0x40, 0, 0, 0, 0, 0, 0, 0, 0, 0, 0, 0, 0, 0, 0, 0, 0, 0,
     0, 0, 0x40, 0, 0x38, 0, 0x1, 0, 0, 0, 0, 0, 0, 0, 0x1, 0, 0, 0, 0x5, 0, 0, 0, 0x78, 0, 0,
     0, 0, 0, 0, 0, 0, 0, 0, 0, 0x80, 0, 0, 0, 0, 0, 0, 0, 0x80, 0, 0, 0, 0x4, 0, 0, 0, 0, 0,
     0, 0, 0x8, 0, 0, 0, 0, 0, 0, 0, 0, 0x10, 0, 0, 0, 0, 0, 0, 0x1, 0, 0, 0xd4]"

definition mini_segment :: segment where
  "mini_segment = \<lparr>sg_vaddr = 0x8000000000, sg_memsz = 8, sg_filesz = 4, sg_offset = 120, sg_executable = True\<rparr>"

lemma mini_elf_fields: "elf_phdrs mini_elf = [64]" "phdr_segment mini_elf 64 = Some mini_segment" "u32_at mini_elf 68 = 5"
  "u64_at mini_elf 24 = 0x8000000000"
  by code_simp+

lemma mini_elf_segments: "elf_segments mini_elf = [mini_segment]"
  by (simp add: elf_segments_def mini_elf_fields List.map_filter_simps)

lemma mini_elf_length: "length mini_elf = 124"
  by (simp add: mini_elf_def)

lemma mini_elf_pages: "image_pages mini_elf = [seg_page mini_elf mini_segment 0]"
  by (simp add: image_pages_def mini_elf_segments seg_pages_def seg_npages_def mini_segment_def)

lemma mini_elf_ok: "image_ok mini_elf"
proof -
  have "header_ok mini_elf" by (simp add: header_ok_def mini_elf_def)
  moreover have "phdr_ok mini_elf 64"
    by (simp add: phdr_ok_def mini_elf_fields mini_elf_length seg_ok_def mini_segment_def PF_W_def page_aligned_def USER_BASE_def)
  ultimately show ?thesis by (simp add: image_ok_def mini_elf_segments mini_elf_fields mini_elf_pages MAX_SEGMENTS_def)
qed

text \<open>
  C11. Loading a well-formed image into an empty space succeeds when four frames per page are
  free, and afterwards the MMU shows EL0 every byte of every segment: the file bytes, then zeros
  up to the memory size, executable and read-only for a segment with the X flag and writable but
  not executable otherwise. The entry point and the ranges returned are those of the headers,
  and neither other spaces nor other data frames changed.
\<close>

theorem elf_load_correct:
  assumes "vm_good U R D fs s" "user_space R D (mem s) r []" "image_ok img"
    "4 * length (image_pages img) \<le> length fs"
  shows "\<exists>ld owned s'. load img r [] s = Inr ((ld, owned), s') \<and> l_entry ld = u64_at img 24 \<and>
    take (l_count ld) (l_ranges ld) = map seg_range (elf_segments img) \<and>
    (\<forall>seg \<in> set (elf_segments img). \<forall>k < unat (sg_memsz seg). \<exists>d pa.
       hw_walk (mem s') r (sg_vaddr seg + of_nat k) = Some (d, pa) \<and>
       ld8 (mem s') pa = (if k < unat (sg_filesz seg) then img ! (unat (sg_offset seg) + k) else 0) \<and>
       el0_read d \<and> (el0_exec d \<longleftrightarrow> sg_executable seg) \<and> (el0_write d \<longleftrightarrow> \<not> sg_executable seg)) \<and>
    others_kept R D r (mem s) (mem s')"
proof -
  from load_ok[OF assms] obtain ld owned s' fs' where l: "load img r [] s = Inr ((ld, owned), s')" "ld = loaded_of img"
    "load_inv U R D r s (image_pages img) owned fs' s'" by (auto simp: wp_iff)
  have "others_kept R D r (mem s) (mem s')" using l(3) by (simp add: load_inv_def)
  then show ?thesis
    using l(1,2) load_inv_byte[of U R D r s img "[]" owned fs' s', OF _ assms(3)] l(3) loaded_ranges
    by (auto simp: seg_byte_def loaded_of_def)
qed

theorem elf_load_correct_witness:
  "\<exists>s ld owned s' d pa. load mini_elf 0x40103000 [] (s :: mmu_state) = Inr ((ld, owned), s') \<and> l_entry ld = 0x8000000000 \<and>
     hw_walk (mem s') 0x40103000 0x8000000003 = Some (d, pa) \<and> ld8 (mem s') pa = 0xD4 \<and> el0_exec d \<and> \<not> el0_write d"
proof -
  obtain s :: mmu_state where s: "vm_good (set (frame_range 8)) {0x40100000, 0x40103000} {} (drop 4 (frame_range 8)) s"
    "user_space {0x40100000, 0x40103000} {} (mem s) 0x40103000 []"
    using sample_space[of off_mmu 8] by (auto simp: wp_iff off_mmu_def)
  have "4 * length (image_pages mini_elf) \<le> length (drop 4 (frame_range 8))" by (simp add: mini_elf_pages)
  from elf_load_correct[OF s mini_elf_ok this] obtain ld owned s' where
    l: "load mini_elf 0x40103000 [] s = Inr ((ld, owned), s')" "l_entry ld = u64_at mini_elf 24"
      "\<forall>seg \<in> set (elf_segments mini_elf). \<forall>k < unat (sg_memsz seg). \<exists>d pa.
       hw_walk (mem s') 0x40103000 (sg_vaddr seg + of_nat k) = Some (d, pa) \<and>
       ld8 (mem s') pa = (if k < unat (sg_filesz seg) then mini_elf ! (unat (sg_offset seg) + k) else 0) \<and>
       el0_read d \<and> (el0_exec d \<longleftrightarrow> sg_executable seg) \<and> (el0_write d \<longleftrightarrow> \<not> sg_executable seg)" by blast
  have "mini_elf ! 123 = 0xD4" by (simp add: mini_elf_def)
  then obtain d pa where "hw_walk (mem s') 0x40103000 0x8000000003 = Some (d, pa)" "ld8 (mem s') pa = 0xD4"
    "el0_exec d" "\<not> el0_write d"
    using l(3)[rule_format, of mini_segment 3] by (auto simp: mini_elf_segments mini_segment_def)
  moreover have "l_entry ld = 0x8000000000" using l(2) by (simp add: mini_elf_fields)
  ultimately show ?thesis using l(1) by blast
qed



end
