(* ===== verification/Abi.thy ===== *)
theory Abi
  imports Mmu
begin

unbundle bit_operations_syntax

text \<open>
  The contract between kernel and user programs of \<^verbatim>\<open>abi/src/lib.rs\<close>: system call numbers,
  opcodes and the layout of the shared ring page, with the loads and stores both sides use
  on it. The page is reached at an address \<open>pa\<close>: the kernel uses the physical address, a
  program the virtual address that maps to it. Head and tail are free-running 32-bit
  indices; \<open>ring_content\<close> is the queue they delimit.
\<close>

section \<open>Numbers\<close>

definition SYS_ADD :: u64 where "SYS_ADD = 1"
definition SYS_EXIT :: u64 where "SYS_EXIT = 3"
definition SYS_RING_SETUP :: u64 where "SYS_RING_SETUP = 5"
definition SYS_RING_ENTER :: u64 where "SYS_RING_ENTER = 6"

definition USER_RING_VA :: usize where "USER_RING_VA = USER_BASE + 0x300000"

definition RING_ENTRIES :: u32 where "RING_ENTRIES = 16"
definition RING_MASK :: u32 where "RING_MASK = RING_ENTRIES - 1"
definition NEED_WAKEUP :: u32 where "NEED_WAKEUP = 1"

definition OP_NOP :: u64 where "OP_NOP = 0"
definition OP_PRINT :: u64 where "OP_PRINT = 1"
definition OP_READ :: u64 where "OP_READ = 2"
definition OP_SPAWN :: u64 where "OP_SPAWN = 3"
definition OP_WAIT :: u64 where "OP_WAIT = 4"

section \<open>The ring page\<close>

record Sqe =
  sqe_opcode :: u64
  sqe_arg0 :: u64
  sqe_arg1 :: u64
  sqe_user_data :: u64

record Cqe =
  cqe_user_data :: u64
  cqe_result :: i64

text \<open>
  The offsets of the fields of \<^verbatim>\<open>RingPage\<close>, as the compile-time assertions pin them, and
  the address of an entry (a \<^verbatim>\<open>Sqe\<close> has 32 bytes, a \<^verbatim>\<open>Cqe\<close> 16).
\<close>

definition OFF_SQ_HEAD :: usize where "OFF_SQ_HEAD = 0x00"
definition OFF_SQ_TAIL :: usize where "OFF_SQ_TAIL = 0x04"
definition OFF_CQ_HEAD :: usize where "OFF_CQ_HEAD = 0x08"
definition OFF_CQ_TAIL :: usize where "OFF_CQ_TAIL = 0x0C"
definition OFF_FLAGS :: usize where "OFF_FLAGS = 0x10"
definition OFF_SQ :: usize where "OFF_SQ = 0x40"
definition OFF_CQ :: usize where "OFF_CQ = 0x280"

definition sqe_addr :: "usize \<Rightarrow> nat \<Rightarrow> usize" where
  "sqe_addr pa i = pa + OFF_SQ + 32 * of_nat i"

definition cqe_addr :: "usize \<Rightarrow> nat \<Rightarrow> usize" where
  "cqe_addr pa i = pa + OFF_CQ + 16 * of_nat i"

definition ring_slot :: "u32 \<Rightarrow> nat" where
  "ring_slot index = unat (index AND RING_MASK)"

definition load_sqe :: "memory \<Rightarrow> usize \<Rightarrow> nat \<Rightarrow> Sqe" where
  "load_sqe m pa i = (let a = sqe_addr pa i in
     \<lparr>sqe_opcode = m a, sqe_arg0 = m (a + 8), sqe_arg1 = m (a + 16), sqe_user_data = m (a + 24)\<rparr>)"

definition store_sqe :: "usize \<Rightarrow> nat \<Rightarrow> Sqe \<Rightarrow> memory \<Rightarrow> memory" where
  "store_sqe pa i e m = (let a = sqe_addr pa i in
     m(a := sqe_opcode e, a + 8 := sqe_arg0 e, a + 16 := sqe_arg1 e, a + 24 := sqe_user_data e))"

definition load_cqe :: "memory \<Rightarrow> usize \<Rightarrow> nat \<Rightarrow> Cqe" where
  "load_cqe m pa i = (let a = cqe_addr pa i in \<lparr>cqe_user_data = m a, cqe_result = m (a + 8)\<rparr>)"

definition store_cqe :: "usize \<Rightarrow> nat \<Rightarrow> Cqe \<Rightarrow> memory \<Rightarrow> memory" where
  "store_cqe pa i e m = (let a = cqe_addr pa i in m(a := cqe_user_data e, a + 8 := cqe_result e))"

section \<open>Free-running indices\<close>

lemma unat_ring_mask: "unat ((x :: u32) AND RING_MASK) = unat x mod 16"
proof -
  have "RING_MASK = mask 4" by (simp add: RING_MASK_def RING_ENTRIES_def mask_eq_exp_minus_1)
  then have "x AND RING_MASK = take_bit 4 x" by (simp add: take_bit_eq_mask)
  then show ?thesis by (simp add: unsigned_take_bit_eq take_bit_eq_mod unat_mod)
qed

lemma ring_slot_mod: "ring_slot x = unat x mod 16"
  by (simp add: ring_slot_def unat_ring_mask)

lemma ring_slot_less [simp]: "ring_slot x < 16"
  by (simp add: ring_slot_mod)

lemma ring_slot_add: "ring_slot (x + of_nat k) = (unat x + k) mod 16"
proof -
  have "unat (x + of_nat k) = (unat x + k mod 2 ^ 32) mod 2 ^ 32" by (simp add: unat_word_ariths unat_of_nat)
  then show ?thesis unfolding ring_slot_mod by (simp add: mod_mod_cancel mod_add_right_eq)
qed

lemma mod16_less: "j < k \<Longrightarrow> k < 16 \<Longrightarrow> (a + j) mod 16 \<noteq> (a + k) mod 16" for a j k :: nat
proof
  assume jk: "j < k" "k < 16" and "(a + j) mod 16 = (a + k) mod 16"
  then have "16 dvd (a + k) - (a + j)" by (subst mod_eq_dvd_iff_nat[symmetric]) simp_all
  then have "16 dvd k - j" by simp
  then show False using jk by (auto dest: dvd_imp_le)
qed

lemma ring_slot_inj: "ring_slot (x + of_nat j) = ring_slot (x + of_nat k) \<longleftrightarrow> j = k" if "j < 16" "k < 16"
  unfolding ring_slot_add using that mod16_less[of j k "unat x"] mod16_less[of k j "unat x"] by (metis linorder_neqE_nat)

definition ring_content :: "(nat \<Rightarrow> 'e) \<Rightarrow> u32 \<Rightarrow> u32 \<Rightarrow> 'e list" where
  "ring_content f head tail = map (\<lambda>k. f (ring_slot (head + of_nat k))) [0..<unat (tail - head)]"

lemma ring_content_length [simp]: "length (ring_content f head tail) = unat (tail - head)"
  by (simp add: ring_content_def)

lemma ring_content_empty: "ring_content f head tail = [] \<longleftrightarrow> head = tail"
  by (auto simp: ring_content_def unat_eq_zero)

lemma ring_content_cong:
  "(\<And>i. i < 16 \<Longrightarrow> f i = g i) \<Longrightarrow> ring_content f head tail = ring_content g head tail"
  by (simp add: ring_content_def)

lemma ring_content_push:
  assumes "unat (tail - head) < 16"
  shows "ring_content (f(ring_slot tail := e)) head (tail + 1) = ring_content f head tail @ [e]"
proof -
  let ?n = "unat (tail - head)"
  have "tail - head < 16" using assms by (simp add: word_less_nat_alt)
  from unat_plus_1[OF this] have n: "unat (tail + 1 - head) = Suc ?n" by (simp add: algebra_simps)
  have t: "tail = head + of_nat ?n" by simp
  have "ring_slot (head + of_nat k) \<noteq> ring_slot tail" if "k < ?n" for k
    using ring_slot_inj[of k ?n head] that assms t by simp
  then show ?thesis unfolding ring_content_def n using t by simp
qed

lemma ring_content_pop:
  assumes "head \<noteq> tail"
  shows "ring_content f head tail = f (ring_slot head) # ring_content f (head + 1) tail"
proof -
  have "tail - head \<noteq> 0" using assms by simp
  then have "unat (tail - head - 1) = unat (tail - head) - 1" "0 < unat (tail - head)"
    by (simp_all add: unat_minus_one unat_gt_0)
  then have n: "unat (tail - head) = Suc (unat (tail - (head + 1)))" by (simp add: diff_diff_eq)
  show ?thesis
    unfolding ring_content_def n by (simp add: upt_conv_Cons map_Suc_upt[symmetric] del: upt_Suc) (simp add: add.assoc)
qed


section \<open>Fields of the page\<close>

definition rp_sq_head :: "memory \<Rightarrow> usize \<Rightarrow> u32" where "rp_sq_head m pa = ld32 m (pa + OFF_SQ_HEAD)"
definition rp_sq_tail :: "memory \<Rightarrow> usize \<Rightarrow> u32" where "rp_sq_tail m pa = ld32 m (pa + OFF_SQ_TAIL)"
definition rp_cq_head :: "memory \<Rightarrow> usize \<Rightarrow> u32" where "rp_cq_head m pa = ld32 m (pa + OFF_CQ_HEAD)"
definition rp_cq_tail :: "memory \<Rightarrow> usize \<Rightarrow> u32" where "rp_cq_tail m pa = ld32 m (pa + OFF_CQ_TAIL)"
definition rp_flags :: "memory \<Rightarrow> usize \<Rightarrow> u32" where "rp_flags m pa = ld32 m (pa + OFF_FLAGS)"

definition set_sq_head :: "usize \<Rightarrow> u32 \<Rightarrow> memory \<Rightarrow> memory" where "set_sq_head pa v m = st32 m (pa + OFF_SQ_HEAD) v"
definition set_sq_tail :: "usize \<Rightarrow> u32 \<Rightarrow> memory \<Rightarrow> memory" where "set_sq_tail pa v m = st32 m (pa + OFF_SQ_TAIL) v"
definition set_cq_head :: "usize \<Rightarrow> u32 \<Rightarrow> memory \<Rightarrow> memory" where "set_cq_head pa v m = st32 m (pa + OFF_CQ_HEAD) v"
definition set_cq_tail :: "usize \<Rightarrow> u32 \<Rightarrow> memory \<Rightarrow> memory" where "set_cq_tail pa v m = st32 m (pa + OFF_CQ_TAIL) v"
definition set_flags :: "usize \<Rightarrow> u32 \<Rightarrow> memory \<Rightarrow> memory" where "set_flags pa v m = st32 m (pa + OFF_FLAGS) v"

text \<open>Every field is a cell of the page or half of one; distinct cells do not overlap.\<close>

definition rcell :: "usize \<Rightarrow> nat \<Rightarrow> usize" where
  "rcell pa n = tadd pa (of_nat n)"

lemma rcell_small: "n < 512 \<Longrightarrow> of_nat n < (0x200 :: usize)" "n < 512 \<Longrightarrow> unat (of_nat n :: usize) = n"
  by (simp_all add: word_less_nat_alt unat_of_nat)

lemma rcell_eq [simp]:
  "page_aligned pa \<Longrightarrow> a < 512 \<Longrightarrow> b < 512 \<Longrightarrow> rcell pa a = rcell pa b \<longleftrightarrow> a = b"
  unfolding rcell_def by (simp add: tadd_eq_iff rcell_small word_unat_eq_iff[of "of_nat a"])

lemma page_of_rcell: "page_aligned pa \<Longrightarrow> n < 512 \<Longrightarrow> page_of (rcell pa n) = pa"
  by (simp add: rcell_def rcell_small)

lemma cell_page:
  assumes "page_aligned pa" "x < 0x1000"
  shows "cell (pa + x) = pa + cell x" "(pa + x) AND 4 = x AND 4"
proof -
  have c: "cell x < 0x1000"
    using word_and_le2[of x "NOT 7"] assms(2) unfolding cell_def by (rule order.strict_trans1)
  have b: "\<not> bit pa n" if "n < 3" for n using page_aligned_bit[OF assms(1), of n] that by simp
  have "cell (pa OR x) = pa OR cell x"
    unfolding cell_def mask_7 by (rule bit_word_eqI) (use b in \<open>auto simp: bit_simps\<close>)
  then show "cell (pa + x) = pa + cell x"
    unfolding page_aligned_add_or[OF assms] page_aligned_add_or[OF assms(1) c] .
  show "(pa + x) AND 4 = x AND 4"
    unfolding page_aligned_add_or[OF assms] by (rule bit_word_eqI) (use b[of 2] in \<open>auto simp: bit_simps bit_int_4\<close>)
qed

lemma ring_cells:
  assumes "page_aligned pa"
  shows "cell (pa + OFF_SQ_HEAD) = rcell pa 0" "(pa + OFF_SQ_HEAD) AND 4 = 0"
    "cell (pa + OFF_SQ_TAIL) = rcell pa 0" "(pa + OFF_SQ_TAIL) AND 4 = 4"
    "cell (pa + OFF_CQ_HEAD) = rcell pa 1" "(pa + OFF_CQ_HEAD) AND 4 = 0"
    "cell (pa + OFF_CQ_TAIL) = rcell pa 1" "(pa + OFF_CQ_TAIL) AND 4 = 4"
    "cell (pa + OFF_FLAGS) = rcell pa 2" "(pa + OFF_FLAGS) AND 4 = 0"
  using assms cell_page[of pa 0] cell_page[of pa 4] cell_page[of pa 8] cell_page[of pa "0xC"] cell_page[of pa "0x10"]
  by (simp_all add: OFF_SQ_HEAD_def OFF_SQ_TAIL_def OFF_CQ_HEAD_def OFF_CQ_TAIL_def OFF_FLAGS_def rcell_def tadd_def cell_def)

lemma sqe_cells:
  shows "sqe_addr pa i = rcell pa (8 + 4 * i)" "sqe_addr pa i + 8 = rcell pa (9 + 4 * i)"
    "sqe_addr pa i + 16 = rcell pa (10 + 4 * i)" "sqe_addr pa i + 24 = rcell pa (11 + 4 * i)"
  by (simp_all add: sqe_addr_def OFF_SQ_def rcell_def tadd_def algebra_simps)

lemma cqe_cells:
  shows "cqe_addr pa i = rcell pa (80 + 2 * i)" "cqe_addr pa i + 8 = rcell pa (81 + 2 * i)"
  by (simp_all add: cqe_addr_def OFF_CQ_def rcell_def tadd_def algebra_simps)

text \<open>The ring page in terms of its cells.\<close>

lemma ring_page_loads:
  assumes "page_aligned pa"
  shows "rp_sq_head m pa = get_half 0 (m (rcell pa 0))" "rp_sq_tail m pa = get_half 32 (m (rcell pa 0))"
    "rp_cq_head m pa = get_half 0 (m (rcell pa 1))" "rp_cq_tail m pa = get_half 32 (m (rcell pa 1))"
    "rp_flags m pa = get_half 0 (m (rcell pa 2))"
  using ring_cells[OF assms]
  by (simp_all add: rp_sq_head_def rp_sq_tail_def rp_cq_head_def rp_cq_tail_def rp_flags_def ld32_def)

lemma ring_page_stores:
  assumes "page_aligned pa"
  shows "set_sq_head pa v m = m(rcell pa 0 := set_half 0 v (m (rcell pa 0)))"
    "set_sq_tail pa v m = m(rcell pa 0 := set_half 32 v (m (rcell pa 0)))"
    "set_cq_head pa v m = m(rcell pa 1 := set_half 0 v (m (rcell pa 1)))"
    "set_cq_tail pa v m = m(rcell pa 1 := set_half 32 v (m (rcell pa 1)))"
    "set_flags pa v m = m(rcell pa 2 := set_half 0 v (m (rcell pa 2)))"
  using ring_cells[OF assms]
  by (simp_all add: set_sq_head_def set_sq_tail_def set_cq_head_def set_cq_tail_def set_flags_def st32_def)

lemma entry_loads:
  "load_sqe m pa i = \<lparr>sqe_opcode = m (rcell pa (8 + 4 * i)), sqe_arg0 = m (rcell pa (9 + 4 * i)),
     sqe_arg1 = m (rcell pa (10 + 4 * i)), sqe_user_data = m (rcell pa (11 + 4 * i))\<rparr>"
  "load_cqe m pa i = \<lparr>cqe_user_data = m (rcell pa (80 + 2 * i)), cqe_result = m (rcell pa (81 + 2 * i))\<rparr>"
  unfolding load_sqe_def load_cqe_def Let_def sqe_cells(2-4) cqe_cells(2) unfolding sqe_cells(1) cqe_cells(1) by simp_all

lemma entry_stores:
  "store_sqe pa i e m = m(rcell pa (8 + 4 * i) := sqe_opcode e, rcell pa (9 + 4 * i) := sqe_arg0 e,
     rcell pa (10 + 4 * i) := sqe_arg1 e, rcell pa (11 + 4 * i) := sqe_user_data e)"
  "store_cqe pa i c m = m(rcell pa (80 + 2 * i) := cqe_user_data c, rcell pa (81 + 2 * i) := cqe_result c)"
  unfolding store_sqe_def store_cqe_def Let_def sqe_cells(2-4) cqe_cells(2) unfolding sqe_cells(1) cqe_cells(1) by simp_all

lemmas ring_page = ring_page_loads ring_page_stores entry_loads entry_stores

text \<open>
  A store to one field leaves every other field as it was: the layout has no overlap.
\<close>

lemma ring_fields32 [simp]:
  assumes "page_aligned pa"
  shows "rp_sq_head (set_sq_head pa v m) pa = v"
    "rp_sq_tail (set_sq_head pa v m) pa = rp_sq_tail m pa"
    "rp_cq_head (set_sq_head pa v m) pa = rp_cq_head m pa"
    "rp_cq_tail (set_sq_head pa v m) pa = rp_cq_tail m pa"
    "rp_flags (set_sq_head pa v m) pa = rp_flags m pa"
    "rp_sq_head (set_sq_tail pa v m) pa = rp_sq_head m pa"
    "rp_sq_tail (set_sq_tail pa v m) pa = v"
    "rp_cq_head (set_sq_tail pa v m) pa = rp_cq_head m pa"
    "rp_cq_tail (set_sq_tail pa v m) pa = rp_cq_tail m pa"
    "rp_flags (set_sq_tail pa v m) pa = rp_flags m pa"
    "rp_sq_head (set_cq_head pa v m) pa = rp_sq_head m pa"
    "rp_sq_tail (set_cq_head pa v m) pa = rp_sq_tail m pa"
    "rp_cq_head (set_cq_head pa v m) pa = v"
    "rp_cq_tail (set_cq_head pa v m) pa = rp_cq_tail m pa"
    "rp_flags (set_cq_head pa v m) pa = rp_flags m pa"
    "rp_sq_head (set_cq_tail pa v m) pa = rp_sq_head m pa"
    "rp_sq_tail (set_cq_tail pa v m) pa = rp_sq_tail m pa"
    "rp_cq_head (set_cq_tail pa v m) pa = rp_cq_head m pa"
    "rp_cq_tail (set_cq_tail pa v m) pa = v"
    "rp_flags (set_cq_tail pa v m) pa = rp_flags m pa"
    "rp_sq_head (set_flags pa v m) pa = rp_sq_head m pa"
    "rp_sq_tail (set_flags pa v m) pa = rp_sq_tail m pa"
    "rp_cq_head (set_flags pa v m) pa = rp_cq_head m pa"
    "rp_cq_tail (set_flags pa v m) pa = rp_cq_tail m pa"
    "rp_flags (set_flags pa v m) pa = v"
  using assms by (auto simp: ring_page get_set_half_same get_set_half_other)

lemma ring_fields_entry [simp]:
  assumes "page_aligned pa" "i < 16"
  shows "load_sqe (set_sq_head pa v m) pa i = load_sqe m pa i"
    "load_cqe (set_sq_head pa v m) pa i = load_cqe m pa i"
    "load_sqe (set_sq_tail pa v m) pa i = load_sqe m pa i"
    "load_cqe (set_sq_tail pa v m) pa i = load_cqe m pa i"
    "load_sqe (set_cq_head pa v m) pa i = load_sqe m pa i"
    "load_cqe (set_cq_head pa v m) pa i = load_cqe m pa i"
    "load_sqe (set_cq_tail pa v m) pa i = load_sqe m pa i"
    "load_cqe (set_cq_tail pa v m) pa i = load_cqe m pa i"
    "load_sqe (set_flags pa v m) pa i = load_sqe m pa i"
    "load_cqe (set_flags pa v m) pa i = load_cqe m pa i"
    "rp_sq_head (store_sqe pa i e m) pa = rp_sq_head m pa"
    "rp_sq_tail (store_sqe pa i e m) pa = rp_sq_tail m pa"
    "rp_cq_head (store_sqe pa i e m) pa = rp_cq_head m pa"
    "rp_cq_tail (store_sqe pa i e m) pa = rp_cq_tail m pa"
    "rp_flags (store_sqe pa i e m) pa = rp_flags m pa"
    "rp_sq_head (store_cqe pa i c m) pa = rp_sq_head m pa"
    "rp_sq_tail (store_cqe pa i c m) pa = rp_sq_tail m pa"
    "rp_cq_head (store_cqe pa i c m) pa = rp_cq_head m pa"
    "rp_cq_tail (store_cqe pa i c m) pa = rp_cq_tail m pa"
    "rp_flags (store_cqe pa i c m) pa = rp_flags m pa"
  using assms by (auto simp: ring_page get_set_half_same get_set_half_other)

lemma ring_fields_entries [simp]:
  assumes "page_aligned pa" "i < 16" "j < 16"
  shows "load_sqe (store_sqe pa i e m) pa j = (if i = j then e else load_sqe m pa j)"
    "load_cqe (store_sqe pa i e m) pa j = load_cqe m pa j"
    "load_sqe (store_cqe pa i c m) pa j = load_sqe m pa j"
    "load_cqe (store_cqe pa i c m) pa j = (if i = j then c else load_cqe m pa j)"
  using assms by (auto simp: ring_page get_set_half_same get_set_half_other)

lemma ring_stores_local:
  assumes "page_aligned pa" "page_of a \<noteq> pa"
  shows "set_sq_head pa v m a = m a" "set_sq_tail pa v m a = m a" "set_cq_head pa v m a = m a"
    "set_cq_tail pa v m a = m a" "set_flags pa v m a = m a"
    "i < 16 \<Longrightarrow> store_sqe pa i e m a = m a" "i < 16 \<Longrightarrow> store_cqe pa i c m a = m a"
proof -
  have ne: "a \<noteq> rcell pa n" if "n < 512" for n using page_of_rcell[OF assms(1) that] assms(2) by auto
  show "set_sq_head pa v m a = m a" "set_sq_tail pa v m a = m a" "set_cq_head pa v m a = m a"
    "set_cq_tail pa v m a = m a" "set_flags pa v m a = m a"
    using ne[of 0] ne[of 1] ne[of 2] by (simp_all add: ring_page_stores[OF assms(1)])
  show "i < 16 \<Longrightarrow> store_sqe pa i e m a = m a" "i < 16 \<Longrightarrow> store_cqe pa i c m a = m a"
    by (simp_all add: entry_stores ne)
qed

text \<open>The two queues of the page.\<close>

definition sq_content :: "memory \<Rightarrow> usize \<Rightarrow> Sqe list" where
  "sq_content m pa = ring_content (load_sqe m pa) (rp_sq_head m pa) (rp_sq_tail m pa)"

definition cq_content :: "memory \<Rightarrow> usize \<Rightarrow> Cqe list" where
  "cq_content m pa = ring_content (load_cqe m pa) (rp_cq_head m pa) (rp_cq_tail m pa)"

lemma ring_content_store:
  assumes "\<And>i. i < 16 \<Longrightarrow> g i = (if i = ring_slot tail then e else f i)" "unat (tail - head) < 16"
  shows "ring_content g head (tail + 1) = ring_content f head tail @ [e]"
proof -
  have "ring_content g head (tail + 1) = ring_content (f(ring_slot tail := e)) head (tail + 1)"
    by (rule ring_content_cong) (simp add: assms(1))
  then show ?thesis using ring_content_push[OF assms(2)] by simp
qed

end
