(* ===== verification/Process.thy ===== *)
theory Process
  imports Sched Elf Abi
begin

unbundle bit_operations_syntax

text \<open>
  The process table of \<^verbatim>\<open>kernel/src/process.rs\<close>: creation of a process from an image, the
  accessors the other components use, and the check of user pointers. A process id is an
  index into the table. Each accessor takes the lock of the table, works on it and releases
  it; the lock itself is modelled in \<open>Sync\<close>.
\<close>

section \<open>State\<close>

definition USER_STACK_VA :: usize where "USER_STACK_VA = USER_BASE + 0x100000"
definition USER_STACK_SIZE :: usize where "USER_STACK_SIZE = FRAME_SIZE"
definition MAX_PENDING :: nat where "MAX_PENDING = 8"

record Pending =
  pe_buf :: usize
  pe_len :: usize
  pe_user_data :: u64

record Process =
  p_ttbr0 :: u64
  p_loaded :: Loaded
  p_frames :: "(usize \<times> usize) list"
  p_ring_pa :: usize
  p_pending :: "Pending option list"
  p_ring_waiter :: "nat option"
  p_foreground :: bool
  p_parent :: "nat option"
  p_exit_code :: "i64 option"
  p_exit_waiter :: "u64 option"

record proc_state = sched_state +
  PROCESSES :: "Process list"

text \<open>\<^verbatim>\<open>PROCESSES.lock()[pid]\<close>, read and assigned to.\<close>

definition get_proc :: "nat \<Rightarrow> ('a proc_state_scheme, Process) kfn" where
  "get_proc pid = k_bind (k_gets PROCESSES) (\<lambda>procs. k_index procs pid)"

definition update_proc :: "nat \<Rightarrow> (Process \<Rightarrow> Process) \<Rightarrow> ('a proc_state_scheme, unit) kfn" where
  "update_proc pid f =
     k_bind (get_proc pid) (\<lambda>p.
     k_modify (\<lambda>s. s\<lparr>PROCESSES := (PROCESSES s)[pid := f p]\<rparr>))"

section \<open>Operations\<close>

definition create :: "u8 list \<Rightarrow> u64 \<Rightarrow> ('a proc_state_scheme, nat) kfn" where
  "create img ttbr0 =
     k_bind (load img ttbr0 []) (\<lambda>(loaded, frames).
     k_bind alloc_frame (\<lambda>fo.
     k_bind (k_expect ''out of frames for the user stack'' fo) (\<lambda>stack.
     k_bind (map_page_in (l0_ptr ttbr0) USER_STACK_VA stack PAGE_USER_RW) (\<lambda>_.
     k_bind (k_modify (\<lambda>s. s\<lparr>PROCESSES := PROCESSES s @
       [\<lparr>p_ttbr0 = ttbr0, p_loaded = loaded, p_frames = frames @ [(USER_STACK_VA, stack)], p_ring_pa = 0,
         p_pending = replicate MAX_PENDING None, p_ring_waiter = None, p_foreground = False,
         p_parent = None, p_exit_code = None, p_exit_waiter = None\<rparr>]\<rparr>)) (\<lambda>_.
     k_gets (\<lambda>s. length (PROCESSES s) - 1))))))"

definition set_parent :: "nat \<Rightarrow> nat \<Rightarrow> ('a proc_state_scheme, unit) kfn" where
  "set_parent pid parent = update_proc pid (\<lambda>p. p\<lparr>p_parent := Some parent\<rparr>)"

definition proc_parent :: "nat \<Rightarrow> ('a proc_state_scheme, nat option) kfn" where
  "proc_parent pid = k_bind (get_proc pid) (\<lambda>p. k_return (p_parent p))"

definition exit_code :: "nat \<Rightarrow> ('a proc_state_scheme, i64 option) kfn" where
  "exit_code pid = k_bind (get_proc pid) (\<lambda>p. k_return (p_exit_code p))"

definition register_wait :: "nat \<Rightarrow> u64 \<Rightarrow> ('a proc_state_scheme, unit) kfn" where
  "register_wait pid tag = update_proc pid (\<lambda>p. p\<lparr>p_exit_waiter := Some tag\<rparr>)"

definition on_exit :: "nat \<Rightarrow> i64 \<Rightarrow> ('a proc_state_scheme, (nat \<times> u64) option) kfn" where
  "on_exit pid code =
     k_bind (update_proc pid (\<lambda>p. p\<lparr>p_exit_code := Some code\<rparr>)) (\<lambda>_.
     k_bind (get_proc pid) (\<lambda>p.
     k_bind (update_proc pid (\<lambda>p. p\<lparr>p_exit_waiter := None\<rparr>)) (\<lambda>_.
     k_return (case p_exit_waiter p of None \<Rightarrow> None
       | Some tag \<Rightarrow> (case p_parent p of None \<Rightarrow> None | Some parent \<Rightarrow> Some (parent, tag))))))"

definition proc_count :: "('a proc_state_scheme, nat) kfn" where
  "proc_count = k_gets (\<lambda>s. length (PROCESSES s))"

definition proc_ttbr0 :: "nat \<Rightarrow> ('a proc_state_scheme, u64) kfn" where
  "proc_ttbr0 pid = k_bind (get_proc pid) (\<lambda>p. k_return (p_ttbr0 p))"

definition proc_entry :: "nat \<Rightarrow> ('a proc_state_scheme, usize) kfn" where
  "proc_entry pid = k_bind (get_proc pid) (\<lambda>p. k_return (l_entry (p_loaded p)))"

definition proc_ring_pa :: "nat \<Rightarrow> ('a proc_state_scheme, usize) kfn" where
  "proc_ring_pa pid = k_bind (get_proc pid) (\<lambda>p. k_return (p_ring_pa p))"

definition set_ring :: "nat \<Rightarrow> usize \<Rightarrow> ('a proc_state_scheme, unit) kfn" where
  "set_ring pid frame = update_proc pid (\<lambda>p. p\<lparr>p_ring_pa := frame, p_frames := p_frames p @ [(USER_RING_VA, frame)]\<rparr>)"

definition set_foreground :: "nat \<Rightarrow> bool \<Rightarrow> ('a proc_state_scheme, unit) kfn" where
  "set_foreground pid on = update_proc pid (\<lambda>p. p\<lparr>p_foreground := on\<rparr>)"

text \<open>\<^verbatim>\<open>iter().position(..)\<close>: the first index that satisfies the predicate.\<close>

fun position :: "('a \<Rightarrow> bool) \<Rightarrow> 'a list \<Rightarrow> nat option" where
  "position P [] = None"
| "position P (x # xs) = (if P x then Some 0 else map_option Suc (position P xs))"

definition foreground_pid :: "('a proc_state_scheme, nat option) kfn" where
  "foreground_pid = k_gets (\<lambda>s. position p_foreground (PROCESSES s))"

definition park_read :: "nat \<Rightarrow> Pending \<Rightarrow> ('a proc_state_scheme, bool) kfn" where
  "park_read pid pe =
     k_bind (get_proc pid) (\<lambda>p.
     case position (\<lambda>s. s = None) (p_pending p) of
       Some i \<Rightarrow> k_bind (update_proc pid (\<lambda>p. p\<lparr>p_pending := (p_pending p)[i := Some pe]\<rparr>)) (\<lambda>_. k_return True)
     | None \<Rightarrow> k_return False)"

definition pending_snapshot :: "nat \<Rightarrow> ('a proc_state_scheme, Pending option list) kfn" where
  "pending_snapshot pid = k_bind (get_proc pid) (\<lambda>p. k_return (p_pending p))"

definition clear_pending :: "nat \<Rightarrow> nat \<Rightarrow> ('a proc_state_scheme, unit) kfn" where
  "clear_pending pid idx =
     k_bind (get_proc pid) (\<lambda>p.
     k_bind (k_index (p_pending p) idx) (\<lambda>_.
     update_proc pid (\<lambda>p. p\<lparr>p_pending := (p_pending p)[idx := None]\<rparr>)))"

definition set_waiter :: "nat \<Rightarrow> nat \<Rightarrow> ('a proc_state_scheme, unit) kfn" where
  "set_waiter pid task = update_proc pid (\<lambda>p. p\<lparr>p_ring_waiter := Some task\<rparr>)"

definition take_waiter :: "nat \<Rightarrow> ('a proc_state_scheme, nat option) kfn" where
  "take_waiter pid =
     k_bind (get_proc pid) (\<lambda>p.
     k_bind (update_proc pid (\<lambda>p. p\<lparr>p_ring_waiter := None\<rparr>)) (\<lambda>_.
     k_return (p_ring_waiter p)))"

definition clear_ring :: "nat \<Rightarrow> ('a proc_state_scheme, unit) kfn" where
  "clear_ring pid = update_proc pid (\<lambda>p. p\<lparr>p_pending := replicate MAX_PENDING None, p_ring_waiter := None\<rparr>)"

definition take_frames :: "nat \<Rightarrow> ('a proc_state_scheme, (usize \<times> usize) list) kfn" where
  "take_frames pid =
     k_bind (get_proc pid) (\<lambda>p.
     k_bind (update_proc pid (\<lambda>p. p\<lparr>p_frames := []\<rparr>)) (\<lambda>_.
     k_return (p_frames p)))"

definition mark_exited :: "nat \<Rightarrow> ('a proc_state_scheme, unit) kfn" where
  "mark_exited pid = update_proc pid (\<lambda>p. p\<lparr>p_ring_pa := 0, p_foreground := False\<rparr>)"

text \<open>The loop over the ranges of the image: the first that contains the request decides.\<close>

fun range_allows :: "usize \<Rightarrow> usize \<Rightarrow> bool \<Rightarrow> Range list \<Rightarrow> bool" where
  "range_allows ptr e need_write [] = False"
| "range_allows ptr e need_write (r # rs) =
     (if r_start r \<le> ptr \<and> e \<le> r_end r then \<not> need_write \<or> r_writable r
      else range_allows ptr e need_write rs)"

definition is_user_range :: "nat \<Rightarrow> usize \<Rightarrow> usize \<Rightarrow> bool \<Rightarrow> ('a proc_state_scheme, bool) kfn" where
  "is_user_range pid ptr len need_write =
     (case checked_add ptr len of
        None \<Rightarrow> k_return False
      | Some e \<Rightarrow>
          if USER_STACK_VA \<le> ptr \<and> e \<le> USER_STACK_VA + USER_STACK_SIZE then k_return True
          else
            k_bind (get_proc pid) (\<lambda>p.
            if l_count (p_loaded p) \<le> length (l_ranges (p_loaded p))
            then k_return (range_allows ptr e need_write (take (l_count (p_loaded p)) (l_ranges (p_loaded p))))
            else k_panic IndexOutOfBounds))"

section \<open>Running the accessors\<close>

lemma get_proc_run [run_simps]:
  "get_proc pid s = (if pid < length (PROCESSES s) then Inr (PROCESSES s ! pid, s) else Inl IndexOutOfBounds)"
  by (simp add: get_proc_def run_simps)

lemma update_proc_run [run_simps]:
  "update_proc pid f s = (if pid < length (PROCESSES s)
     then Inr ((), s\<lparr>PROCESSES := (PROCESSES s)[pid := f (PROCESSES s ! pid)]\<rparr>) else Inl IndexOutOfBounds)"
  by (simp add: update_proc_def run_simps)

lemma position_Some: "position P xs = Some i \<Longrightarrow> i < length xs \<and> P (xs ! i) \<and> (\<forall>j < i. \<not> P (xs ! j))"
proof (induction xs arbitrary: i)
  case (Cons x xs)
  show ?case
  proof (cases "P x")
    case True
    then show ?thesis using Cons.prems by simp
  next
    case False
    then obtain k where "position P xs = Some k" "i = Suc k" using Cons.prems by auto
    with Cons.IH False show ?thesis by (auto simp: less_Suc_eq_0_disj)
  qed
qed simp

lemma position_None: "position P xs = None \<longleftrightarrow> (\<forall>x \<in> set xs. \<not> P x)"
  by (induction xs) auto

lemma range_allows_iff:
  "range_allows ptr e w rs \<Longrightarrow> \<exists>r \<in> set rs. r_start r \<le> ptr \<and> e \<le> r_end r \<and> (w \<longrightarrow> r_writable r)"
  by (induction rs) (auto split: if_splits)


section \<open>The memory of a process\<close>

definition range_pages :: "upage list \<Rightarrow> Range \<Rightarrow> bool" where
  "range_pages ps rg \<longleftrightarrow> (\<forall>a. r_start rg \<le> a \<longrightarrow> a < r_end rg \<longrightarrow> user_va a \<and>
     (\<exists>f. (page_of a, f, if r_writable rg then PAGE_USER_RW else PAGE_USER_RX) \<in> set ps))"

text \<open>
  \<open>proc_space R D m p ps\<close>: the space of process \<open>p\<close> maps exactly the pages \<open>ps\<close>, which are
  the ones it will give back, and they cover the ranges of its image and its stack with the
  permissions the process table records.
\<close>

definition proc_space :: "usize set \<Rightarrow> usize set \<Rightarrow> memory \<Rightarrow> Process \<Rightarrow> upage list \<Rightarrow> bool" where
  "proc_space R D m p ps \<longleftrightarrow> user_space R D m (p_ttbr0 p) ps \<and> p_frames p = map (\<lambda>(va, f, perm). (va, f)) ps \<and>
     l_count (p_loaded p) \<le> length (l_ranges (p_loaded p)) \<and>
     (\<forall>rg \<in> set (take (l_count (p_loaded p)) (l_ranges (p_loaded p))). range_pages ps rg) \<and>
     (\<exists>f. (USER_STACK_VA, f, PAGE_USER_RW) \<in> set ps)"

lemma stack_va: "unat USER_STACK_VA = 0x8000100000" "user_va USER_STACK_VA" "page_aligned USER_STACK_VA"
  by (simp_all add: USER_STACK_VA_def USER_BASE_def user_va_unat page_aligned_def)

lemma stack_bytes:
  assumes "USER_STACK_VA \<le> a" "unat a < unat USER_STACK_VA + 4096"
  shows "page_of a = USER_STACK_VA" "user_va a"
proof -
  have a: "0x8000100000 \<le> unat a" "unat a < 0x8000101000" using assms by (simp_all add: word_le_nat_alt stack_va)
  then have "unat a div 4096 = 0x8000100" by (intro div_nat_eqI) simp_all
  then show "page_of a = USER_STACK_VA" by (simp add: word_unat_eq_iff unat_page_of_div stack_va)
  show "user_va a" using a by (simp add: user_va_unat)
qed

lemma is_user_range_true:
  assumes "is_user_range pid ptr len w s = Inr (True, t)"
  shows "t = s" "unat ptr + unat len < 2 ^ 64"
    "USER_STACK_VA \<le> ptr \<and> unat ptr + unat len \<le> unat USER_STACK_VA + 4096 \<or>
     pid < length (PROCESSES s) \<and> (\<exists>rg \<in> set (take (l_count (p_loaded (PROCESSES s ! pid))) (l_ranges (p_loaded (PROCESSES s ! pid)))).
       r_start rg \<le> ptr \<and> unat ptr + unat len \<le> unat (r_end rg) \<and> (w \<longrightarrow> r_writable rg))"
proof -
  have c: "checked_add ptr len = Some (ptr + len)" and b: "unat ptr + unat len < 2 ^ 64"
    using assms by (auto simp: is_user_range_def checked_add_def run_simps split: if_splits)
  then have u: "unat (ptr + len) = unat ptr + unat len" by (simp add: unat_word_ariths)
  have st: "unat (USER_STACK_VA + USER_STACK_SIZE) = unat USER_STACK_VA + 4096"
    by (simp add: USER_STACK_VA_def USER_STACK_SIZE_def USER_BASE_def FRAME_SIZE_def)
  show "t = s" using assms c by (auto simp: is_user_range_def run_simps split: if_splits)
  show "unat ptr + unat len < 2 ^ 64" by (rule b)
  show "USER_STACK_VA \<le> ptr \<and> unat ptr + unat len \<le> unat USER_STACK_VA + 4096 \<or>
     pid < length (PROCESSES s) \<and> (\<exists>rg \<in> set (take (l_count (p_loaded (PROCESSES s ! pid))) (l_ranges (p_loaded (PROCESSES s ! pid)))).
       r_start rg \<le> ptr \<and> unat ptr + unat len \<le> unat (r_end rg) \<and> (w \<longrightarrow> r_writable rg))"
  proof (cases "USER_STACK_VA \<le> ptr \<and> ptr + len \<le> USER_STACK_VA + USER_STACK_SIZE")
    case True
    then show ?thesis by (simp add: word_le_nat_alt u st)
  next
    case False
    then have "pid < length (PROCESSES s)" and
      "range_allows ptr (ptr + len) w (take (l_count (p_loaded (PROCESSES s ! pid))) (l_ranges (p_loaded (PROCESSES s ! pid))))"
      using assms c by (auto simp: is_user_range_def run_simps split: if_splits)
    then show ?thesis using range_allows_iff by (fastforce simp: word_le_nat_alt u)
  qed
qed

lemma is_user_range_pages:
  assumes chk: "is_user_range pid ptr len w s = Inr (True, t)" and sp: "proc_space R D m (PROCESSES s ! pid) ps"
    and k: "k < unat len"
  shows "user_va (ptr + of_nat k) \<and> unat (ptr + of_nat k) = unat ptr + k \<and>
    (\<exists>f perm. (page_of (ptr + of_nat k), f, perm) \<in> set ps \<and> (w \<longrightarrow> perm = PAGE_USER_RW))"
proof -
  note c = is_user_range_true[OF chk]
  have k64: "k < 2 ^ 64" using k unsigned_less[of len, where 'a = nat] by simp
  have u: "unat (ptr + of_nat k) = unat ptr + k" using c(2) k k64 by (simp add: unat_word_ariths unat_of_nat)
  have le: "x \<le> ptr \<Longrightarrow> x \<le> ptr + of_nat k" for x by (simp add: word_le_nat_alt u)
  from c(3) show ?thesis
  proof (elim disjE conjE bexE)
    assume st: "USER_STACK_VA \<le> ptr" "unat ptr + unat len \<le> unat USER_STACK_VA + 4096"
    have "unat (ptr + of_nat k) < unat USER_STACK_VA + 4096" using st(2) k u by simp
    from stack_bytes[OF le[OF st(1)] this] show ?thesis using sp u by (auto simp: proc_space_def)
  next
    fix rg assume rg: "rg \<in> set (take (l_count (p_loaded (PROCESSES s ! pid))) (l_ranges (p_loaded (PROCESSES s ! pid))))"
      "r_start rg \<le> ptr" "unat ptr + unat len \<le> unat (r_end rg)" "w \<longrightarrow> r_writable rg"
    have "ptr + of_nat k < r_end rg" using rg(3) k by (simp add: word_less_nat_alt u)
    moreover have "range_pages ps rg" using sp rg(1) by (simp add: proc_space_def)
    ultimately have "user_va (ptr + of_nat k)"
      "\<exists>f. (page_of (ptr + of_nat k), f, if r_writable rg then PAGE_USER_RW else PAGE_USER_RX) \<in> set ps"
      using le[OF rg(2)] unfolding range_pages_def by blast+
    then show ?thesis using rg(4) u by (cases "r_writable rg") (simp_all, blast+)
  qed
qed

lemma proc_space_walk:
  assumes sp: "proc_space R D m p ps" and pg: "(page_of va, f, perm) \<in> set ps" and va: "user_va va"
  shows "hw_walk m (p_ttbr0 p) va = Some (f OR perm, f OR (va AND 0xFFF)) \<and> el0_read (f OR perm) \<and>
    (perm = PAGE_USER_RW \<longrightarrow> el0_write (f OR perm)) \<and> valid_frame f \<and> f \<in> D \<and> page_of (f OR (va AND 0xFFF)) = f"
proof -
  have own: "owns_pages m (p_ttbr0 p) ps" and fD: "f \<in> D"
    using sp pg by (auto simp: proc_space_def user_space_def page_frames_def)
  note l = owns_pages_leaf[OF own pg va]
  have "va AND 0xFFF < 0x1000" using word_and_le1[of va "0xFFF"] by (rule order.strict_trans1) simp
  then have "page_of (f OR (va AND 0xFFF)) = f"
    using page_aligned_add_or[of f] page_of_add[of f] l(2) by (simp add: valid_frame_aligned)
  then show ?thesis using owns_pages_walk[OF own pg va] user_desc[OF l(2,3)] l fD by auto
qed

section \<open>Creating a process\<close>

lemma load_inv_frames:
  "load_inv U R D r s0 T owned fs s \<Longrightarrow> owned = map (\<lambda>(va, f, perm). (va, f)) (owned_pages owned T)"
proof -
  assume "load_inv U R D r s0 T owned fs s"
  then have "length owned = length T" by (auto simp: load_inv_def dest: list_all2_lengthD)
  then show ?thesis by (induction owned T rule: list_induct2) (auto simp: owned_pages_def)
qed

lemma load_inv_page:
  assumes inv: "load_inv U R D r s0 T owned fs s" and t: "(va, p, g) \<in> set T"
  shows "\<exists>f. (va, f, p) \<in> set (owned_pages owned T)"
proof -
  have l2: "list_all2 (page_loaded s) owned T" using inv by (simp add: load_inv_def)
  from t obtain i where i: "i < length T" "T ! i = (va, p, g)" by (auto simp: in_set_conv_nth)
  have len: "length owned = length T" using list_all2_lengthD[OF l2] .
  have "fst (owned ! i) = va" using page_loaded_vas[OF l2] i len by (metis fst_conv nth_map)
  then have "owned_pages owned T ! i = (va, snd (owned ! i), p)" using i len by (cases "owned ! i") (simp add: owned_pages_def)
  moreover have "i < length (owned_pages owned T)" using i len by (simp add: owned_pages_def)
  ultimately show ?thesis by (metis nth_mem)
qed

lemma load_inv_ranges:
  assumes inv: "load_inv U R D r s0 (image_pages img @ T) owned fs s" and ok: "image_ok img"
    and rg: "rg \<in> set (map seg_range (elf_segments img))"
  shows "range_pages (owned_pages owned (image_pages img @ T)) rg"
  unfolding range_pages_def
proof (intro allI impI)
  fix a assume a: "r_start rg \<le> a" "a < r_end rg"
  from rg obtain seg where seg: "seg \<in> set (elf_segments img)" "rg = seg_range seg" by auto
  have sok: "seg_ok img seg"
    using ok seg(1) by (auto simp: image_ok_def elf_segments_def phdr_ok_def list_all_iff List.map_filter_def)
  let ?k = "unat a - unat (sg_vaddr seg)"
  have v: "unat (sg_vaddr seg) + unat (sg_memsz seg) \<le> 0x10000000000" using sok by (simp add: seg_ok_def USER_BASE_def)
  then have e: "unat (sg_vaddr seg + sg_memsz seg) = unat (sg_vaddr seg) + unat (sg_memsz seg)" by (simp add: unat_word_ariths)
  have sa: "unat (sg_vaddr seg) \<le> unat a" "unat a < unat (sg_vaddr seg) + unat (sg_memsz seg)"
    using a e by (simp_all add: seg(2) seg_range_def word_le_nat_alt word_less_nat_alt)
  then have k: "?k < unat (sg_memsz seg)" by simp
  have ak: "a = sg_vaddr seg + of_nat ?k" using sa(1) by (simp add: of_nat_diff)
  note ip = image_page_of[OF ok seg(1) k]
  have j: "?k div 4096 < seg_npages seg" unfolding seg_npages_def using k by (simp add: div_less_iff_less_mult)
  have small: "of_nat (?k mod 4096) < (0x1000 :: usize)" by (simp add: word_less_nat_alt unat_of_nat)
  have pg: "page_of a = sg_vaddr seg + 4096 * of_nat (?k div 4096)"
    using ak ip(2) page_of_add[OF seg_page_va(4)[OF sok j] small] by simp
  have "(page_of a, segment_perms seg, \<lambda>b. seg_byte img seg (4096 * (?k div 4096) + b)) \<in> set (image_pages img @ T)"
    using ip(1) pg by (simp add: seg_page_def)
  from load_inv_page[OF inv this] have "\<exists>f. (page_of a, f, segment_perms seg) \<in> set (owned_pages owned (image_pages img @ T))" .
  moreover have "user_va a" using sa v sok by (simp add: user_va_unat seg_ok_def USER_BASE_def word_le_nat_alt)
  ultimately show "user_va a \<and> (\<exists>f. (page_of a, f, if r_writable rg then PAGE_USER_RW else PAGE_USER_RX)
      \<in> set (owned_pages owned (image_pages img @ T)))"
    by (cases "sg_executable seg") (simp_all add: seg(2) seg_range_def segment_perms_def)
qed

definition process_of :: "u8 list \<Rightarrow> u64 \<Rightarrow> (usize \<times> usize) list \<Rightarrow> Process" where
  "process_of img r owned = \<lparr>p_ttbr0 = r, p_loaded = loaded_of img, p_frames = owned, p_ring_pa = 0,
     p_pending = replicate MAX_PENDING None, p_ring_waiter = None, p_foreground = False,
     p_parent = None, p_exit_code = None, p_exit_waiter = None\<rparr>"

lemma load_only_procs: "load_only s t \<Longrightarrow> PROCESSES t = PROCESSES s"
proof -
  assume "load_only s t"
  then have e: "load_erase t = load_erase s" by (simp add: load_only_def)
  show ?thesis using arg_cong[OF e, of PROCESSES] by (simp add: load_erase_def)
qed

lemma load_inv_stack:
  assumes inv: "load_inv U R D r s0 (image_pages img) owned fs s" and ok: "image_ok img"
    and st: "USER_STACK_VA \<notin> fst ` set (image_pages img)" and room: "4 \<le> length fs"
  obtains f t g gs where "alloc_frame s = Inr (Some f, pop_state f s)"
    "map_page_in r USER_STACK_VA f PAGE_USER_RW (pop_state f s) = Inr ((), t)"
    "load_inv U R D r s0 (image_pages img @ [(USER_STACK_VA, PAGE_USER_RW, g)]) (owned @ [(USER_STACK_VA, f)]) gs t"
proof -
  obtain f fs1 where fs: "fs = f # fs1" using room by (cases fs) auto
  note inv = inv[unfolded fs]
  have run: "alloc_frame s = Inr (Some f, pop_state f s)" using good_alloc(1) inv by (auto simp: load_inv_def)
  let ?g = "\<lambda>b. ld8 (mem s) (f + of_nat b)"
  have "wp (map_page_in r USER_STACK_VA f PAGE_USER_RW) (\<lambda>_ s'. \<exists>fs'. length fs1 \<le> length fs' + 3 \<and>
    load_inv U R D r s0 (image_pages img @ [(USER_STACK_VA, PAGE_USER_RW, ?g)]) (owned @ [(USER_STACK_VA, f)]) fs' s') (pop_state f s)"
    by (rule load_inv_map[OF inv _ stack_va(2,3) st, where m = "mem s" and ls = "[]"])
      (use room in \<open>auto simp: fs user_perm_def pop_state_def user_rx_not_rw\<close>)
  then show ?thesis using that[OF run] by (auto simp: wp_iff)
qed

lemma process_of_space:
  assumes inv: "load_inv U R D r s0 (image_pages img @ [(USER_STACK_VA, PAGE_USER_RW, g)]) owned fs s" and ok: "image_ok img"
  shows "\<exists>ps. owned = map (\<lambda>(va, f, perm). (va, f)) ps \<and> page_frames ps = snd ` set owned \<and>
    proc_space R (D \<union> page_frames ps) (mem s) (process_of img r owned) ps"
proof -
  let ?T = "image_pages img @ [(USER_STACK_VA, PAGE_USER_RW, g)]" and ?ps = "owned_pages owned (image_pages img @ [(USER_STACK_VA, PAGE_USER_RW, g)])"
  have len: "length owned = length ?T" using inv by (auto simp: load_inv_def dest: list_all2_lengthD)
  have fr: "page_frames ?ps = snd ` set owned" by (rule owned_pages_frames[OF len])
  have "length (elf_segments img) \<le> MAX_SEGMENTS" using ok by (simp add: image_ok_def)
  then have "l_count (loaded_of img) \<le> length (l_ranges (loaded_of img))"
    by (simp add: loaded_of_def put_ranges_def)
  moreover have "\<forall>rg \<in> set (map seg_range (elf_segments img)). range_pages ?ps rg" using load_inv_ranges[OF inv ok] by blast
  moreover have "\<exists>f. (USER_STACK_VA, f, PAGE_USER_RW) \<in> set ?ps" by (rule load_inv_page[OF inv, where g = g]) simp
  moreover have "user_space R (D \<union> snd ` set owned) (mem s) r ?ps" using inv by (simp add: load_inv_def)
  ultimately have "proc_space R (D \<union> page_frames ?ps) (mem s) (process_of img r owned) ?ps"
    using load_inv_frames[OF inv] fr loaded_ranges[of img] by (simp add: proc_space_def process_of_def)
  then show ?thesis using load_inv_frames[OF inv] fr by blast
qed

lemma create_ok:
  assumes good: "vm_good U R D fs s" and sp: "user_space R D (mem s) r []" and ok: "image_ok img"
    and st: "USER_STACK_VA \<notin> fst ` set (image_pages img)" and room: "4 * Suc (length (image_pages img)) \<le> length fs"
  shows "wp (create img r) (\<lambda>pid s'. pid = length (PROCESSES s) \<and> (\<exists>ps fs' g.
      PROCESSES s' = PROCESSES s @ [process_of img r (p_frames (PROCESSES s' ! pid))] \<and>
      load_inv U R D r s (image_pages img @ [(USER_STACK_VA, PAGE_USER_RW, g)]) (p_frames (PROCESSES s' ! pid)) fs'
        (s'\<lparr>PROCESSES := PROCESSES s\<rparr>) \<and>
      vm_good U R (D \<union> page_frames ps) fs' s' \<and> D \<inter> page_frames ps = {} \<and>
      proc_space R (D \<union> page_frames ps) (mem s') (PROCESSES s' ! pid) ps)) s"
proof -
  from load_ok[OF good sp ok] room obtain owned s1 fs1 where l: "load img r [] s = Inr ((loaded_of img, owned), s1)"
    and i1: "load_inv U R D r s (image_pages img) owned fs1 s1" and "length fs \<le> length fs1 + 4 * length (image_pages img)"
    by (auto simp: wp_iff)
  then have "4 \<le> length fs1" using room by simp
  from load_inv_stack[OF i1 ok st this] obtain f t g gs where al: "alloc_frame s1 = Inr (Some f, pop_state f s1)"
    and mp: "map_page_in r USER_STACK_VA f PAGE_USER_RW (pop_state f s1) = Inr ((), t)"
    and i2: "load_inv U R D r s (image_pages img @ [(USER_STACK_VA, PAGE_USER_RW, g)]) (owned @ [(USER_STACK_VA, f)]) gs t" .
  from process_of_space[OF i2 ok] obtain ps where ps: "owned @ [(USER_STACK_VA, f)] = map (\<lambda>(va, f, perm). (va, f)) ps"
    "page_frames ps = snd ` set (owned @ [(USER_STACK_VA, f)])"
    "proc_space R (D \<union> page_frames ps) (mem t) (process_of img r (owned @ [(USER_STACK_VA, f)])) ps" by blast
  have r: "l0_ptr r = r" using vm_goodD(12)[OF good, of r] sp by (simp add: l0_ptr_def user_space_def)
  have pt: "PROCESSES t = PROCESSES s" using i2 by (auto simp: load_inv_def dest: load_only_procs)
  let ?p = "process_of img r (owned @ [(USER_STACK_VA, f)])"
  let ?u = "t\<lparr>PROCESSES := PROCESSES s @ [?p]\<rparr>"
  have run: "create img r s = Inr (length (PROCESSES s), ?u)"
    by (simp add: create_def run_simps l al mp r pt process_of_def)
  have "vm_good U R (D \<union> page_frames ps) gs t" "D \<inter> page_frames ps = {}" using i2 ps(2) by (simp_all add: load_inv_def)
  then have "vm_good U R (D \<union> page_frames ps) gs ?u \<and> D \<inter> page_frames ps = {}"
    using vm_good_cong[of ?u t U R "D \<union> page_frames ps" gs] by simp
  moreover have "?u\<lparr>PROCESSES := PROCESSES s\<rparr> = t" using pt by simp
  ultimately show ?thesis
    using ps(3) i2 by (intro wpI[where m = "create img r", OF run]) (auto simp: process_of_def)
qed


section \<open>Properties of processes\<close>

definition off_proc :: proc_state where
  "off_proc = sched_state.extend three_tasks \<lparr>PROCESSES = []\<rparr>"

lemma mini_elf_stack: "USER_STACK_VA \<notin> fst ` set (image_pages mini_elf)"
  by (simp add: mini_elf_pages seg_page_def mini_segment_def USER_STACK_VA_def USER_BASE_def)

lemma sample_process:
  fixes b :: "'a proc_state_scheme"
  assumes "INSTALLED b = 0"
  shows "\<exists>(s :: 'a proc_state_scheme) p ps fs. PROCESSES s = [p] \<and> p = process_of mini_elf 0x40103000 (p_frames p) \<and>
    vm_good (set (frame_range 16)) {0x40100000, 0x40103000} (page_frames ps) fs s \<and>
    proc_space {0x40100000, 0x40103000} (page_frames ps) (mem s) p ps \<and>
    KERNEL_TTBR0 s = 0x40100000 \<and> ttbr0_el1 s = 0x40100000"
proof -
  let ?U = "set (frame_range 16)" and ?R = "{0x40100000, 0x40103000} :: usize set"
  from sample_space[of b 16] assms obtain s0 :: "'a proc_state_scheme" where
    s0: "vm_good ?U ?R {} (drop 4 (frame_range 16)) s0" "user_space ?R {} (mem s0) 0x40103000 []"
      "KERNEL_TTBR0 s0 = 0x40100000" "ttbr0_el1 s0 = 0x40100000" by (auto simp: wp_iff)
  have "4 * Suc (length (image_pages mini_elf)) \<le> length (drop 4 (frame_range 16))" by (simp add: mini_elf_pages)
  from create_ok[OF s0(1,2) mini_elf_ok mini_elf_stack this] obtain s1 ps fs g where
    c: "PROCESSES s1 = PROCESSES s0 @ [process_of mini_elf 0x40103000 (p_frames (PROCESSES s1 ! length (PROCESSES s0)))]"
      "load_inv ?U ?R {} 0x40103000 s0 (image_pages mini_elf @ [(USER_STACK_VA, PAGE_USER_RW, g)])
         (p_frames (PROCESSES s1 ! length (PROCESSES s0))) fs (s1\<lparr>PROCESSES := PROCESSES s0\<rparr>)"
      "vm_good ?U ?R (page_frames ps) fs s1" "proc_space ?R (page_frames ps) (mem s1) (PROCESSES s1 ! length (PROCESSES s0)) ps"
    by (auto simp: wp_iff)
  let ?p = "PROCESSES s1 ! length (PROCESSES s0)"
  let ?s = "s1\<lparr>PROCESSES := [?p]\<rparr>"
  have "?p = process_of mini_elf 0x40103000 (p_frames ?p)" using c(1) by (metis nth_append_length)
  moreover have "vm_good ?U ?R (page_frames ps) fs ?s" using c(3) vm_good_cong[of ?s s1] by simp
  moreover have "load_only s0 (s1\<lparr>PROCESSES := PROCESSES s0\<rparr>)" using c(2) by (simp add: load_inv_def)
  then have "KERNEL_TTBR0 ?s = 0x40100000 \<and> ttbr0_el1 ?s = 0x40100000" using load_only_fields[of s0 "s1\<lparr>PROCESSES := PROCESSES s0\<rparr>"] s0(3,4) by simp
  moreover have "PROCESSES ?s = [?p]" "mem ?s = mem s1" by simp_all
  ultimately show ?thesis using c(4) by metis
qed

text \<open>
  C10. Whenever the pointer check accepts a range for a process, every byte of it is mapped in
  the address space of that process, readable at EL0, writable at EL0 when write access was
  asked for, and backed by a frame the process owns; the check reads the table only.
\<close>

theorem is_user_range_sound:
  assumes "proc_space R D (mem s) (PROCESSES s ! pid) ps" "is_user_range pid ptr len need_write s = Inr (True, t)"
    "k < unat len"
  shows "t = s \<and> (\<exists>d pa. hw_walk (mem s) (p_ttbr0 (PROCESSES s ! pid)) (ptr + of_nat k) = Some (d, pa) \<and>
    el0_read d \<and> (need_write \<longrightarrow> el0_write d) \<and> page_of pa \<in> snd ` set (p_frames (PROCESSES s ! pid)))"
proof -
  from is_user_range_pages[OF assms(2,1,3)] obtain f perm where
    v: "user_va (ptr + of_nat k)" "(page_of (ptr + of_nat k), f, perm) \<in> set ps" "need_write \<longrightarrow> perm = PAGE_USER_RW" by blast
  note w = proc_space_walk[OF assms(1) v(2,1)]
  have "f \<in> snd ` set (p_frames (PROCESSES s ! pid))"
    using assms(1) v(2) by (force simp: proc_space_def)
  with w v(3) show ?thesis using is_user_range_true(1)[OF assms(2)] by auto
qed

theorem is_user_range_sound_witness:
  "\<exists>(s :: proc_state) d pa. is_user_range 0 0x8000100010 8 True s = Inr (True, s) \<and>
     hw_walk (mem s) 0x40103000 0x8000100013 = Some (d, pa) \<and> el0_write d"
proof -
  have "INSTALLED off_proc = 0" by (simp add: off_proc_def state_defs three_tasks_def off_mmu_def)
  from sample_process[OF this] obtain s :: proc_state and p ps fs where s: "PROCESSES s = [p]"
    "p = process_of mini_elf 0x40103000 (p_frames p)" "proc_space {0x40100000, 0x40103000} (page_frames ps) (mem s) p ps" by blast
  have r: "is_user_range 0 0x8000100010 8 True s = Inr (True, s)"
    by (simp add: is_user_range_def checked_add_def run_simps USER_STACK_VA_def USER_STACK_SIZE_def USER_BASE_def FRAME_SIZE_def)
  have "p_ttbr0 p = 0x40103000" using arg_cong[OF s(2), of p_ttbr0] by (simp add: process_of_def)
  with is_user_range_sound[OF _ r, of "{0x40100000, 0x40103000}" "page_frames ps" ps 3] s(1,3)
  obtain d pa where "hw_walk (mem s) 0x40103000 0x8000100013 = Some (d, pa)" "el0_write d" by auto
  then show ?thesis using r by blast
qed



end
