(* ===== verification/User_Copy.thy ===== *)
theory User_Copy
  imports Process
begin

unbundle bit_operations_syntax

text \<open>
  Data movement between the kernel and a process: \<^verbatim>\<open>copy_to_user\<close> of \<^verbatim>\<open>kernel/src/user.rs\<close>
  with its unprivileged stores, and the loads behind the slices \<^verbatim>\<open>ring.rs\<close> builds on user
  memory. Both go through the live translation (\<open>mmu_lookup\<close>); an access the MMU refuses is
  a data abort taken at EL1.
\<close>

section \<open>Accesses\<close>

text \<open>\<^verbatim>\<open>STTRB\<close>: a store with the permissions of EL0.\<close>

definition sttrb :: "usize \<Rightarrow> u8 \<Rightarrow> ('a machine_scheme, unit) kfn" where
  "sttrb va b =
     k_bind (k_gets (\<lambda>s. mmu_lookup s va)) (\<lambda>r.
     case r of
       None \<Rightarrow> k_panic MemoryFault
     | Some (d, pa) \<Rightarrow> if el0_write d then write_u8 pa b else k_panic MemoryFault)"

text \<open>A load by the kernel itself.\<close>

definition ldrb :: "usize \<Rightarrow> ('a machine_scheme, u8) kfn" where
  "ldrb va =
     k_bind (k_gets (\<lambda>s. mmu_lookup s va)) (\<lambda>r.
     case r of
       None \<Rightarrow> k_panic MemoryFault
     | Some (d, pa) \<Rightarrow> k_gets (\<lambda>s. ld8 (mem s) pa))"

fun k_map :: "('x \<Rightarrow> ('s, 'y) kfn) \<Rightarrow> 'x list \<Rightarrow> ('s, 'y list) kfn" where
  "k_map f [] = k_return []"
| "k_map f (x # xs) = k_bind (f x) (\<lambda>y. k_bind (k_map f xs) (\<lambda>ys. k_return (y # ys)))"

text \<open>\<^verbatim>\<open>core::slice::from_raw_parts(ptr, len)\<close>, read to the end.\<close>

definition read_slice :: "usize \<Rightarrow> usize \<Rightarrow> ('a machine_scheme, u8 list) kfn" where
  "read_slice ptr len = k_map (\<lambda>k. ldrb (ptr + of_nat k)) [0..<unat len]"

definition copy_to_user :: "nat \<Rightarrow> usize \<Rightarrow> u8 list \<Rightarrow> ('a proc_state_scheme, bool) kfn" where
  "copy_to_user pid dst src =
     k_bind (is_user_range pid dst (of_nat (length src)) True) (\<lambda>ok.
     if \<not> ok then k_return False
     else
       k_bind (k_for (zip [0..<length src] src) (\<lambda>(i, b).
         k_bind (k_add dst (of_nat i)) (\<lambda>a. sttrb a b))) (\<lambda>_.
       k_return True))"

section \<open>The live process\<close>

text \<open>
  \<open>live R D s pid p ps\<close>: process \<open>pid\<close> is \<open>p\<close>, its pages are \<open>ps\<close> and its space is the one
  the MMU translates with.
\<close>

definition live :: "usize set \<Rightarrow> usize set \<Rightarrow> 'a proc_state_scheme \<Rightarrow> nat \<Rightarrow> Process \<Rightarrow> upage list \<Rightarrow> bool" where
  "live R D s pid p ps \<longleftrightarrow> pid < length (PROCESSES s) \<and> PROCESSES s ! pid = p \<and>
     proc_space R D (mem s) p ps \<and> l0_ptr (ttbr0_el1 s) = p_ttbr0 p \<and> tlb_ok s"

lemma live_lookup:
  assumes lv: "live R D s pid p ps" and pg: "(page_of va, f, perm) \<in> set ps" and va: "user_va va"
  shows "mmu_lookup s va = Some (f OR perm, f OR (va AND 0xFFF))" "page_of (f OR (va AND 0xFFF)) = f" "f \<in> D"
    "perm = PAGE_USER_RW \<Longrightarrow> el0_write (f OR perm)" "el0_read (f OR perm)"
  using lv proc_space_walk[OF _ pg va, of R D "mem s" p] mmu_lookup_walk[of s va] by (auto simp: live_def)

text \<open>The translation of a user address of a live process.\<close>

definition user_pa :: "'a machine_scheme \<Rightarrow> usize \<Rightarrow> usize" where
  "user_pa s va = (case mmu_lookup s va of None \<Rightarrow> 0 | Some (d, pa) \<Rightarrow> pa)"

lemma k_map_run:
  "(\<And>x. x \<in> set xs \<Longrightarrow> f x s = Inr (g x, s)) \<Longrightarrow> k_map f xs s = Inr (map g xs, s)"
  by (induction xs) (simp_all add: run_simps)

lemma read_slice_live:
  assumes lv: "live R D s pid p ps" and chk: "is_user_range pid ptr len w s = Inr (True, t)"
  shows "read_slice ptr len s = Inr (map (\<lambda>k. ld8 (mem s) (user_pa s (ptr + of_nat k))) [0..<unat len], s)"
  unfolding read_slice_def
proof (rule k_map_run)
  fix k assume "k \<in> set [0..<unat len]"
  then have k: "k < unat len" by simp
  have sp: "proc_space R D (mem s) (PROCESSES s ! pid) ps" using lv by (auto simp: live_def)
  from is_user_range_pages[OF chk sp k] obtain f perm where
    "user_va (ptr + of_nat k)" "(page_of (ptr + of_nat k), f, perm) \<in> set ps" by blast
  from live_lookup(1)[OF lv this(2,1)] show "ldrb (ptr + of_nat k) s = Inr (ld8 (mem s) (user_pa s (ptr + of_nat k)), s)"
    by (simp add: ldrb_def run_simps user_pa_def)
qed

text \<open>
  A checked one-byte copy into a live process stores the byte where the process will see it
  and changes no other byte of memory; a refused one changes nothing.
\<close>

lemma is_user_range_total:
  assumes "live R D s pid p ps"
  shows "\<exists>b. is_user_range pid ptr len w s = Inr (b, s)"
proof -
  have "pid < length (PROCESSES s)" "l_count (p_loaded (PROCESSES s ! pid)) \<le> length (l_ranges (p_loaded (PROCESSES s ! pid)))"
    using assms by (auto simp: live_def proc_space_def)
  then show ?thesis by (auto simp: is_user_range_def run_simps split: option.splits)
qed

lemma copy_byte_live:
  assumes lv: "live R D s pid p ps"
  shows "(\<exists>va pa f. is_user_range pid dst 1 True s = Inr (True, s) \<and> mmu_lookup s dst = Some (va, pa) \<and> page_of pa = f \<and>
      f \<in> page_frames ps \<and> copy_to_user pid dst [b] s = Inr (True, s\<lparr>mem := st8 (mem s) pa b\<rparr>)) \<or>
    is_user_range pid dst 1 True s = Inr (False, s) \<and> copy_to_user pid dst [b] s = Inr (False, s)"
proof -
  from is_user_range_total[OF lv] obtain ok where ok: "is_user_range pid dst 1 True s = Inr (ok, s)" by blast
  show ?thesis
  proof (cases ok)
    case True
    then have chk: "is_user_range pid dst 1 True s = Inr (True, s)" using ok by simp
    have sp: "proc_space R D (mem s) (PROCESSES s ! pid) ps" using lv by (auto simp: live_def)
    from is_user_range_pages[OF chk sp, of 0] obtain f where
      v: "user_va dst" "(page_of dst, f, PAGE_USER_RW) \<in> set ps" by auto
    note l = live_lookup[OF lv v(2,1)]
    have fp: "f \<in> page_frames ps" using v(2) by (force simp: page_frames_def)
    have "unat dst < 2 ^ 64" using unsigned_less[of dst, where 'a = nat] by simp
    then have "copy_to_user pid dst [b] s = Inr (True, s\<lparr>mem := st8 (mem s) (f OR (dst AND 0xFFF)) b\<rparr>)"
      using chk l by (simp add: copy_to_user_def run_simps sttrb_def write_u8_def)
    then show ?thesis using chk l fp by blast
  next
    case False
    then show ?thesis using ok by (simp add: copy_to_user_def run_simps)
  qed
qed

end
