(* ===== verification/Ring.thy ===== *)
theory Ring
  imports User_Copy
begin

unbundle bit_operations_syntax

text \<open>
  The kernel side of the submission and completion rings, \<^verbatim>\<open>kernel/src/ring.rs\<close>, with the
  program registry of \<^verbatim>\<open>kernel/src/programs.rs\<close>. The ring page of a process is reached at
  its physical address; payloads of submissions are user addresses of the live space.
  A call that blocks ends at the context switch and says where it will resume.
\<close>

section \<open>State and parameters\<close>

record ring_state = proc_state +
  ring_poller :: "nat option"

text \<open>
  What the build provides: the addresses of \<^verbatim>\<open>task_trampoline\<close> and \<^verbatim>\<open>user_task\<close>, and the
  generated table of embedded programs, names and images.
\<close>

record kernel_image =
  ki_trampoline :: usize
  ki_user_task :: usize
  ki_programs :: "(u8 list \<times> u8 list) list"

definition programs_get :: "kernel_image \<Rightarrow> u8 list \<Rightarrow> u8 list option" where
  "programs_get ki name = map_option snd (find (\<lambda>(n, bytes). n = name) (ki_programs ki))"

definition SQ_IDLE_TICKS :: u64 where "SQ_IDLE_TICKS = 5"
definition RING_ERR :: i64 where "RING_ERR = - 1"

section \<open>Text\<close>

text \<open>\<^verbatim>\<open>core::str::from_utf8\<close>: whether the bytes are well-formed UTF-8.\<close>

definition cont :: "u8 \<Rightarrow> bool" where
  "cont b \<longleftrightarrow> 0x80 \<le> b \<and> b \<le> 0xBF"

fun utf8_valid :: "u8 list \<Rightarrow> bool" where
  "utf8_valid [] = True"
| "utf8_valid (a # bs) =
     (if a < 0x80 then utf8_valid bs
      else case bs of
        [] \<Rightarrow> False
      | b # bs1 \<Rightarrow>
          if 0xC2 \<le> a \<and> a \<le> 0xDF then cont b \<and> utf8_valid bs1
          else (case bs1 of
            [] \<Rightarrow> False
          | c # bs2 \<Rightarrow>
              if 0xE0 \<le> a \<and> a \<le> 0xEF then
                (if a = 0xE0 then 0xA0 \<le> b \<and> b \<le> 0xBF else if a = 0xED then 0x80 \<le> b \<and> b \<le> 0x9F else cont b) \<and>
                cont c \<and> utf8_valid bs2
              else (case bs2 of
                [] \<Rightarrow> False
              | d # bs3 \<Rightarrow>
                  0xF0 \<le> a \<and> a \<le> 0xF4 \<and>
                  (if a = 0xF0 then 0x90 \<le> b \<and> b \<le> 0xBF else if a = 0xF4 then 0x80 \<le> b \<and> b \<le> 0x8F else cont b) \<and>
                  cont c \<and> cont d \<and> utf8_valid bs3)))"

text \<open>How \<^verbatim>\<open>{}\<close> prints an unsigned and a signed number.\<close>

fun fmt_dec :: "nat \<Rightarrow> u8 list" where
  "fmt_dec n = (if n < 10 then [0x30 + of_nat n] else fmt_dec (n div 10) @ [0x30 + of_nat (n mod 10)])"

declare fmt_dec.simps [simp del]

definition fmt_i64 :: "i64 \<Rightarrow> u8 list" where
  "fmt_i64 n = (if sint n < 0 then 0x2D # fmt_dec (nat (- sint n)) else fmt_dec (nat (sint n)))"

section \<open>Completions\<close>

definition complete :: "usize \<Rightarrow> u64 \<Rightarrow> i64 \<Rightarrow> ('a proc_state_scheme, unit) kfn" where
  "complete pa user_data result =
     k_bind (k_gets (\<lambda>s. rp_cq_tail (mem s) pa)) (\<lambda>tail.
     k_bind (k_gets (\<lambda>s. rp_cq_head (mem s) pa)) (\<lambda>head.
     if RING_ENTRIES \<le> tail - head then kprintln ''jring: completion queue overflow, dropping CQE''
     else
       k_bind (k_modify (\<lambda>s. s\<lparr>mem := store_cqe pa (ring_slot tail)
         \<lparr>cqe_user_data = user_data, cqe_result = result\<rparr> (mem s)\<rparr>)) (\<lambda>_.
       k_modify (\<lambda>s. s\<lparr>mem := set_cq_tail pa (tail + 1) (mem s)\<rparr>))))"

definition ring_setup :: "('a proc_state_scheme, u64) kfn" where
  "ring_setup =
     k_bind current_process (\<lambda>po.
     case po of
       None \<Rightarrow> k_return (- 1)
     | Some pid \<Rightarrow>
         k_bind (proc_ring_pa pid) (\<lambda>pa.
         if pa \<noteq> 0 then k_return USER_RING_VA
         else
           k_bind alloc_frame (\<lambda>fo.
           k_bind (k_expect ''out of frames for the ring page'' fo) (\<lambda>frame.
           k_bind (k_modify (\<lambda>s. s\<lparr>mem := memset frame 0 4096 (mem s)\<rparr>)) (\<lambda>_.
           k_bind (proc_ttbr0 pid) (\<lambda>ttbr0.
           k_bind (map_page_in (l0_ptr ttbr0) USER_RING_VA frame PAGE_USER_RW) (\<lambda>_.
           k_bind (set_ring pid frame) (\<lambda>_.
           k_return USER_RING_VA))))))))"

section \<open>Submissions\<close>

text \<open>The loop of \<^verbatim>\<open>drain_input\<close>.\<close>

function drain_input_loop :: "nat \<Rightarrow> usize \<Rightarrow> usize \<Rightarrow> usize \<Rightarrow> ('a proc_state_scheme, usize) kfn" where
  "drain_input_loop pid buf len count =
     (if count < len then
        k_bind input_pop (\<lambda>bo.
        case bo of
          None \<Rightarrow> k_return count
        | Some b \<Rightarrow>
            k_bind (k_add buf count) (\<lambda>a.
            k_bind (copy_to_user pid a [b]) (\<lambda>ok.
            if \<not> ok then k_return count else drain_input_loop pid buf len (count + 1))))
      else k_return count)"
  by pat_completeness auto
termination
  by (relation "measure (\<lambda>(pid, buf, len, count). unat len - unat count)")
    (auto simp: unat_plus_1 word_less_nat_alt)

declare drain_input_loop.simps [simp del]

definition drain_input :: "nat \<Rightarrow> usize \<Rightarrow> usize \<Rightarrow> ('a proc_state_scheme, usize) kfn" where
  "drain_input pid buf len = drain_input_loop pid buf len 0"

text \<open>
  The \<^verbatim>\<open>debug_assert!\<close> is compiled into the dev profile.
\<close>

definition spawn :: "kernel_image \<Rightarrow> nat \<Rightarrow> usize \<Rightarrow> usize \<Rightarrow> u64 \<Rightarrow> ('a proc_state_scheme, unit) kfn" where
  "spawn ki pid name_ptr name_len user_data =
     k_bind (proc_ring_pa pid) (\<lambda>pa.
     k_bind (is_user_range pid name_ptr name_len False) (\<lambda>ok.
     if \<not> ok then complete pa user_data RING_ERR
     else
       k_bind (read_slice name_ptr name_len) (\<lambda>bytes.
       case (if utf8_valid bytes then programs_get ki bytes else None) of
         None \<Rightarrow> complete pa user_data RING_ERR
       | Some img \<Rightarrow>
           k_bind new_address_space (\<lambda>ttbr0.
           k_bind (create img ttbr0) (\<lambda>child.
           k_bind (set_parent child pid) (\<lambda>_.
           k_bind (proc_ttbr0 pid) (\<lambda>own.
           k_bind (translate ttbr0 USER_BASE) (\<lambda>c.
           k_bind (translate own USER_BASE) (\<lambda>o'.
           k_bind (k_assert (c \<noteq> o') (''spawned child shares the parent'' @ [CHR 0x27] @ ''s frame at USER_BASE'')) (\<lambda>_.
           k_bind (uart_write_str (ascii ''[spawn] '' @ bytes @ ascii '' -> pid '' @ fmt_dec child @ [0x0A])) (\<lambda>_.
           k_bind (spawn_user (ki_trampoline ki) (ki_user_task ki) 0 child ttbr0) (\<lambda>_.
           complete pa user_data (of_nat child)))))))))))))"

definition ring_wait :: "nat \<Rightarrow> usize \<Rightarrow> u64 \<Rightarrow> ('a proc_state_scheme, unit) kfn" where
  "ring_wait pid handle user_data =
     k_bind (proc_ring_pa pid) (\<lambda>pa.
     k_bind proc_count (\<lambda>n.
     k_bind (if n \<le> unat handle then k_return True
             else k_bind (proc_parent (unat handle)) (\<lambda>q. k_return (q \<noteq> Some pid))) (\<lambda>bad.
     if bad then complete pa user_data RING_ERR
     else
       k_bind (exit_code (unat handle)) (\<lambda>c.
       case c of
         Some code \<Rightarrow> complete pa user_data code
       | None \<Rightarrow> register_wait (unat handle) user_data))))"

definition op_print :: "nat \<Rightarrow> usize \<Rightarrow> usize \<Rightarrow> usize \<Rightarrow> u64 \<Rightarrow> ('a proc_state_scheme, unit) kfn" where
  "op_print pid pa arg0 arg1 user_data =
     k_bind (is_user_range pid arg0 arg1 False) (\<lambda>ok.
     if \<not> ok then complete pa user_data RING_ERR
     else
       k_bind (read_slice arg0 arg1) (\<lambda>bytes.
       k_bind (k_when (utf8_valid bytes) (uart_write_str bytes)) (\<lambda>_.
       complete pa user_data 0)))"

definition op_read :: "nat \<Rightarrow> usize \<Rightarrow> usize \<Rightarrow> usize \<Rightarrow> u64 \<Rightarrow> ('a proc_state_scheme, unit) kfn" where
  "op_read pid pa arg0 arg1 user_data =
     k_bind (is_user_range pid arg0 arg1 True) (\<lambda>ok.
     if \<not> ok then complete pa user_data RING_ERR
     else if arg1 = 0 then complete pa user_data 0
     else
       k_bind foreground_pid (\<lambda>fg.
       k_bind (if fg = Some pid then drain_input pid arg0 arg1 else k_return 0) (\<lambda>count.
       if 0 < count then complete pa user_data count
       else
         k_bind (park_read pid \<lparr>pe_buf = arg0, pe_len = arg1, pe_user_data = user_data\<rparr>) (\<lambda>parked.
         if parked then k_return () else complete pa user_data RING_ERR))))"

definition process_sqe :: "kernel_image \<Rightarrow> nat \<Rightarrow> usize \<Rightarrow> nat \<Rightarrow> ('a proc_state_scheme, unit) kfn" where
  "process_sqe ki pid ring i =
     k_bind (k_gets (\<lambda>s. load_sqe (mem s) ring i)) (\<lambda>sqe.
     let opcode = sqe_opcode sqe; arg0 = sqe_arg0 sqe; arg1 = sqe_arg1 sqe; user_data = sqe_user_data sqe in
     k_bind (proc_ring_pa pid) (\<lambda>pa.
     if opcode = OP_NOP then complete pa user_data 0
     else if opcode = OP_PRINT then op_print pid pa arg0 arg1 user_data
     else if opcode = OP_READ then op_read pid pa arg0 arg1 user_data
     else if opcode = OP_SPAWN then spawn ki pid arg0 arg1 user_data
     else if opcode = OP_WAIT then ring_wait pid arg0 user_data
     else complete pa user_data RING_ERR))"

text \<open>The loop of \<^verbatim>\<open>drain\<close>: the tail is read once, so it ends.\<close>

lemma unat_ring_step: "head \<noteq> tail \<Longrightarrow> unat (tail - (head + 1)) < unat (tail - head)" for head tail :: u32
proof -
  assume "head \<noteq> tail"
  then have "tail - head \<noteq> 0" by simp
  then have "unat (tail - head - 1) = unat (tail - head) - 1" "0 < unat (tail - head)"
    by (simp_all add: unat_minus_one unat_gt_0)
  then show ?thesis by (simp add: diff_diff_eq)
qed

function drain_loop :: "kernel_image \<Rightarrow> nat \<Rightarrow> usize \<Rightarrow> u32 \<Rightarrow> u32 \<Rightarrow> ('a proc_state_scheme, unit) kfn" where
  "drain_loop ki pid pa tail head =
     (if head \<noteq> tail then
        k_bind (process_sqe ki pid pa (ring_slot head)) (\<lambda>_.
        k_bind (k_modify (\<lambda>s. s\<lparr>mem := set_sq_head pa (head + 1) (mem s)\<rparr>)) (\<lambda>_.
        drain_loop ki pid pa tail (head + 1)))
      else k_return ())"
  by pat_completeness auto
termination
  by (relation "measure (\<lambda>(ki, pid, pa, tail, head). unat (tail - head))") (auto simp: unat_ring_step)

declare drain_loop.simps [simp del]

definition drain :: "kernel_image \<Rightarrow> nat \<Rightarrow> ('a proc_state_scheme, bool) kfn" where
  "drain ki pid = without_irqs (
     k_bind (proc_ring_pa pid) (\<lambda>pa.
     if pa = 0 then k_return False
     else
       k_bind (k_gets (\<lambda>s. rp_sq_head (mem s) pa)) (\<lambda>head.
       k_bind (k_gets (\<lambda>s. rp_sq_tail (mem s) pa)) (\<lambda>tail.
       k_bind (drain_loop ki pid pa tail head) (\<lambda>_.
       k_return (head \<noteq> tail))))))"

section \<open>Entering the kernel\<close>

text \<open>
  \<open>Entered v\<close>: the call returns \<open>v\<close>. \<open>EnterBlocked d pid pa\<close>: the task has been switched
  away from inside the loop; when it runs again it restores the mask \<open>d\<close> and checks again.
\<close>

datatype enter_result = Entered u64 | EnterBlocked u64 nat usize

definition enter_check :: "nat \<Rightarrow> usize \<Rightarrow> u64 \<Rightarrow> ('a proc_state_scheme, enter_result) kfn" where
  "enter_check pid pa min_complete =
     k_bind (k_gets (\<lambda>s. rp_cq_tail (mem s) pa - rp_cq_head (mem s) pa)) (\<lambda>unreaped.
     if min_complete \<le> ucast unreaped then k_return (Entered 0)
     else
       k_bind current_task (\<lambda>cur.
       k_bind (set_waiter pid cur) (\<lambda>_.
       k_bind block_current (\<lambda>d.
       k_return (EnterBlocked d pid pa)))))"

definition enter_resume :: "u64 \<Rightarrow> nat \<Rightarrow> usize \<Rightarrow> u64 \<Rightarrow> ('a proc_state_scheme, enter_result) kfn" where
  "enter_resume d pid pa min_complete = k_bind (irq_restore d) (\<lambda>_. enter_check pid pa min_complete)"

definition enter :: "kernel_image \<Rightarrow> u64 \<Rightarrow> ('a ring_state_scheme, enter_result) kfn" where
  "enter ki min_complete =
     k_bind current_process (\<lambda>po.
     case po of
       None \<Rightarrow> k_return (Entered (- 1))
     | Some pid \<Rightarrow>
         k_bind (proc_ring_pa pid) (\<lambda>pa.
         if pa = 0 then k_return (Entered (- 1))
         else
           k_bind (k_gets (\<lambda>s. rp_flags (mem s) pa)) (\<lambda>flags.
           k_bind (k_when (flags AND NEED_WAKEUP \<noteq> 0)
             (k_bind (k_modify (\<lambda>s. s\<lparr>mem := set_flags pa 0 (mem s)\<rparr>)) (\<lambda>_.
              k_bind (k_gets ring_poller) (\<lambda>poller.
              case poller of None \<Rightarrow> k_return () | Some t \<Rightarrow> wake t)))) (\<lambda>_.
           k_bind (drain ki pid) (\<lambda>_.
           enter_check pid pa min_complete)))))"

section \<open>The poller\<close>

definition has_submissions :: "nat \<Rightarrow> ('a proc_state_scheme, bool) kfn" where
  "has_submissions pid =
     k_bind (proc_ring_pa pid) (\<lambda>pa.
     if pa = 0 then k_return False
     else k_gets (\<lambda>s. rp_sq_head (mem s) pa \<noteq> rp_sq_tail (mem s) pa))"

definition set_all_wakeup :: "bool \<Rightarrow> ('a proc_state_scheme, unit) kfn" where
  "set_all_wakeup on =
     k_bind proc_count (\<lambda>n.
     k_for [0..<n] (\<lambda>pid.
       k_bind (proc_ring_pa pid) (\<lambda>pa.
       k_when (pa \<noteq> 0) (k_modify (\<lambda>s. s\<lparr>mem := set_flags pa (if on then NEED_WAKEUP else 0) (mem s)\<rparr>)))))"

primrec poll_all :: "kernel_image \<Rightarrow> nat list \<Rightarrow> bool \<Rightarrow> ('a proc_state_scheme, bool) kfn" where
  "poll_all ki [] worked = k_return worked"
| "poll_all ki (pid # pids) worked =
     k_bind (has_submissions pid) (\<lambda>b.
     if b then
       k_bind (proc_ttbr0 pid) (\<lambda>ttbr0.
       k_bind (activate ttbr0) (\<lambda>_.
       k_bind (drain ki pid) (\<lambda>_.
       poll_all ki pids True)))
     else poll_all ki pids worked)"

primrec any_submissions :: "nat list \<Rightarrow> ('a proc_state_scheme, bool) kfn" where
  "any_submissions [] = k_return False"
| "any_submissions (pid # pids) = k_bind (has_submissions pid) (\<lambda>b. if b then k_return True else any_submissions pids)"

text \<open>
  \<^verbatim>\<open>sqpoll_main\<close> never returns: it is a state machine whose states are the points where it
  gives up the processor. \<open>Polling announced last_work d\<close> is the yield at the end of the
  loop body, \<open>Sleeping announced d\<close> the block in the middle; \<open>d\<close> is the mask to restore.
\<close>

datatype sqpoll_pc = Polling bool u64 u64 | Sleeping bool u64

definition sqpoll_yield :: "bool \<Rightarrow> u64 \<Rightarrow> ('a proc_state_scheme, sqpoll_pc) kfn" where
  "sqpoll_yield announced last_work = k_bind yield_now (\<lambda>d. k_return (Polling announced last_work d))"

definition sqpoll_body :: "kernel_image \<Rightarrow> bool \<Rightarrow> u64 \<Rightarrow> ('a proc_state_scheme, sqpoll_pc) kfn" where
  "sqpoll_body ki announced last_work =
     k_bind proc_count (\<lambda>n.
     k_bind (poll_all ki [0..<n] False) (\<lambda>worked.
     if worked then
       k_bind (k_when (\<not> announced) (kprintln ''[sqpoll] picked up work'')) (\<lambda>_.
       k_bind (set_all_wakeup False) (\<lambda>_.
       k_bind ticks (\<lambda>now. sqpoll_yield True now)))
     else
       k_bind ticks (\<lambda>now.
       if SQ_IDLE_TICKS \<le> now - last_work then
         k_bind (set_all_wakeup True) (\<lambda>_.
         k_bind proc_count (\<lambda>n'.
         k_bind (any_submissions [0..<n']) (\<lambda>b.
         if b then
           k_bind (set_all_wakeup False) (\<lambda>_.
           k_bind ticks (\<lambda>now'. sqpoll_yield announced now'))
         else k_bind block_current (\<lambda>d. k_return (Sleeping announced d)))))
       else sqpoll_yield announced last_work)))"

fun sqpoll_resume :: "kernel_image \<Rightarrow> sqpoll_pc \<Rightarrow> ('a proc_state_scheme, sqpoll_pc) kfn" where
  "sqpoll_resume ki (Polling announced last_work d) =
     k_bind (irq_restore d) (\<lambda>_. sqpoll_body ki announced last_work)"
| "sqpoll_resume ki (Sleeping announced d) =
     k_bind (irq_restore d) (\<lambda>_.
     k_bind (set_all_wakeup False) (\<lambda>_.
     k_bind ticks (\<lambda>now. sqpoll_yield announced now)))"

definition sqpoll_main :: "kernel_image \<Rightarrow> ('a ring_state_scheme, sqpoll_pc) kfn" where
  "sqpoll_main ki =
     k_bind current_task (\<lambda>cur.
     k_bind (k_modify (\<lambda>s. s\<lparr>ring_poller := Some cur\<rparr>)) (\<lambda>_.
     k_bind ticks (\<lambda>now. sqpoll_body ki False now)))"

section \<open>Events\<close>

definition notify_exit :: "nat \<Rightarrow> i64 \<Rightarrow> ('a proc_state_scheme, unit) kfn" where
  "notify_exit pid code =
     k_bind (on_exit pid code) (\<lambda>r.
     case r of
       None \<Rightarrow> k_return ()
     | Some (parent, tag) \<Rightarrow>
         k_bind (proc_ring_pa parent) (\<lambda>parent_ring.
         k_bind (k_when (parent_ring \<noteq> 0) (complete parent_ring tag code)) (\<lambda>_.
         k_bind (take_waiter parent) (\<lambda>w.
         case w of None \<Rightarrow> k_return () | Some waiter \<Rightarrow> wake waiter))))"

primrec poll_slots :: "nat \<Rightarrow> usize \<Rightarrow> (nat \<times> Pending option) list \<Rightarrow> bool \<Rightarrow> ('a proc_state_scheme, bool) kfn" where
  "poll_slots pid pa [] completed = k_return completed"
| "poll_slots pid pa (x # xs) completed =
     (case snd x of
        None \<Rightarrow> poll_slots pid pa xs completed
      | Some pe \<Rightarrow>
          k_bind (drain_input pid (pe_buf pe) (pe_len pe)) (\<lambda>count.
          if 0 < count then
            k_bind (complete pa (pe_user_data pe) count) (\<lambda>_.
            k_bind (clear_pending pid (fst x)) (\<lambda>_.
            poll_slots pid pa xs True))
          else poll_slots pid pa xs completed))"

definition poll_pending :: "('a proc_state_scheme, unit) kfn" where
  "poll_pending =
     k_bind foreground_pid (\<lambda>fo.
     case fo of
       None \<Rightarrow> k_return ()
     | Some pid \<Rightarrow>
         k_bind (proc_ring_pa pid) (\<lambda>pa.
         if pa = 0 then k_return ()
         else
           k_bind current_ttbr0 (\<lambda>prev.
           k_bind (proc_ttbr0 pid) (\<lambda>fg.
           k_bind (k_when (prev \<noteq> fg) (activate fg)) (\<lambda>_.
           k_bind (pending_snapshot pid) (\<lambda>slots.
           k_bind (poll_slots pid pa (zip [0..<length slots] slots) False) (\<lambda>completed.
           k_bind (k_when (prev \<noteq> fg) (activate prev)) (\<lambda>_.
           k_when completed
             (k_bind (take_waiter pid) (\<lambda>w.
              case w of None \<Rightarrow> k_return () | Some waiter \<Rightarrow> wake waiter))))))))))"

definition abort_user :: "nat \<Rightarrow> ('a proc_state_scheme, unit) kfn" where
  "abort_user pid = without_irqs (clear_ring pid)"

end
