(* ===== verification/Gic.thy ===== *)
theory Gic
  imports Ring
begin

unbundle bit_operations_syntax

text \<open>
  The interrupt controller driver of \<^verbatim>\<open>kernel/src/gic.rs\<close>. The device is its memory-mapped
  registers, the system registers of the CPU interface, the interrupts pending in the order
  the CPU interface will signal them, and those acknowledged and not yet completed.
\<close>

section \<open>Registers\<close>

definition GICD_BASE :: usize where "GICD_BASE = 0x08000000"
definition GICR_BASE :: usize where "GICR_BASE = 0x080A0000"
definition GICR_SGI_BASE :: usize where "GICR_SGI_BASE = GICR_BASE + 0x10000"

definition GICD_CTLR :: usize where "GICD_CTLR = 0x0000"
definition GICD_IGROUPR :: usize where "GICD_IGROUPR = 0x0080"
definition GICD_ISENABLER :: usize where "GICD_ISENABLER = 0x0100"
definition GICD_IPRIORITYR :: usize where "GICD_IPRIORITYR = 0x0400"
definition GICD_IROUTER :: usize where "GICD_IROUTER = 0x6100"

definition GICR_WAKER :: usize where "GICR_WAKER = 0x0014"
definition GICR_IGROUPR0 :: usize where "GICR_IGROUPR0 = 0x0080"
definition GICR_ISENABLER0 :: usize where "GICR_ISENABLER0 = 0x0100"
definition GICR_IPRIORITYR :: usize where "GICR_IPRIORITYR = 0x0400"

definition WAKER_PROCESSOR_SLEEP :: u32 where "WAKER_PROCESSOR_SLEEP = 0x2"
definition WAKER_CHILDREN_ASLEEP :: u32 where "WAKER_CHILDREN_ASLEEP = 0x4"

definition CTLR_ENABLE_GRP0 :: u32 where "CTLR_ENABLE_GRP0 = 0x1"
definition CTLR_ENABLE_GRP1 :: u32 where "CTLR_ENABLE_GRP1 = 0x2"
definition CTLR_ARE :: u32 where "CTLR_ARE = 0x10"

definition SPURIOUS_MIN :: u32 where "SPURIOUS_MIN = 1020"

text \<open>
  \<open>gic_regs\<close> holds the words and \<open>gic_bytes\<close> the bytes of the register frames;
  \<open>gic_waking\<close> is how many more reads of the waker register see \<^verbatim>\<open>ChildrenAsleep\<close>.
\<close>

record gic_state = ring_state +
  gic_regs :: "usize \<Rightarrow> u32"
  gic_bytes :: "usize \<Rightarrow> u8"
  gic_routers :: "usize \<Rightarrow> u64"
  gic_waking :: nat
  icc_sre :: u64
  icc_pmr :: u64
  icc_igrpen1 :: u64
  gic_pending :: "u32 list"
  gic_active :: "u32 list"

text \<open>A write to a set-enable register sets bits and clears none.\<close>

definition set_enable_reg :: "usize \<Rightarrow> bool" where
  "set_enable_reg a \<longleftrightarrow> GICD_BASE + GICD_ISENABLER \<le> a \<and> a < GICD_BASE + GICD_ISENABLER + 0x80 \<or>
     a = GICR_SGI_BASE + GICR_ISENABLER0"

definition w32 :: "usize \<Rightarrow> usize \<Rightarrow> u32 \<Rightarrow> ('a gic_state_scheme, unit) kfn" where
  "w32 base off val = k_bind (k_add base off) (\<lambda>a. k_modify (\<lambda>s. s\<lparr>gic_regs :=
     (gic_regs s)(a := (if set_enable_reg a then gic_regs s a OR val else val))\<rparr>))"

text \<open>
  Reading the waker register: \<^verbatim>\<open>ChildrenAsleep\<close> is set until the redistributor is awake, and
  each read brings that closer once \<^verbatim>\<open>ProcessorSleep\<close> is clear.
\<close>

definition waker_value :: "'a gic_state_scheme \<Rightarrow> u32" where
  "waker_value s = (let r = gic_regs s (GICR_BASE + GICR_WAKER) AND NOT WAKER_CHILDREN_ASLEEP in
     if 0 < gic_waking s then r OR WAKER_CHILDREN_ASLEEP else r)"

definition r32 :: "usize \<Rightarrow> usize \<Rightarrow> ('a gic_state_scheme, u32) kfn" where
  "r32 base off =
     k_bind (k_add base off) (\<lambda>a.
     if a = GICR_BASE + GICR_WAKER then
       k_bind (k_gets waker_value) (\<lambda>v.
       k_bind (k_modify (\<lambda>s. if v AND WAKER_PROCESSOR_SLEEP = 0 then s\<lparr>gic_waking := gic_waking s - 1\<rparr> else s)) (\<lambda>_.
       k_return v))
     else k_gets (\<lambda>s. gic_regs s a))"

section \<open>Operations\<close>

text \<open>The wait for the redistributor, with the reads it needs as fuel.\<close>

primrec spin_waker :: "nat \<Rightarrow> ('a gic_state_scheme, unit option) kfn" where
  "spin_waker 0 = k_return None"
| "spin_waker (Suc n) =
     k_bind (r32 GICR_BASE GICR_WAKER) (\<lambda>v.
     if v AND WAKER_CHILDREN_ASLEEP \<noteq> 0 then spin_waker n else k_return (Some ()))"

text \<open>\<^verbatim>\<open>1u32 << n\<close>: a shift by 32 or more is the overflow panic of the dev profile.\<close>

definition k_bit :: "u32 \<Rightarrow> ('a gic_state_scheme, u32) kfn" where
  "k_bit n = (if n < 32 then k_return (push_bit (unat n) 1) else k_panic ArithmeticOverflow)"

definition write_gic_byte :: "usize \<Rightarrow> u8 \<Rightarrow> ('a gic_state_scheme, unit) kfn" where
  "write_gic_byte a v = k_modify (\<lambda>s. s\<lparr>gic_bytes := (gic_bytes s)(a := v)\<rparr>)"

definition gic_init :: "u32 \<Rightarrow> ('a gic_state_scheme, unit) kfn" where
  "gic_init ppi_intid =
     k_bind (k_modify (\<lambda>s. s\<lparr>icc_sre := icc_sre s OR 1\<rparr>)) (\<lambda>_.
     k_bind (w32 GICD_BASE GICD_CTLR (CTLR_ARE OR CTLR_ENABLE_GRP1 OR CTLR_ENABLE_GRP0)) (\<lambda>_.
     k_bind (r32 GICR_BASE GICR_WAKER) (\<lambda>w.
     k_bind (w32 GICR_BASE GICR_WAKER (w AND NOT WAKER_PROCESSOR_SLEEP)) (\<lambda>_.
     k_bind (k_gets (\<lambda>s. Suc (gic_waking s))) (\<lambda>fuel.
     k_bind (spin_waker fuel) (\<lambda>r.
     k_bind (k_expect ''redistributor stuck'' r) (\<lambda>_.
     k_bind (k_bit ppi_intid) (\<lambda>bit.
     k_bind (r32 GICR_SGI_BASE GICR_IGROUPR0) (\<lambda>g.
     k_bind (w32 GICR_SGI_BASE GICR_IGROUPR0 (g OR bit)) (\<lambda>_.
     k_bind (write_gic_byte (GICR_SGI_BASE + GICR_IPRIORITYR + ucast ppi_intid) 0) (\<lambda>_.
     k_bind (w32 GICR_SGI_BASE GICR_ISENABLER0 bit) (\<lambda>_.
     k_modify (\<lambda>s. s\<lparr>icc_pmr := 0xFF, icc_igrpen1 := 1\<rparr>)))))))))))))"

definition enable_spi :: "u32 \<Rightarrow> ('a gic_state_scheme, unit) kfn" where
  "enable_spi intid =
     k_bind (k_assert (32 \<le> intid) ''not an SPI'') (\<lambda>_.
     let reg = ucast (intid div 32) * 4 in
     k_bind (k_bit (intid mod 32)) (\<lambda>bit.
     k_bind (r32 GICD_BASE (GICD_IGROUPR + reg)) (\<lambda>g.
     k_bind (w32 GICD_BASE (GICD_IGROUPR + reg) (g OR bit)) (\<lambda>_.
     k_bind (write_gic_byte (GICD_BASE + GICD_IPRIORITYR + ucast intid) 0) (\<lambda>_.
     k_bind (k_modify (\<lambda>s. s\<lparr>gic_routers :=
       (gic_routers s)(GICD_BASE + GICD_IROUTER + (ucast intid - 32) * 8 := 0)\<rparr>)) (\<lambda>_.
     w32 GICD_BASE (GICD_ISENABLER + reg) bit))))))"

text \<open>
  A read of \<^verbatim>\<open>ICC_IAR1_EL1\<close> takes the first pending interrupt and makes it active; with none
  pending it returns the spurious INTID 1023. A write of \<^verbatim>\<open>ICC_EOIR1_EL1\<close> ends an active one.
\<close>

definition acknowledge :: "('a gic_state_scheme, u32) kfn" where
  "acknowledge =
     k_bind (k_gets gic_pending) (\<lambda>p.
     case p of
       [] \<Rightarrow> k_return 1023
     | i # is \<Rightarrow> k_bind (k_modify (\<lambda>s. s\<lparr>gic_pending := is, gic_active := i # gic_active s\<rparr>)) (\<lambda>_. k_return i))"

definition is_spurious :: "u32 \<Rightarrow> bool" where
  "is_spurious intid \<longleftrightarrow> SPURIOUS_MIN \<le> intid"

definition eoi :: "u32 \<Rightarrow> ('a gic_state_scheme, unit) kfn" where
  "eoi intid = k_modify (\<lambda>s. s\<lparr>gic_active := remove1 intid (gic_active s)\<rparr>)"

section \<open>Bring-up\<close>

text \<open>
  When the controller signals an interrupt to this core: the distributor routes group 1 with
  affinity routing, the CPU interface takes group 1 through its system registers at the
  priority of the interrupt, the core is awake for it, and the interrupt is in group 1,
  enabled, and (a shared one) routed to core 0.
\<close>

definition cpu_interface_on :: "'a gic_state_scheme \<Rightarrow> bool" where
  "cpu_interface_on s \<longleftrightarrow> icc_sre s AND 1 \<noteq> 0 \<and> icc_igrpen1 s AND 1 \<noteq> 0 \<and>
     gic_regs s (GICD_BASE + GICD_CTLR) AND (CTLR_ARE OR CTLR_ENABLE_GRP1) = CTLR_ARE OR CTLR_ENABLE_GRP1 \<and>
     waker_value s AND (WAKER_PROCESSOR_SLEEP OR WAKER_CHILDREN_ASLEEP) = 0"

definition ppi_delivered :: "'a gic_state_scheme \<Rightarrow> nat \<Rightarrow> bool" where
  "ppi_delivered s n \<longleftrightarrow> cpu_interface_on s \<and>
     bit (gic_regs s (GICR_SGI_BASE + GICR_IGROUPR0)) n \<and> bit (gic_regs s (GICR_SGI_BASE + GICR_ISENABLER0)) n \<and>
     ucast (gic_bytes s (GICR_SGI_BASE + GICR_IPRIORITYR + of_nat n)) < icc_pmr s"

definition spi_delivered :: "'a gic_state_scheme \<Rightarrow> nat \<Rightarrow> bool" where
  "spi_delivered s n \<longleftrightarrow> cpu_interface_on s \<and>
     bit (gic_regs s (GICD_BASE + GICD_IGROUPR + of_nat (n div 32) * 4)) (n mod 32) \<and>
     bit (gic_regs s (GICD_BASE + GICD_ISENABLER + of_nat (n div 32) * 4)) (n mod 32) \<and>
     ucast (gic_bytes s (GICD_BASE + GICD_IPRIORITYR + of_nat n)) < icc_pmr s \<and>
     gic_routers s (GICD_BASE + GICD_IROUTER + of_nat (n - 32) * 8) = 0"

lemmas gic_consts = GICD_BASE_def GICR_BASE_def GICR_SGI_BASE_def GICR_WAKER_def GICR_IGROUPR0_def GICR_ISENABLER0_def
  GICR_IPRIORITYR_def GICD_CTLR_def GICD_IGROUPR_def GICD_ISENABLER_def GICD_IPRIORITYR_def GICD_IROUTER_def

lemmas gic_bits = WAKER_PROCESSOR_SLEEP_def WAKER_CHILDREN_ASLEEP_def CTLR_ARE_def CTLR_ENABLE_GRP0_def CTLR_ENABLE_GRP1_def

text \<open>A word offset inside the controller's frames.\<close>

lemma w32_run: "unat base + unat off < 2 ^ 64 \<Longrightarrow> w32 base off v s = Inr ((), s\<lparr>gic_regs :=
    (gic_regs s)(base + off := (if set_enable_reg (base + off) then gic_regs s (base + off) OR v else v))\<rparr>)"
  by (simp add: w32_def run_simps)

lemma r32_run: "unat base + unat off < 2 ^ 64 \<Longrightarrow> base + off \<noteq> GICR_BASE + GICR_WAKER \<Longrightarrow>
    r32 base off s = Inr (gic_regs s (base + off), s)"
  by (simp add: r32_def run_simps)

lemma waker_run: "r32 GICR_BASE GICR_WAKER s = Inr (waker_value s,
    if waker_value s AND WAKER_PROCESSOR_SLEEP = 0 then s\<lparr>gic_waking := gic_waking s - 1\<rparr> else s)"
  by (simp add: r32_def run_simps gic_consts)

lemma flag_and:
  fixes x a b :: "'w::len word"
  shows "a AND b = 0 \<Longrightarrow> (x AND NOT a) AND b = x AND b" "a AND b = 0 \<Longrightarrow> ((x AND NOT a) OR a) AND b = x AND b"
    "(x AND NOT a) AND a = 0" "((x AND NOT a) OR a) AND a = a"
  by (auto simp: bit_eq_iff bit_and_iff bit_or_iff bit_not_iff)

lemma waker_value_bits:
  "waker_value s AND WAKER_PROCESSOR_SLEEP = gic_regs s (GICR_BASE + GICR_WAKER) AND WAKER_PROCESSOR_SLEEP"
  "waker_value s AND WAKER_CHILDREN_ASLEEP = (if 0 < gic_waking s then WAKER_CHILDREN_ASLEEP else 0)"
proof -
  have "WAKER_CHILDREN_ASLEEP AND WAKER_PROCESSOR_SLEEP = 0" by (simp add: gic_bits)
  note f = flag_and(1,2)[OF this] flag_and(3,4)[of _ WAKER_CHILDREN_ASLEEP]
  show "waker_value s AND WAKER_PROCESSOR_SLEEP = gic_regs s (GICR_BASE + GICR_WAKER) AND WAKER_PROCESSOR_SLEEP"
    "waker_value s AND WAKER_CHILDREN_ASLEEP = (if 0 < gic_waking s then WAKER_CHILDREN_ASLEEP else 0)"
    by (simp_all only: waker_value_def Let_def if_distrib[of "\<lambda>x. x AND _"] f if_cancel)
qed

lemma spin_waker_run:
  assumes "gic_regs s (GICR_BASE + GICR_WAKER) AND WAKER_PROCESSOR_SLEEP = 0" "gic_waking s \<le> n"
  shows "spin_waker (Suc n) s = Inr (Some (), s\<lparr>gic_waking := 0\<rparr>)"
  using assms
proof (induction n arbitrary: s)
  case 0
  then show ?case by (simp add: run_simps waker_run waker_value_bits)
next
  case (Suc n)
  have "WAKER_CHILDREN_ASLEEP \<noteq> 0" by (simp add: gic_bits)
  then show ?case
    using Suc.prems Suc.IH[of "s\<lparr>gic_waking := gic_waking s - 1\<rparr>"]
    by (subst spin_waker.simps(2)) (auto simp: run_simps waker_run waker_value_bits simp del: spin_waker.simps)
qed


definition gic_inited :: "nat \<Rightarrow> 'a gic_state_scheme \<Rightarrow> 'a gic_state_scheme" where
  "gic_inited n s = s\<lparr>icc_sre := icc_sre s OR 1, gic_waking := 0,
     gic_regs := (gic_regs s)(GICD_BASE + GICD_CTLR := CTLR_ARE OR CTLR_ENABLE_GRP1 OR CTLR_ENABLE_GRP0,
       GICR_BASE + GICR_WAKER := waker_value s AND NOT WAKER_PROCESSOR_SLEEP,
       GICR_SGI_BASE + GICR_IGROUPR0 := gic_regs s (GICR_SGI_BASE + GICR_IGROUPR0) OR push_bit n 1,
       GICR_SGI_BASE + GICR_ISENABLER0 := gic_regs s (GICR_SGI_BASE + GICR_ISENABLER0) OR push_bit n 1),
     gic_bytes := (gic_bytes s)(GICR_SGI_BASE + GICR_IPRIORITYR + of_nat n := 0),
     icc_pmr := 0xFF, icc_igrpen1 := 1\<rparr>"

lemma gic_addresses:
  "unat GICD_BASE + unat GICD_CTLR < 2 ^ 64" "unat GICR_BASE + unat GICR_WAKER < 2 ^ 64"
  "unat GICR_SGI_BASE + unat GICR_IGROUPR0 < 2 ^ 64" "unat GICR_SGI_BASE + unat GICR_ISENABLER0 < 2 ^ 64"
  "GICR_SGI_BASE + GICR_IGROUPR0 \<noteq> GICR_BASE + GICR_WAKER" "GICR_SGI_BASE + GICR_IGROUPR0 \<noteq> GICD_BASE + GICD_CTLR"
  "GICR_SGI_BASE + GICR_ISENABLER0 \<noteq> GICR_SGI_BASE + GICR_IGROUPR0" "GICR_SGI_BASE + GICR_ISENABLER0 \<noteq> GICR_BASE + GICR_WAKER"
  "GICR_SGI_BASE + GICR_ISENABLER0 \<noteq> GICD_BASE + GICD_CTLR" "GICR_BASE + GICR_WAKER \<noteq> GICD_BASE + GICD_CTLR"
  "\<not> set_enable_reg (GICD_BASE + GICD_CTLR)" "\<not> set_enable_reg (GICR_BASE + GICR_WAKER)"
  "\<not> set_enable_reg (GICR_SGI_BASE + GICR_IGROUPR0)" "set_enable_reg (GICR_SGI_BASE + GICR_ISENABLER0)"
  by (simp_all add: gic_consts set_enable_reg_def)

lemma gic_words: "w32 GICD_BASE GICD_CTLR v s = Inr ((), s\<lparr>gic_regs := (gic_regs s)(GICD_BASE + GICD_CTLR := v)\<rparr>)"
  "w32 GICR_BASE GICR_WAKER v s = Inr ((), s\<lparr>gic_regs := (gic_regs s)(GICR_BASE + GICR_WAKER := v)\<rparr>)"
  "w32 GICR_SGI_BASE GICR_IGROUPR0 v s = Inr ((), s\<lparr>gic_regs := (gic_regs s)(GICR_SGI_BASE + GICR_IGROUPR0 := v)\<rparr>)"
  "w32 GICR_SGI_BASE GICR_ISENABLER0 v s = Inr ((), s\<lparr>gic_regs := (gic_regs s)(GICR_SGI_BASE + GICR_ISENABLER0 :=
     gic_regs s (GICR_SGI_BASE + GICR_ISENABLER0) OR v)\<rparr>)"
  "r32 GICR_SGI_BASE GICR_IGROUPR0 s = Inr (gic_regs s (GICR_SGI_BASE + GICR_IGROUPR0), s)"
  by (simp_all only: w32_run r32_run gic_addresses if_True if_False not_False_eq_True)

lemma gic_init_run:
  assumes "n < 32"
  shows "gic_init n s = Inr ((), gic_inited (unat n) s)"
proof -
  have w: "waker_value (s\<lparr>icc_sre := a, gic_regs := (gic_regs s)(GICD_BASE + GICD_CTLR := v)\<rparr>) = waker_value s" for a v
    by (simp add: waker_value_def gic_addresses)
  show ?thesis using assms
    by (simp add: gic_init_def run_simps gic_words waker_run gic_addresses gic_addresses(5-10)[symmetric] w spin_waker_run flag_and(3)
        k_bit_def write_gic_byte_def gic_inited_def del: spin_waker.simps)
qed

definition spi_enabled :: "'a gic_state_scheme \<Rightarrow> 'a gic_state_scheme" where
  "spi_enabled s = s\<lparr>gic_regs := (gic_regs s)(GICD_BASE + (GICD_IGROUPR + 4) := gic_regs s (GICD_BASE + (GICD_IGROUPR + 4)) OR 2,
       GICD_BASE + (GICD_ISENABLER + 4) := gic_regs s (GICD_BASE + (GICD_ISENABLER + 4)) OR 2),
     gic_bytes := (gic_bytes s)(GICD_BASE + GICD_IPRIORITYR + 33 := 0),
     gic_routers := (gic_routers s)(GICD_BASE + GICD_IROUTER + 8 := 0)\<rparr>"

lemma enable_spi_run: "enable_spi UART_INTID s = Inr ((), spi_enabled s)"
  by (simp add: enable_spi_def UART_INTID_def run_simps w32_run r32_run k_bit_def write_gic_byte_def spi_enabled_def gic_consts
      set_enable_reg_def)

text \<open>
  C0. The interrupt bring-up of \<^verbatim>\<open>kmain\<close> works from any state of the controller: it ends,
  however long the redistributor takes to wake, and afterwards both the timer's private
  interrupt and the UART's shared interrupt are signalled to this core.
\<close>

lemma gic_inited_delivers:
  fixes s :: "'a gic_state_scheme"
  defines "t \<equiv> spi_enabled (gic_inited (unat TIMER_INTID) s)"
  shows "ppi_delivered t (unat TIMER_INTID)" "spi_delivered t (unat UART_INTID)"
proof -
  have wk: "waker_value t = (waker_value s AND NOT WAKER_PROCESSOR_SLEEP) AND NOT WAKER_CHILDREN_ASLEEP"
    by (simp add: waker_value_def t_def spi_enabled_def gic_inited_def gic_consts)
  have "((x AND NOT a) AND NOT b) AND (a OR b) = 0" for x a b :: u32
    by (auto simp: bit_eq_iff bit_and_iff bit_or_iff bit_not_iff)
  moreover have "(y OR 1) AND 1 = 1" for y :: u64 by (auto simp: bit_eq_iff bit_and_iff bit_or_iff)
  ultimately have cpu: "cpu_interface_on t" unfolding cpu_interface_on_def wk
    by (simp add: t_def spi_enabled_def gic_inited_def gic_consts gic_bits(3-))
  show "ppi_delivered t (unat TIMER_INTID)"
    using cpu by (simp add: ppi_delivered_def t_def spi_enabled_def gic_inited_def gic_consts TIMER_INTID_def bit_or_iff bit_push_bit_iff)
  show "spi_delivered t (unat UART_INTID)"
    using cpu by (simp add: spi_delivered_def t_def spi_enabled_def gic_inited_def gic_consts UART_INTID_def bit_or_iff)
qed

text \<open>
  C36. The interrupt bring-up of kmain works from any state of the controller: it ends, however
  long the redistributor takes to wake, and afterwards the private interrupt of the timer and
  the shared interrupt of the UART are both signalled to this core.
\<close>

theorem gic_bringup_delivers:
  "\<exists>s'. k_bind (gic_init TIMER_INTID) (\<lambda>_. enable_spi UART_INTID) s = Inr ((), s') \<and>
     ppi_delivered s' (unat TIMER_INTID) \<and> spi_delivered s' (unat UART_INTID)"
proof -
  have "k_bind (gic_init TIMER_INTID) (\<lambda>_. enable_spi UART_INTID) s = Inr ((), spi_enabled (gic_inited (unat TIMER_INTID) s))"
    by (simp add: run_simps gic_init_run enable_spi_run TIMER_INTID_def)
  then show ?thesis using gic_inited_delivers[of s] by blast
qed

end
