(* ===== verification/User_Mode.thy ===== *)
theory User_Mode
  imports Ring
begin

unbundle bit_operations_syntax

text \<open>
  The end of a process, \<^verbatim>\<open>teardown\<close> of \<^verbatim>\<open>kernel/src/user.rs\<close>: its reads are dropped, its
  parent is told, and its pages and page tables go back to the pool.
\<close>

section \<open>Operations\<close>

text \<open>The loop \<^verbatim>\<open>for (va, frame) in owned\<close>.\<close>

definition free_owned :: "(usize \<times> usize) list \<Rightarrow> ('a proc_state_scheme, unit) kfn" where
  "free_owned owned = k_for owned (\<lambda>(va, frame). k_bind (unmap_page va) (\<lambda>_. free_frame frame))"

definition teardown :: "i64 \<Rightarrow> ('a proc_state_scheme, unit) kfn" where
  "teardown code =
     k_bind current_process (\<lambda>po.
     k_bind (k_expect ''teardown without a process'' po) (\<lambda>pid.
     k_bind (abort_user pid) (\<lambda>_.
     k_bind (notify_exit pid code) (\<lambda>_.
     k_bind (proc_ttbr0 pid) (\<lambda>dead_ttbr0.
     k_bind (take_frames pid) (\<lambda>owned.
     k_bind (free_owned owned) (\<lambda>_.
     k_bind kernel_ttbr0 (\<lambda>kt.
     k_bind (activate kt) (\<lambda>_.
     k_bind (free_address_space dead_ttbr0) (\<lambda>_.
     k_bind (mark_exited pid) (\<lambda>_.
     uart_write_str (ascii ''[user] freed '' @ fmt_dec (length owned) @ ascii '' frames'' @ [0x0A]))))))))))))"

end
