(* ===== verification/Trap.thy ===== *)
theory Trap
  imports Gic User_Mode
begin

unbundle bit_operations_syntax

text \<open>
  Exceptions: the vectors and the trap frame of \<^verbatim>\<open>kernel/src/exceptions.s\<close>, the dispatch of
  \<^verbatim>\<open>kernel/src/exceptions.rs\<close>, the system calls of \<^verbatim>\<open>kernel/src/syscall.rs\<close> and the way into
  EL0 of \<^verbatim>\<open>kernel/src/user.rs\<close>. The trap frame lies on the kernel stack of the task; the
  stack pointer moves only in the assembly, the frames of compiled code are not modelled.
\<close>

section \<open>The processor\<close>

record trap_state = gic_state +
  vbar_el1 :: u64
  elr_el1 :: u64
  spsr_el1 :: u64
  sp_el0 :: u64
  esr_el1 :: u64
  far_el1 :: u64
  pc :: u64
  nzcv :: u64
  in_el0 :: bool

text \<open>
  Taking an exception: the return address and the processor state (flags, interrupt masks,
  exception level) are saved, every interrupt is masked and the vector is entered at EL1.
\<close>

definition pstate :: "'a trap_state_scheme \<Rightarrow> u64" where
  "pstate s = (nzcv s AND 0xF0000000) OR (daif s AND 0x3C0) OR (if in_el0 s then 0 else 5)"

definition take_exception :: "nat \<Rightarrow> ('a trap_state_scheme, unit) kfn" where
  "take_exception kind = k_modify (\<lambda>s. s\<lparr>elr_el1 := pc s, spsr_el1 := pstate s, daif := 0x3C0, in_el0 := False,
     pc := vbar_el1 s + 0x80 * of_nat kind\<rparr>)"

definition eret :: "('a trap_state_scheme, unit) kfn" where
  "eret = k_modify (\<lambda>s. s\<lparr>pc := elr_el1 s, nzcv := spsr_el1 s AND 0xF0000000, daif := spsr_el1 s AND 0x3C0,
     in_el0 := (spsr_el1 s AND 0xF = 0)\<rparr>)"

section \<open>The trap frame\<close>

text \<open>\<^verbatim>\<open>stp xa, xb, [sp, #off]\<close> and \<^verbatim>\<open>ldp xa, xb, [sp, #off]\<close>.\<close>

definition stp_at :: "nat \<times> nat \<times> usize \<Rightarrow> ('a sched_state_scheme, unit) kfn" where
  "stp_at = (\<lambda>(a, b, off). k_modify (\<lambda>s. s\<lparr>kstack := (kstack s)(sp s + off := xreg s a, sp s + off + 8 := xreg s b)\<rparr>))"

definition ldp_at :: "nat \<times> nat \<times> usize \<Rightarrow> ('a sched_state_scheme, unit) kfn" where
  "ldp_at = (\<lambda>(a, b, off). k_modify (\<lambda>s. s\<lparr>xreg := (xreg s)(a := kstack s (sp s + off), b := kstack s (sp s + off + 8))\<rparr>))"

definition set_xreg :: "nat \<Rightarrow> ('a trap_state_scheme \<Rightarrow> u64) \<Rightarrow> ('a trap_state_scheme, unit) kfn" where
  "set_xreg r f = k_modify (\<lambda>s. s\<lparr>xreg := (xreg s)(r := f s)\<rparr>)"

definition frame_pairs :: "(nat \<times> nat \<times> usize) list" where
  "frame_pairs = [(2, 3, 16), (4, 5, 32), (6, 7, 48), (8, 9, 64), (10, 11, 80), (12, 13, 96), (14, 15, 112),
     (16, 17, 128), (18, 19, 144), (20, 21, 160), (22, 23, 176), (24, 25, 192), (26, 27, 208), (28, 29, 224)]"

definition ventry :: "nat \<Rightarrow> ('a trap_state_scheme, unit) kfn" where
  "ventry index =
     k_bind (k_modify (\<lambda>s. s\<lparr>sp := sp s - 272\<rparr>)) (\<lambda>_.
     k_bind (stp_at (0, 1, 0)) (\<lambda>_.
     set_xreg 0 (\<lambda>s. of_nat index)))"

definition common_save :: "('a trap_state_scheme, unit) kfn" where
  "common_save =
     k_bind (k_for frame_pairs stp_at) (\<lambda>_.
     k_bind (k_modify (\<lambda>s. s\<lparr>kstack := (kstack s)(sp s + 240 := xreg s 30)\<rparr>)) (\<lambda>_.
     k_bind (set_xreg 1 elr_el1) (\<lambda>_.
     k_bind (set_xreg 2 spsr_el1) (\<lambda>_.
     k_bind (stp_at (1, 2, 248)) (\<lambda>_.
     k_bind (set_xreg 3 sp_el0) (\<lambda>_.
     k_bind (k_modify (\<lambda>s. s\<lparr>kstack := (kstack s)(sp s + 264 := xreg s 3)\<rparr>)) (\<lambda>_.
     set_xreg 1 sp)))))))"

definition common_restore :: "('a trap_state_scheme, unit) kfn" where
  "common_restore =
     k_bind (ldp_at (1, 2, 248)) (\<lambda>_.
     k_bind (k_modify (\<lambda>s. s\<lparr>elr_el1 := xreg s 1\<rparr>)) (\<lambda>_.
     k_bind (k_modify (\<lambda>s. s\<lparr>spsr_el1 := xreg s 2\<rparr>)) (\<lambda>_.
     k_bind (set_xreg 3 (\<lambda>s. kstack s (sp s + 264))) (\<lambda>_.
     k_bind (k_modify (\<lambda>s. s\<lparr>sp_el0 := xreg s 3\<rparr>)) (\<lambda>_.
     k_bind (ldp_at (0, 1, 0)) (\<lambda>_.
     k_bind (k_for frame_pairs ldp_at) (\<lambda>_.
     k_bind (set_xreg 30 (\<lambda>s. kstack s (sp s + 240))) (\<lambda>_.
     k_bind (k_modify (\<lambda>s. s\<lparr>sp := sp s + 272\<rparr>)) (\<lambda>_.
     eret)))))))))"

text \<open>The fields of the \<^verbatim>\<open>TrapFrame\<close> at an address: \<^verbatim>\<open>x\<close>, \<^verbatim>\<open>elr\<close>, \<^verbatim>\<open>spsr\<close> and \<^verbatim>\<open>sp_el0\<close>.\<close>

definition tf_x :: "memory \<Rightarrow> usize \<Rightarrow> nat \<Rightarrow> u64" where "tf_x m frame i = m (frame + 8 * of_nat i)"
definition tf_elr :: "memory \<Rightarrow> usize \<Rightarrow> u64" where "tf_elr m frame = m (frame + 248)"
definition tf_spsr :: "memory \<Rightarrow> usize \<Rightarrow> u64" where "tf_spsr m frame = m (frame + 256)"
definition tf_sp_el0 :: "memory \<Rightarrow> usize \<Rightarrow> u64" where "tf_sp_el0 m frame = m (frame + 264)"

section \<open>System calls\<close>

text \<open>How \<^verbatim>\<open>{:#0wx}\<close> prints a number (\<open>w = 0\<close>: unpadded).\<close>

definition hex_digit :: "nat \<Rightarrow> u8" where
  "hex_digit d = (if d < 10 then 0x30 + of_nat d else 0x57 + of_nat d)"

fun fmt_hex_digits :: "nat \<Rightarrow> u8 list" where
  "fmt_hex_digits n = (if n < 16 then [hex_digit n] else fmt_hex_digits (n div 16) @ [hex_digit (n mod 16)])"

declare fmt_hex_digits.simps [simp del]

definition fmt_hex :: "nat \<Rightarrow> u64 \<Rightarrow> u8 list" where
  "fmt_hex w n = (let ds = fmt_hex_digits (unat n) in ascii ''0x'' @ replicate (w - 2 - length ds) 0x30 @ ds)"

definition println_bytes :: "u8 list \<Rightarrow> ('a console_state_scheme, unit) kfn" where
  "println_bytes bs = uart_write_str (bs @ [0x0A])"

text \<open>
  How a handler ends. \<open>Returns\<close>: it returns to the stub, which restores the frame of the
  task that is then running. \<open>BlockedIn d pid pa n\<close>: the task was switched away from
  inside \<^verbatim>\<open>ring::enter\<close>. \<open>Gone\<close>: the task has been retired. \<open>Halted\<close>: the kernel waits for
  ever.
\<close>

datatype trap_end = Returns | BlockedIn u64 nat usize u64 | Gone | Halted

definition set_frame_x0 :: "usize \<Rightarrow> u64 \<Rightarrow> ('a sched_state_scheme, trap_end) kfn" where
  "set_frame_x0 frame ret = k_bind (k_modify (\<lambda>s. s\<lparr>kstack := (kstack s)(frame := ret)\<rparr>)) (\<lambda>_. k_return Returns)"

definition finish_enter :: "usize \<Rightarrow> u64 \<Rightarrow> enter_result \<Rightarrow> ('a sched_state_scheme, trap_end) kfn" where
  "finish_enter frame n r = (case r of
     Entered v \<Rightarrow> set_frame_x0 frame v
   | EnterBlocked d pid pa \<Rightarrow> k_return (BlockedIn d pid pa n))"

definition dispatch :: "kernel_image \<Rightarrow> usize \<Rightarrow> ('a ring_state_scheme, trap_end) kfn" where
  "dispatch ki frame =
     k_bind (k_gets (\<lambda>s. tf_x (kstack s) frame)) (\<lambda>x.
     if x 8 = SYS_ADD then set_frame_x0 frame (x 0 + x 1)
     else if x 8 = SYS_RING_SETUP then k_bind ring_setup (set_frame_x0 frame)
     else if x 8 = SYS_RING_ENTER then k_bind (enter ki (x 0)) (finish_enter frame (x 0))
     else if x 8 = SYS_EXIT then
       k_bind (println_bytes (ascii ''[user] exited with code '' @ fmt_i64 (x 0))) (\<lambda>_.
       k_bind (teardown (x 0)) (\<lambda>_.
       k_bind exit_current (\<lambda>_.
       k_return Gone)))
     else
       k_bind (println_bytes (ascii ''unknown syscall '' @ fmt_dec (unat (x 8)))) (\<lambda>_.
       set_frame_x0 frame (- 1)))"

text \<open>A task blocked in \<^verbatim>\<open>ring::enter\<close> runs again: back into its loop, then out of \<^verbatim>\<open>dispatch\<close>.\<close>

definition dispatch_resume :: "usize \<Rightarrow> u64 \<Rightarrow> nat \<Rightarrow> usize \<Rightarrow> u64 \<Rightarrow> ('a ring_state_scheme, trap_end) kfn" where
  "dispatch_resume frame d pid pa n = k_bind (enter_resume d pid pa n) (finish_enter frame n)"

section \<open>Dispatch\<close>

definition EC_SVC :: u64 where "EC_SVC = 0x15"

definition init_exceptions :: "u64 \<Rightarrow> ('a trap_state_scheme, unit) kfn" where
  "init_exceptions exception_vector_table = k_modify (\<lambda>s. s\<lparr>vbar_el1 := exception_vector_table\<rparr>)"

definition esr_ec :: "u64 \<Rightarrow> u64" where
  "esr_ec esr = drop_bit 26 esr AND 0x3F"

definition ec_name :: "u64 \<Rightarrow> string" where
  "ec_name ec =
     (if ec = 0x00 then ''unknown''
      else if ec = 0x07 then ''SIMD/FP access trapped''
      else if ec = 0x15 then ''SVC (AArch64 syscall)''
      else if ec = 0x20 then ''instruction abort (lower EL)''
      else if ec = 0x21 then ''instruction abort (same EL)''
      else if ec = 0x24 then ''data abort (lower EL)''
      else if ec = 0x25 then ''data abort (same EL)''
      else if ec = 0x3C then ''BRK (AArch64 breakpoint)''
      else ''other'')"

definition vector_name :: "nat \<Rightarrow> string" where
  "vector_name kind =
     (if kind \<le> 3 then ''current EL, SP0''
      else if kind \<le> 7 then ''current EL, SPx''
      else if kind \<le> 11 then ''lower EL, AArch64''
      else ''lower EL, AArch32'')"

definition kill_user :: "u64 \<Rightarrow> usize \<Rightarrow> ('a trap_state_scheme, trap_end) kfn" where
  "kill_user esr frame =
     k_bind (k_gets far_el1) (\<lambda>far.
     k_bind (k_gets (\<lambda>s. tf_elr (kstack s) frame)) (\<lambda>elr.
     k_bind (println_bytes (ascii ''[user] killed: '' @ ascii (ec_name (esr_ec esr)) @ ascii '' (EC '' @
       fmt_hex 4 (esr_ec esr) @ ascii ''), ELR='' @ fmt_hex 0 elr @ ascii '', FAR='' @ fmt_hex 0 far)) (\<lambda>_.
     k_bind (teardown (- 1)) (\<lambda>_.
     k_bind exit_current (\<lambda>_.
     k_return Gone)))))"

definition handle_irq :: "('a gic_state_scheme, unit) kfn" where
  "handle_irq =
     k_bind acknowledge (\<lambda>intid.
     if is_spurious intid then k_return ()
     else if intid = TIMER_INTID then
       k_bind on_tick (\<lambda>_.
       k_bind (eoi intid) (\<lambda>_.
       sched_tick))
     else
       k_bind (k_when (intid = UART_INTID) (k_bind drain_uart (\<lambda>_. poll_pending))) (\<lambda>_.
       eoi intid))"

definition report_and_halt :: "nat \<Rightarrow> u64 \<Rightarrow> usize \<Rightarrow> ('a trap_state_scheme, trap_end) kfn" where
  "report_and_halt kind esr frame =
     k_bind (k_gets far_el1) (\<lambda>far.
     k_bind (k_gets (\<lambda>s. tf_elr (kstack s) frame)) (\<lambda>elr.
     k_bind (k_gets (\<lambda>s. tf_spsr (kstack s) frame)) (\<lambda>spsr.
     k_bind (println_bytes []) (\<lambda>_.
     k_bind (println_bytes (ascii ''*** EXCEPTION (vector '' @ fmt_dec kind @ ascii '': '' @
       ascii (vector_name kind) @ ascii '') ***'')) (\<lambda>_.
     k_bind (println_bytes (ascii ''  ESR_EL1  = '' @ fmt_hex 18 esr @ ascii ''  (EC = '' @ fmt_hex 4 (esr_ec esr) @
       ascii '': '' @ ascii (ec_name (esr_ec esr)) @ ascii '')'')) (\<lambda>_.
     k_bind (println_bytes (ascii ''  ELR_EL1  = '' @ fmt_hex 18 elr)) (\<lambda>_.
     k_bind (println_bytes (ascii ''  FAR_EL1  = '' @ fmt_hex 18 far)) (\<lambda>_.
     k_bind (println_bytes (ascii ''  SPSR_EL1 = '' @ fmt_hex 18 spsr)) (\<lambda>_.
     k_bind (kprintln ''halting.'') (\<lambda>_.
     k_return Halted))))))))))"

definition exception_dispatch :: "kernel_image \<Rightarrow> nat \<Rightarrow> usize \<Rightarrow> ('a trap_state_scheme, trap_end) kfn" where
  "exception_dispatch ki kind frame =
     k_bind (k_gets esr_el1) (\<lambda>esr.
     if kind mod 4 = 1 then k_bind handle_irq (\<lambda>_. k_return Returns)
     else if kind mod 4 = 0 then
       (if esr_ec esr = EC_SVC then dispatch ki frame
        else if 8 \<le> kind then kill_user esr frame
        else report_and_halt kind esr frame)
     else report_and_halt kind esr frame)"

text \<open>A whole exception: entry, handler and, where the handler returns, the way back.\<close>

definition trap_entry :: "nat \<Rightarrow> ('a trap_state_scheme, unit) kfn" where
  "trap_entry kind = k_bind (take_exception kind) (\<lambda>_. k_bind (ventry kind) (\<lambda>_. common_save))"

definition exception :: "kernel_image \<Rightarrow> nat \<Rightarrow> ('a trap_state_scheme, trap_end) kfn" where
  "exception ki kind =
     k_bind (trap_entry kind) (\<lambda>_.
     k_bind (k_gets sp) (\<lambda>frame.
     k_bind (exception_dispatch ki kind frame) (\<lambda>r.
     k_bind (k_when (r = Returns) common_restore) (\<lambda>_.
     k_return r))))"

section \<open>Into EL0\<close>

definition enter_user :: "('a trap_state_scheme, unit) kfn" where
  "enter_user =
     k_bind current_process (\<lambda>po.
     k_bind (k_expect ''enter_user without a process'' po) (\<lambda>pid.
     k_bind (proc_entry pid) (\<lambda>entry.
     k_bind (k_add USER_STACK_VA USER_STACK_SIZE) (\<lambda>user_sp.
     k_bind (k_modify (\<lambda>s. s\<lparr>spsr_el1 := 0, elr_el1 := entry, sp_el0 := user_sp\<rparr>)) (\<lambda>_.
     eret)))))"

definition user_task :: "('a trap_state_scheme, unit) kfn" where
  "user_task = k_bind (kprintln ''entering user mode (EL0)...'') (\<lambda>_. enter_user)"

end
