(* ===== verification/Boot.thy ===== *)
theory Boot
  imports Trap
begin

unbundle bit_operations_syntax

text \<open>
  The start of the kernel, \<^verbatim>\<open>kernel/src/main.rs\<close>: the order in which \<^verbatim>\<open>kmain\<close> brings the parts
  up, and the self-checks in between, which panic when a part misbehaves. \<^verbatim>\<open>kmain\<close> gives up
  the processor in its loops, so it is cut there: \<open>kmain_boot\<close> up to the first wait for an
  interrupt, \<open>irq_self_check\<close> and \<open>sched_self_check\<close> turn by turn, \<open>kmain_tasks\<close> after them,
  and \<open>kmain_idle\<close>, one turn of the loop it ends in.
\<close>

section \<open>Symbols\<close>

text \<open>The addresses the linker gives.\<close>

record kernel_symbols =
  sym_kernel_end :: usize
  sym_stack_top :: usize
  sym_vectors :: u64
  sym_sleeper :: usize
  sym_busy :: usize
  sym_sqpoll_main :: usize

section \<open>Self-checks\<close>

definition frame_self_check :: "('a console_state_scheme, unit) kfn" where
  "frame_self_check =
     k_bind free_frame_count (\<lambda>initial.
     k_bind (k_assert (initial > 1000) ''expected a large free frame pool'') (\<lambda>_.
     k_bind alloc_frame (\<lambda>r1.
     k_bind (k_expect ''frame pool unexpectedly empty'' r1) (\<lambda>f1.
     k_bind alloc_frame (\<lambda>r2.
     k_bind (k_expect ''frame pool unexpectedly empty'' r2) (\<lambda>f2.
     k_bind (k_assert (f1 \<noteq> f2) ''allocated the same frame twice'') (\<lambda>_.
     k_bind (k_assert (f1 mod FRAME_SIZE = 0) ''frame f1 is not 4 KiB aligned'') (\<lambda>_.
     k_bind (k_assert (f2 mod FRAME_SIZE = 0) ''frame f2 is not 4 KiB aligned'') (\<lambda>_.
     k_bind free_frame_count (\<lambda>n.
     k_bind (k_sub initial 2) (\<lambda>expected.
     k_bind (k_assert (n = expected) ''free count wrong after alloc'') (\<lambda>_.
     k_bind (free_frame f1) (\<lambda>_.
     k_bind (free_frame f2) (\<lambda>_.
     k_bind free_frame_count (\<lambda>n'.
     k_bind (k_assert (n' = initial) ''free count wrong after free'') (\<lambda>_.
     k_bind alloc_frame (\<lambda>r3.
     k_bind (k_expect ''frame pool unexpectedly empty'' r3) (\<lambda>f3.
     k_bind (k_assert (f3 = f2) ''free/alloc did not reuse the freed frame'') (\<lambda>_.
     k_bind (free_frame f3) (\<lambda>_.
     kprintln ''frame self-check passed''))))))))))))))))))))"

definition mmu_self_check :: "('a console_state_scheme, unit) kfn" where
  "mmu_self_check =
     k_bind (kprintln ''mmu enabled'') (\<lambda>_.
     k_bind alloc_frame (\<lambda>r.
     k_bind (k_expect ''frame pool unexpectedly empty'' r) (\<lambda>f.
     k_bind (k_modify (\<lambda>s. s\<lparr>mem := st32 (mem s) f 0x12345678\<rparr>)) (\<lambda>_.
     k_bind (k_gets (\<lambda>s. ld32 (mem s) f)) (\<lambda>v.
     k_bind (k_assert (v = 0x12345678) ''frame read-back wrong after MMU enable'') (\<lambda>_.
     k_bind (free_frame f) (\<lambda>_.
     kprintln ''mmu self-check passed'')))))))"

text \<open>
  An allocation the library makes for a container, and its release. The contents of a
  container are its value, so what the check sees of the heap is its addresses.
\<close>

definition box_new :: "usize \<Rightarrow> usize \<Rightarrow> ('a heap_state_scheme, usize) kfn" where
  "box_new sz align = k_bind (heap_alloc sz align) (k_expect ''memory allocation failed'')"

text \<open>
  A \<^verbatim>\<open>Vec<u32>\<close> takes room for four elements on its first push; the string is 20 bytes. The
  three values are dropped in the reverse order of their declaration.
\<close>

definition heap_self_check :: "('a console_state_scheme, unit) kfn" where
  "heap_self_check =
     k_bind (box_new 16 4) (\<lambda>_.
     k_bind (k_assert (sum_list [1, 2, 3 :: u32] = 6) ''heap-backed Vec produced the wrong sum'') (\<lambda>_.
     k_bind (box_new 20 1) (\<lambda>_.
     k_bind (kprintln ''Hello from the heap!'') (\<lambda>_.
     k_bind (box_new 4 4) (\<lambda>addr.
     k_bind (k_assert (HEAP_VBASE \<le> addr \<and> addr < HEAP_VBASE + HEAP_SIZE)
       ''heap allocation is not in the mapped virtual window'') (\<lambda>_.
     k_bind (kprintln ''heap self-check passed'') (\<lambda>_.
     k_bind heap_dealloc (\<lambda>_.
     k_bind heap_dealloc (\<lambda>_.
     heap_dealloc)))))))))"

text \<open>
  \<^verbatim>\<open>svc #0\<close> at EL1: the processor takes vector 4 with the exception class of a system call
  and returns behind the instruction.
\<close>

definition svc_esr :: u64 where "svc_esr = 0x56000000"

definition kernel_syscall :: "kernel_image \<Rightarrow> u64 \<Rightarrow> u64 \<Rightarrow> u64 \<Rightarrow> ('a trap_state_scheme, u64) kfn" where
  "kernel_syscall ki num arg0 arg1 =
     k_bind (k_modify (\<lambda>s. s\<lparr>xreg := (xreg s)(8 := num, 0 := arg0, 1 := arg1), pc := pc s + 4, esr_el1 := svc_esr\<rparr>)) (\<lambda>_.
     k_bind (exception ki 4) (\<lambda>_.
     k_gets (\<lambda>s. xreg s 0)))"

definition syscall_self_check :: "kernel_image \<Rightarrow> ('a trap_state_scheme, unit) kfn" where
  "syscall_self_check ki =
     k_bind (kernel_syscall ki SYS_ADD 3 4) (\<lambda>v.
     k_bind (k_assert (v = 7) ''syscall add returned the wrong value'') (\<lambda>_.
     kprintln ''syscall self-check passed''))"

text \<open>
  \<open>irqs\<close> says, for each \<^verbatim>\<open>wfi\<close>, which interrupts are pending when it wakes; when they run out
  the check is still waiting and the value is \<open>None\<close>.
\<close>

definition irq_report :: "u64 \<Rightarrow> ('a console_state_scheme, unit option) kfn" where
  "irq_report n =
     k_bind (println_bytes (ascii ''timer fired '' @ fmt_dec (unat n) @ ascii '' times'')) (\<lambda>_.
     k_bind (kprintln ''irq self-check passed'') (\<lambda>_.
     k_return (Some ())))"

primrec irq_self_check :: "kernel_image \<Rightarrow> u32 list list \<Rightarrow> ('a trap_state_scheme, unit option) kfn" where
  "irq_self_check ki [] = k_bind ticks (\<lambda>n. if n < 5 then k_return None else irq_report n)"
| "irq_self_check ki (is # irqs) =
     k_bind ticks (\<lambda>n.
     if n < 5 then
       k_bind (k_modify (\<lambda>s. s\<lparr>gic_pending := is\<rparr>)) (\<lambda>_.
       k_bind (exception ki 5) (\<lambda>_.
       irq_self_check ki irqs))
     else irq_report n)"

definition elf_self_check :: "kernel_image \<Rightarrow> ('a console_state_scheme, unit) kfn" where
  "elf_self_check ki =
     k_bind (k_for (ki_programs ki) (\<lambda>(name, img).
       k_bind (validate img) (\<lambda>entry.
       k_bind (k_assert (drop_bit 39 entry = USER_L0_IDX) ''user entry VA not in the user L0 slot'') (\<lambda>_.
       println_bytes (ascii ''program '' @ name @ ascii '': '' @ fmt_dec (length img) @ ascii '' bytes, entry '' @ fmt_hex 0 entry))))) (\<lambda>_.
     kprintln ''elf self-check passed'')"

section \<open>The self-check threads\<close>

text \<open>\<open>Inl d\<close>: the thread gave up the processor and restores the mask \<open>d\<close> when it goes on.\<close>

definition sched_self_check :: "kernel_image \<Rightarrow> kernel_symbols \<Rightarrow> ('a sched_state_scheme, unit) kfn" where
  "sched_self_check ki sy =
     k_bind sched_init (\<lambda>_.
     k_bind (sched_spawn (ki_trampoline ki) (sym_sleeper sy) 0) (\<lambda>_.
     sched_spawn (ki_trampoline ki) (sym_busy sy) 0))"

definition sched_self_check_turn :: "('a sched_state_scheme, u64 + unit) kfn" where
  "sched_self_check_turn =
     k_bind any_worker_alive (\<lambda>b.
     if b then k_bind yield_now (\<lambda>d. k_return (Inl d))
     else k_bind (kprintln ''preempt+sleep self-check passed'') (\<lambda>_. k_return (Inr ())))"

definition sleeper_turn :: "nat \<Rightarrow> ('a sched_state_scheme, u64) kfn" where
  "sleeper_turn i = k_bind (println_bytes (ascii ''[sleeper] woke '' @ fmt_dec i)) (\<lambda>_. sleep_ticks 3)"

text \<open>The head of \<^verbatim>\<open>spin_ticks\<close> and one turn of its loop: whether it goes on spinning.\<close>

definition spin_ticks_target :: "u64 \<Rightarrow> ('a sched_state_scheme, u64) kfn" where
  "spin_ticks_target n = k_bind ticks (\<lambda>now. k_add now n)"

definition spin_ticks_turn :: "u64 \<Rightarrow> ('a sched_state_scheme, bool) kfn" where
  "spin_ticks_turn target = k_bind ticks (\<lambda>now. k_return (now < target))"

definition busy_round :: "nat \<Rightarrow> ('a sched_state_scheme, u64) kfn" where
  "busy_round i = k_bind (println_bytes (ascii ''[busy] round '' @ fmt_dec i)) (\<lambda>_. spin_ticks_target 3)"

section \<open>The kernel entry point\<close>

definition kmain_boot :: "kernel_image \<Rightarrow> kernel_symbols \<Rightarrow> ('a trap_state_scheme, unit) kfn" where
  "kmain_boot ki sy =
     k_bind (kprintln ''Hello, World!'') (\<lambda>_.
     k_bind (init_exceptions (sym_vectors sy)) (\<lambda>_.
     k_bind (init_frames (sym_kernel_end sy)) (\<lambda>_.
     k_bind frame_self_check (\<lambda>_.
     k_bind init_mmu (\<lambda>_.
     k_bind mmu_self_check (\<lambda>_.
     k_bind init_heap (\<lambda>_.
     k_bind heap_self_check (\<lambda>_.
     k_bind (syscall_self_check ki) (\<lambda>_.
     k_bind (gic_init TIMER_INTID) (\<lambda>_.
     k_bind (enable_spi UART_INTID) (\<lambda>_.
     k_bind (set_rx_irq True) (\<lambda>_.
     k_bind timer_init (\<lambda>_.
     irq_enable)))))))))))))"

text \<open>
  \<^verbatim>\<open>_start\<close> of \<^verbatim>\<open>kernel/src/boot.s\<close>: the stack, then \<^verbatim>\<open>kmain\<close>. The register that enables FP/SIMD is not
  part of the state.
\<close>

definition start :: "kernel_image \<Rightarrow> kernel_symbols \<Rightarrow> ('a trap_state_scheme, unit) kfn" where
  "start ki sy = k_bind (k_modify (\<lambda>s. s\<lparr>sp := sym_stack_top sy\<rparr>)) (\<lambda>_. kmain_boot ki sy)"

definition kmain_tasks :: "kernel_image \<Rightarrow> kernel_symbols \<Rightarrow> ('a trap_state_scheme, unit) kfn" where
  "kmain_tasks ki sy =
     k_bind (elf_self_check ki) (\<lambda>_.
     k_bind (sched_spawn (ki_trampoline ki) (sym_sqpoll_main sy) 0) (\<lambda>_.
     k_bind (k_expect ''jsh program not embedded'' (programs_get ki (ascii ''jsh''))) (\<lambda>jsh.
     k_bind new_address_space (\<lambda>ttbr0.
     k_bind (create jsh ttbr0) (\<lambda>p0.
     k_bind (set_foreground p0 True) (\<lambda>_.
     k_bind (proc_ttbr0 p0) (\<lambda>t.
     spawn_user (ki_trampoline ki) (ki_user_task ki) 0 p0 t)))))))"

definition kmain_idle :: "('a sched_state_scheme, u64) kfn" where
  "kmain_idle = yield_now"

end
