(* ===== verification/Ring_Queues.thy ===== *)
theory Ring_Queues
  imports Ring
begin

unbundle bit_operations_syntax

text \<open>
  The rings as queues: what posting a completion does to the completion queue, how draining
  walks the submission queue, and how an exit reaches the parent that waits for it.
\<close>

section \<open>Console output\<close>

definition printed :: "u8 list \<Rightarrow> 'a console_state_scheme \<Rightarrow> 'a console_state_scheme" where
  "printed bs s = s\<lparr>uart_tx_busy := (if bs = [] then uart_tx_busy s else 0), uart_tx := uart_tx s @ crlf bs\<rparr>"

lemma uart_write_str_run: "uart_write_str bs s = Inr ((), printed bs s)"
proof (induction bs arbitrary: s)
  case Nil
  then show ?case by (simp add: uart_write_str_def run_simps printed_def crlf_def)
next
  case (Cons b bs)
  have "uart_write_str (b # bs) s = uart_write_str bs (printed [b] s)"
    by (simp add: uart_write_str_def run_simps write_byte_ok printed_def crlf_def)
  also have "\<dots> = Inr ((), printed (b # bs) s)"
    unfolding Cons.IH by (simp add: printed_def crlf_def)
  finally show ?case .
qed

lemma printed_simps [simp]:
  "mem (printed bs s) = mem s" "PROCESSES (printed bs t) = PROCESSES t" "SCHEDULER (printed bs u) = SCHEDULER u"
  "daif (printed bs s) = daif s" "ttbr0_el1 (printed bs s) = ttbr0_el1 s" "tlb (printed bs s) = tlb s"
  "INPUT (printed bs s) = INPUT s" "kstack (printed bs u) = kstack u" "sp (printed bs u) = sp u" "xreg (printed bs u) = xreg u"
  "uart_tx (printed bs s) = uart_tx s @ crlf bs" "TICKS (printed bs u) = TICKS u"
  by (simp_all add: printed_def)

section \<open>Posting a completion\<close>

definition cq_full :: "memory \<Rightarrow> usize \<Rightarrow> bool" where
  "cq_full m pa \<longleftrightarrow> RING_ENTRIES \<le> rp_cq_tail m pa - rp_cq_head m pa"

definition cq_push :: "usize \<Rightarrow> Cqe \<Rightarrow> memory \<Rightarrow> memory" where
  "cq_push pa c m = set_cq_tail pa (rp_cq_tail m pa + 1) (store_cqe pa (ring_slot (rp_cq_tail m pa)) c m)"

definition overflow_note :: "u8 list" where
  "overflow_note = ascii ''jring: completion queue overflow, dropping CQE'' @ [0x0A]"

definition posted :: "usize \<Rightarrow> u64 \<Rightarrow> i64 \<Rightarrow> 'a proc_state_scheme \<Rightarrow> 'a proc_state_scheme" where
  "posted pa t r s = (if cq_full (mem s) pa then printed overflow_note s
     else s\<lparr>mem := cq_push pa \<lparr>cqe_user_data = t, cqe_result = r\<rparr> (mem s)\<rparr>)"

lemma kprintln_run: "kprintln msg s = Inr ((), printed (ascii msg @ [0x0A]) s)"
  by (simp add: kprintln_def kprint_def uart_write_str_run ascii_def)

lemma complete_run [run_simps]: "complete pa t r s = Inr ((), posted pa t r s)"
  by (simp add: complete_def run_simps posted_def cq_full_def cq_push_def kprintln_run overflow_note_def)

lemma posted_simps [simp]:
  "PROCESSES (posted pa t r s) = PROCESSES s" "SCHEDULER (posted pa t r s) = SCHEDULER s" "daif (posted pa t r s) = daif s"
  "ttbr0_el1 (posted pa t r s) = ttbr0_el1 s" "tlb (posted pa t r s) = tlb s" "INPUT (posted pa t r s) = INPUT s"
  by (simp_all add: posted_def)

text \<open>The completion queue holds at most sixteen entries as long as both sides keep to it.\<close>

definition cq_ok :: "usize \<Rightarrow> memory \<Rightarrow> bool" where
  "cq_ok pa m \<longleftrightarrow> page_aligned pa \<and> unat (rp_cq_tail m pa - rp_cq_head m pa) \<le> 16"

lemma cq_full_iff: "cq_full m pa \<longleftrightarrow> 16 \<le> length (cq_content m pa)"
  by (simp add: cq_full_def cq_content_def RING_ENTRIES_def word_le_nat_alt)

lemma cq_push_content:
  assumes "page_aligned pa" "\<not> cq_full m pa"
  shows "cq_content (cq_push pa c m) pa = cq_content m pa @ [c]"
proof -
  have "unat (rp_cq_tail m pa - rp_cq_head m pa) < 16" using assms(2) by (simp add: cq_full_iff cq_content_def)
  then show ?thesis using assms(1)
    by (simp add: cq_content_def cq_push_def) (rule ring_content_store, simp_all)
qed

lemma cq_push_ok:
  assumes "page_aligned pa" "\<not> cq_full m pa"
  shows "cq_ok pa (cq_push pa c m)"
  using assms cq_push_content[OF assms, of c] cq_full_iff[of m pa]
  by (simp add: cq_ok_def) (metis (no_types, opaque_lifting) cq_content_def length_append_singleton not_less_eq_eq ring_content_length)

lemma cq_push_sq [simp]:
  assumes "page_aligned pa"
  shows "sq_content (cq_push pa c m) pa = sq_content m pa" "rp_sq_head (cq_push pa c m) pa = rp_sq_head m pa"
    "rp_sq_tail (cq_push pa c m) pa = rp_sq_tail m pa" "i < 16 \<Longrightarrow> load_sqe (cq_push pa c m) pa i = load_sqe m pa i"
    "rp_flags (cq_push pa c m) pa = rp_flags m pa"
  using assms by (auto simp: cq_push_def sq_content_def intro!: ring_content_cong)

lemma cq_push_local: "page_aligned pa \<Longrightarrow> page_of a \<noteq> pa \<Longrightarrow> cq_push pa c m a = m a"
  by (simp add: cq_push_def ring_stores_local)

lemma posted_content:
  assumes "page_aligned pa"
  shows "cq_content (mem (posted pa t r s)) pa =
    q_offer 16 \<lparr>cqe_user_data = t, cqe_result = r\<rparr> (cq_content (mem s) pa)"
  using assms cq_push_content[OF assms] by (auto simp: posted_def q_offer_def cq_full_iff)

section \<open>Exit and wait\<close>

definition awoken :: "nat \<Rightarrow> 'a sched_state_scheme \<Rightarrow> 'a sched_state_scheme" where
  "awoken w s = s\<lparr>SCHEDULER := set_task w (\<lambda>t. if task_state t = Blocked then t\<lparr>task_state := Runnable\<rparr> else t) (SCHEDULER s)\<rparr>"

lemma without_irqs_run: "m (s\<lparr>daif := daif s OR DAIF_I\<rparr>) = Inr (x, t) \<Longrightarrow> without_irqs m s = Inr (x, t\<lparr>daif := daif s\<rparr>)"
  by (simp add: without_irqs_def irq_disable_def irq_restore_def run_simps)

lemma current_process_run:
  "sched_ok (SCHEDULER s) \<Longrightarrow> current_process s = Inr (task_process (tasks (SCHEDULER s) ! current (SCHEDULER s)), s)"
  unfolding current_process_def by (subst without_irqs_run) (auto simp: sched_ok_def run_simps)

lemma wake_run: "w < length (tasks (SCHEDULER s)) \<Longrightarrow> wake w s = Inr ((), awoken w s)"
  unfolding wake_def
  by (subst without_irqs_run) (auto simp: update_task_eq awoken_def)

lemma awoken_simps [simp]:
  "mem (awoken w s) = mem s" "PROCESSES (awoken w t) = PROCESSES t" "daif (awoken w s) = daif s"
  "ttbr0_el1 (awoken w s) = ttbr0_el1 s" "tlb (awoken w s) = tlb s" "length (tasks (SCHEDULER (awoken w s))) = length (tasks (SCHEDULER s))"
  "current (SCHEDULER (awoken w s)) = current (SCHEDULER s)"
  by (simp_all add: awoken_def set_task_def)

lemma awoken_state: "w < length (tasks (SCHEDULER s)) \<Longrightarrow> task_state (tasks (SCHEDULER (awoken w s)) ! w) \<noteq> Blocked"
  by (simp add: awoken_def set_task_def)

text \<open>What \<^verbatim>\<open>take_waiter\<close> followed by \<^verbatim>\<open>wake\<close> does: the task blocked in \<^verbatim>\<open>enter\<close> can run again.\<close>

definition waiter_ok :: "'a proc_state_scheme \<Rightarrow> nat \<Rightarrow> bool" where
  "waiter_ok s pid \<longleftrightarrow> (case p_ring_waiter (PROCESSES s ! pid) of None \<Rightarrow> True | Some w \<Rightarrow> w < length (tasks (SCHEDULER s)))"

definition waiter_woken :: "nat \<Rightarrow> 'a proc_state_scheme \<Rightarrow> 'a proc_state_scheme" where
  "waiter_woken pid s = (let s' = s\<lparr>PROCESSES := (PROCESSES s)[pid := (PROCESSES s ! pid)\<lparr>p_ring_waiter := None\<rparr>]\<rparr> in
     case p_ring_waiter (PROCESSES s ! pid) of None \<Rightarrow> s' | Some w \<Rightarrow> awoken w s')"

lemma waiter_woken_run:
  assumes "pid < length (PROCESSES s)" "waiter_ok s pid"
  shows "k_bind (take_waiter pid) (\<lambda>w. case w of None \<Rightarrow> k_return () | Some waiter \<Rightarrow> wake waiter) s = Inr ((), waiter_woken pid s)"
  using assms by (auto simp: take_waiter_def run_simps waiter_woken_def waiter_ok_def wake_run split: option.splits)

lemma waiter_woken_mem [simp]: "mem (waiter_woken pid s) = mem s"
  by (simp add: waiter_woken_def Let_def split: option.splits)

lemma waiter_woken_runnable:
  assumes "waiter_ok s pid" "p_ring_waiter (PROCESSES s ! pid) = Some w"
  shows "task_state (tasks (SCHEDULER (waiter_woken pid s)) ! w) \<noteq> Blocked"
  using assms by (simp add: waiter_woken_def waiter_ok_def awoken_state)

definition exited :: "nat \<Rightarrow> i64 \<Rightarrow> 'a proc_state_scheme \<Rightarrow> 'a proc_state_scheme" where
  "exited pid code s = s\<lparr>PROCESSES := (PROCESSES s)[pid := (PROCESSES s ! pid)\<lparr>p_exit_code := Some code, p_exit_waiter := None\<rparr>]\<rparr>"

lemma exited_simps [simp]:
  assumes "pid < length (PROCESSES s)"
  shows "mem (exited pid code s) = mem s" "SCHEDULER (exited pid code s) = SCHEDULER s" "length (PROCESSES (exited pid code s)) = length (PROCESSES s)"
    "p_ring_pa (PROCESSES (exited pid code s) ! q) = p_ring_pa (PROCESSES s ! q)"
    "p_ring_waiter (PROCESSES (exited pid code s) ! q) = p_ring_waiter (PROCESSES s ! q)"
    "p_parent (PROCESSES (exited pid code s) ! q) = p_parent (PROCESSES s ! q)"
    "p_exit_code (PROCESSES (exited pid code s) ! pid) = Some code"
    "waiter_ok (exited pid code s) q = waiter_ok s q"
  using assms by (simp_all add: exited_def nth_list_update waiter_ok_def cong: option.case_cong)

lemma on_exit_run:
  assumes "pid < length (PROCESSES s)"
  shows "on_exit pid code s = Inr (case p_exit_waiter (PROCESSES s ! pid) of None \<Rightarrow> None
       | Some t \<Rightarrow> map_option (\<lambda>q. (q, t)) (p_parent (PROCESSES s ! pid)), exited pid code s)"
  using assms by (simp add: on_exit_def run_simps exited_def split: option.splits)

lemma notify_exit_run:
  assumes "pid < length (PROCESSES s)"
  shows "p_exit_waiter (PROCESSES s ! pid) = None \<Longrightarrow> notify_exit pid code s = Inr ((), exited pid code s)"
    "p_exit_waiter (PROCESSES s ! pid) = Some t \<Longrightarrow> p_parent (PROCESSES s ! pid) = Some q \<Longrightarrow> q < length (PROCESSES s) \<Longrightarrow>
       waiter_ok s q \<Longrightarrow> notify_exit pid code s = Inr ((), waiter_woken q
         (let s' = exited pid code s; pa = p_ring_pa (PROCESSES s ! q) in if pa = 0 then s' else posted pa t code s'))"
proof -
  note run = notify_exit_def on_exit_run[OF assms] proc_ring_pa_def get_proc_run
  show "p_exit_waiter (PROCESSES s ! pid) = None \<Longrightarrow> notify_exit pid code s = Inr ((), exited pid code s)"
    by (simp add: run run_simps)
  assume w: "p_exit_waiter (PROCESSES s ! pid) = Some t" "p_parent (PROCESSES s ! pid) = Some q" "q < length (PROCESSES s)" "waiter_ok s q"
  let ?s = "let s' = exited pid code s; pa = p_ring_pa (PROCESSES s ! q) in if pa = 0 then s' else posted pa t code s'"
  have "notify_exit pid code s = k_bind (take_waiter q) (\<lambda>w. case w of None \<Rightarrow> k_return () | Some waiter \<Rightarrow> wake waiter) ?s"
    using w assms by (simp add: notify_exit_def on_exit_run proc_ring_pa_def run_simps Let_def)
  also have "\<dots> = Inr ((), waiter_woken q ?s)"
    using w assms by (intro waiter_woken_run) (auto simp: Let_def waiter_ok_def cong: option.case_cong)
  finally show "notify_exit pid code s = Inr ((), waiter_woken q ?s)" .
qed


section \<open>Instances\<close>

definition sample_parent :: Process where
  "sample_parent = \<lparr>p_ttbr0 = 0, p_loaded = \<lparr>l_entry = 0, l_ranges = [], l_count = 0\<rparr>, p_frames = [], p_ring_pa = 0x40100000,
     p_pending = [], p_ring_waiter = Some 1, p_foreground = True, p_parent = None, p_exit_code = None, p_exit_waiter = None\<rparr>"

text \<open>Two processes, the second a child of the first, whose ring page is empty.\<close>

definition family :: proc_state where
  "family = off_proc\<lparr>mem := (\<lambda>_. 0), PROCESSES := [sample_parent, sample_parent\<lparr>p_parent := Some 0\<rparr>]\<rparr>"

lemma zero_page_queue: "cq_content (\<lambda>_. 0) pa = []"
  by (simp add: cq_content_def ring_content_empty rp_cq_head_def rp_cq_tail_def ld32_def get_half_def)

lemma family_simps: "mem family = (\<lambda>_. 0)" "PROCESSES family = [sample_parent, sample_parent\<lparr>p_parent := Some 0\<rparr>]"
  "length (tasks (SCHEDULER family)) = 3"
  by (simp_all add: family_def off_proc_def state_defs proc_state.defs three_tasks_def)


end
