(* ===== verification/Trap_Properties.thy ===== *)
theory Trap_Properties
  imports Trap Ring_Queues
begin

unbundle bit_operations_syntax

text \<open>
  Exceptions are transparent: the trap frame brings back every register, also when the task
  was preempted in between and its context went through the scheduler, and a system call
  changes nothing of the caller but \<^verbatim>\<open>x0\<close>.
\<close>

section \<open>The trap frame\<close>


text \<open>The cells of a saved trap frame.\<close>

definition frame_cells :: "(nat \<Rightarrow> u64) \<Rightarrow> u64 \<Rightarrow> u64 \<Rightarrow> u64 \<Rightarrow> usize \<Rightarrow> memory \<Rightarrow> memory" where
  "frame_cells x e p z f m = m(f := x 0, f + 8 := x 1, f + 16 := x 2, f + 24 := x 3, f + 32 := x 4, f + 40 := x 5, f + 48 := x 6,
     f + 56 := x 7, f + 64 := x 8, f + 72 := x 9, f + 80 := x 10, f + 88 := x 11, f + 96 := x 12, f + 104 := x 13,
     f + 112 := x 14, f + 120 := x 15, f + 128 := x 16, f + 136 := x 17, f + 144 := x 18, f + 152 := x 19, f + 160 := x 20,
     f + 168 := x 21, f + 176 := x 22, f + 184 := x 23, f + 192 := x 24, f + 200 := x 25, f + 208 := x 26, f + 216 := x 27,
     f + 224 := x 28, f + 232 := x 29, f + 240 := x 30, f + 248 := e, f + 256 := p, f + 264 := z)"

definition trapped :: "nat \<Rightarrow> 'a trap_state_scheme \<Rightarrow> 'a trap_state_scheme" where
  "trapped kind s = s\<lparr>elr_el1 := pc s, spsr_el1 := pstate s, daif := 0x3C0, in_el0 := False,
     pc := vbar_el1 s + 0x80 * of_nat kind, sp := sp s - 272,
     kstack := frame_cells (xreg s) (pc s) (pstate s) (sp_el0 s) (sp s - 272) (kstack s),
     xreg := (xreg s)(0 := of_nat kind, 2 := pstate s, 3 := sp_el0 s, 1 := sp s - 272)\<rparr>"

lemma trap_entry_run: "trap_entry kind s = Inr ((), trapped kind s)"
  by (simp add: trap_entry_def take_exception_def ventry_def common_save_def set_xreg_def stp_at_def frame_pairs_def run_simps
      frame_cells_def trapped_def)

lemma less31: "(\<forall>r < 31. P r) \<longleftrightarrow> P 0 \<and> P 1 \<and> P 2 \<and> P 3 \<and> P 4 \<and> P 5 \<and> P 6 \<and> P 7 \<and> P 8 \<and> P 9 \<and> P 10 \<and> P 11 \<and> P 12 \<and> P 13 \<and> P 14 \<and>
    P 15 \<and> P 16 \<and> P 17 \<and> P 18 \<and> P 19 \<and> P 20 \<and> P 21 \<and> P 22 \<and> P 23 \<and> P 24 \<and> P 25 \<and> P 26 \<and> P 27 \<and> P 28 \<and> P 29 \<and> P (30 :: nat)"
  by (simp add: numeral_nat All_less_Suc conj_ac)

lemma frame_cells_read:
  "r < 31 \<Longrightarrow> tf_x (frame_cells x e p z f m) f r = x r" "tf_elr (frame_cells x e p z f m) f = e"
  "tf_spsr (frame_cells x e p z f m) f = p" "tf_sp_el0 (frame_cells x e p z f m) f = z"
proof -
  have "\<forall>r < 31. tf_x (frame_cells x e p z f m) f r = x r" unfolding less31 by (simp add: frame_cells_def tf_x_def)
  then show "r < 31 \<Longrightarrow> tf_x (frame_cells x e p z f m) f r = x r" by blast
qed (simp_all add: frame_cells_def tf_elr_def tf_spsr_def tf_sp_el0_def)

definition untrapped :: "'a trap_state_scheme \<Rightarrow> 'a trap_state_scheme" where
  "untrapped t = (let m = kstack t; f = sp t; p = tf_spsr m f in
     t\<lparr>elr_el1 := tf_elr m f, spsr_el1 := p, sp_el0 := tf_sp_el0 m f, sp := f + 272, pc := tf_elr m f,
       nzcv := p AND 0xF0000000, daif := p AND 0x3C0, in_el0 := (p AND 0xF = 0),
       xreg := (\<lambda>r. if r < 31 then tf_x m f r else xreg t r)\<rparr>)"

lemma common_restore_run: "common_restore t = Inr ((), untrapped t)"
proof -
  have x: "(xreg t)(1 := kstack t (sp t + 248), 2 := kstack t (sp t + 256), 3 := kstack t (sp t + 264),
     0 := kstack t (sp t), 1 := kstack t (sp t + 8), 2 := kstack t (sp t + 16), 3 := kstack t (sp t + 24), 4 := kstack t (sp t + 32),
     5 := kstack t (sp t + 40), 6 := kstack t (sp t + 48), 7 := kstack t (sp t + 56), 8 := kstack t (sp t + 64), 9 := kstack t (sp t + 72),
     10 := kstack t (sp t + 80), 11 := kstack t (sp t + 88), 12 := kstack t (sp t + 96), 13 := kstack t (sp t + 104), 14 := kstack t (sp t + 112),
     15 := kstack t (sp t + 120), 16 := kstack t (sp t + 128), 17 := kstack t (sp t + 136), 18 := kstack t (sp t + 144), 19 := kstack t (sp t + 152),
     20 := kstack t (sp t + 160), 21 := kstack t (sp t + 168), 22 := kstack t (sp t + 176), 23 := kstack t (sp t + 184), 24 := kstack t (sp t + 192),
     25 := kstack t (sp t + 200), 26 := kstack t (sp t + 208), 27 := kstack t (sp t + 216), 28 := kstack t (sp t + 224), 29 := kstack t (sp t + 232),
     30 := kstack t (sp t + 240)) = (\<lambda>r. if r < 31 then tf_x (kstack t) (sp t) r else xreg t r)" (is "?l = ?r")
  proof
    fix r
    have "\<forall>r < 31. ?l r = ?r r" unfolding less31 by (simp add: tf_x_def)
    then show "?l r = ?r r" by (cases "r < 31") simp_all
  qed
  show ?thesis unfolding untrapped_def Let_def x[symmetric]
    by (simp add: common_restore_def set_xreg_def ldp_at_def frame_pairs_def eret_def run_simps tf_elr_def tf_spsr_def tf_sp_el0_def add.assoc)
qed

definition pstate_ok :: "'a trap_state_scheme \<Rightarrow> bool" where
  "pstate_ok s \<longleftrightarrow> nzcv s AND 0xF0000000 = nzcv s \<and> daif s AND 0x3C0 = daif s"

lemma pstate_fields:
  assumes "pstate_ok s"
  shows "pstate s AND 0xF0000000 = nzcv s" "pstate s AND 0x3C0 = daif s" "(pstate s AND 0xF = 0) = in_el0 s"
proof -
  have n: "nzcv s AND b = 0" if "0xF0000000 AND b = 0" for b
    using that assms and.assoc[of "nzcv s" "0xF0000000" b] by (simp add: pstate_ok_def)
  have d: "daif s AND b = 0" if "0x3C0 AND b = 0" for b
    using that assms and.assoc[of "daif s" "0x3C0" b] by (simp add: pstate_ok_def)
  have p: "pstate s = nzcv s OR daif s OR (if in_el0 s then 0 else 5)" "nzcv s AND 0xF0000000 = nzcv s" "daif s AND 0x3C0 = daif s"
    using assms by (simp_all add: pstate_def pstate_ok_def)
  show "pstate s AND 0xF0000000 = nzcv s" "pstate s AND 0x3C0 = daif s" "(pstate s AND 0xF = 0) = in_el0 s"
    unfolding p(1) by (simp_all add: word_ao_dist p(2,3) n d)
qed

text \<open>
  A frame kept on the stack brings back the whole state of the interrupted code.
\<close>

definition frame_kept :: "'a sched_state_scheme \<Rightarrow> 'b sched_state_scheme \<Rightarrow> usize \<Rightarrow> bool" where
  "frame_kept s t f \<longleftrightarrow> (\<forall>i < 34. kstack t (f + 8 * of_nat i) = kstack s (f + 8 * of_nat i))"

lemma trap_frame_back:
  assumes "pstate_ok s" "frame_kept (trapped k s) t (sp s - 272)" "sp t = sp s - 272"
  shows "r < 31 \<Longrightarrow> xreg (untrapped t) r = xreg s r" "sp (untrapped t) = sp s" "pc (untrapped t) = pc s"
    "sp_el0 (untrapped t) = sp_el0 s" "daif (untrapped t) = daif s" "nzcv (untrapped t) = nzcv s" "in_el0 (untrapped t) = in_el0 s"
proof -
  let ?f = "sp s - 272" and ?m = "frame_cells (xreg s) (pc s) (pstate s) (sp_el0 s) (sp s - 272) (kstack s)"
  have k: "kstack t (?f + 8 * of_nat i) = ?m (?f + 8 * of_nat i)" if "i < 34" for i
    using assms(2) that by (simp add: frame_kept_def trapped_def)
  have x: "tf_x (kstack t) ?f r = xreg s r" if "r < 31" for r
    using k[of r] that frame_cells_read(1)[OF that] by (simp add: tf_x_def)
  have e: "tf_elr (kstack t) ?f = pc s" "tf_spsr (kstack t) ?f = pstate s" "tf_sp_el0 (kstack t) ?f = sp_el0 s"
    using k[of 31] k[of 32] k[of 33] frame_cells_read(2-4)[of "xreg s" "pc s" "pstate s" "sp_el0 s" ?f "kstack s"]
    by (simp_all add: tf_elr_def tf_spsr_def tf_sp_el0_def)
  show "r < 31 \<Longrightarrow> xreg (untrapped t) r = xreg s r" "sp (untrapped t) = sp s" "pc (untrapped t) = pc s"
    "sp_el0 (untrapped t) = sp_el0 s" "daif (untrapped t) = daif s" "nzcv (untrapped t) = nzcv s" "in_el0 (untrapped t) = in_el0 s"
    using x e pstate_fields[OF assms(1)] by (simp_all add: untrapped_def Let_def assms(3))
qed

text \<open>Addresses of a task's stack: the saved context lies below the trap frame.\<close>

lemma ctx_addr_inj: "i < 46 \<Longrightarrow> j < 46 \<Longrightarrow> ctx_addr q i = ctx_addr q j \<longleftrightarrow> i = j"
  by (simp add: ctx_addr_def word_unat_eq_iff[of "8 * of_nat i"] unat_word_ariths unat_of_nat)

lemma trap_cell_addr: "f + 8 * of_nat i = ctx_addr (f - 96) (i + 12)" 
  by (simp add: ctx_addr_def algebra_simps)

lemma timer_irq_run:
  assumes "gic_pending s = TIMER_INTID # ps" "k mod 4 = 1"
  shows "exception_dispatch ki k f s = (case schedule (s\<lparr>gic_pending := ps, TICKS := TICKS s + 1, cntp_tval_el0 := FREQ s div TICK_HZ,
     SCHEDULER := (SCHEDULER s)\<lparr>tasks := map (woken (TICKS s + 1)) (tasks (SCHEDULER s))\<rparr>\<rparr>) of Inl e \<Rightarrow> Inl e | Inr (_, t) \<Rightarrow> k_return Returns t)"
  using assms
  by (simp add: exception_dispatch_def handle_irq_def acknowledge_def is_spurious_def TIMER_INTID_def SPURIOUS_MIN_def eoi_def
      on_tick_def interval_def sched_tick_def ticks_def wake_sleepers_def woken_def[abs_def] run_simps)

text \<open>
  C4. A task preempted by the timer interrupt, at EL0 or EL1, and switched out inside the
  handler resumes exactly where it was once the scheduler picks it again and the handler
  returns: every general register, the stack pointers, the program counter, the flags, the
  interrupt mask and the exception level are what they were, provided the other tasks left its
  stack alone.
\<close>

theorem preempted_task_resumes:
  assumes entry: "trap_entry k s = Inr ((), s1)" "k mod 4 = 1" "gic_pending s = TIMER_INTID # ps" "pstate_ok s"
    and out: "exception_dispatch ki k (sp s1) s1 = Inr (Returns, s2)" "sched_ok (SCHEDULER s)"
      "current (SCHEDULER s) = a" "current (SCHEDULER s2) \<noteq> a"
    and kept: "task_sp (tasks (SCHEDULER s3) ! a) = task_sp (tasks (SCHEDULER s2) ! a)"
      "\<And>i. i < 46 \<Longrightarrow> kstack s3 (ctx_addr (sp s - 368) i) = kstack s2 (ctx_addr (sp s - 368) i)"
    and stacks: "\<And>i j. i < 46 \<Longrightarrow> j < 12 \<Longrightarrow> ctx_addr (sp s3 - 96) j \<noteq> ctx_addr (sp s - 368) i"
    and ret: "schedule s3 = Inr (v, s4)" "sched_ok (SCHEDULER s3)" "current (SCHEDULER s3) \<noteq> a" "current (SCHEDULER s4) = a"
  shows "\<exists>s5. common_restore s4 = Inr ((), s5) \<and> (\<forall>r < 31. xreg s5 r = xreg s r) \<and> sp s5 = sp s \<and> pc s5 = pc s \<and>
    sp_el0 s5 = sp_el0 s \<and> daif s5 = daif s \<and> nzcv s5 = nzcv s \<and> in_el0 s5 = in_el0 s"
proof -
  have s1: "s1 = trapped k s" using entry(1) by (simp add: trap_entry_run)
  let ?s1 = "s1\<lparr>gic_pending := ps, TICKS := TICKS s1 + 1, cntp_tval_el0 := FREQ s1 div TICK_HZ,
     SCHEDULER := (SCHEDULER s1)\<lparr>tasks := map (woken (TICKS s1 + 1)) (tasks (SCHEDULER s1))\<rparr>\<rparr>"
  let ?q = "sp s - 368"
  have p1: "gic_pending s1 = TIMER_INTID # ps" "SCHEDULER s1 = SCHEDULER s" "sp s1 = sp s - 272"
    using entry(3) by (simp_all add: s1 trapped_def)
  have sch: "schedule ?s1 = Inr ((), s2)"
    using out(1) timer_irq_run[OF p1(1) entry(2), of ki "sp s1"] by (auto simp: k_return_def split: sum.splits)
  have ok: "sched_ok (SCHEDULER ?s1)" "current (SCHEDULER ?s1) = a" "sp ?s1 = sp s - 272" "kstack ?s1 = kstack s1"
    using out(2,3) p1 by (simp_all add: sched_ok_def)
  note o = schedule_switched[OF sch ok(1)] and b = schedule_switched[OF ret(1,2)]
  have o12: "kstack s2 = save_ctx (xreg ?s1) (sp s - 272) (kstack s1)" "task_sp (tasks (SCHEDULER s2) ! a) = ?q"
    using o(1,2) out(4) ok(2,3) by (simp_all add: p1)
  have sp4: "sp s4 = sp s - 272" using b(4) ret(3,4) kept(1) o12(2) by simp
  have frame: "kstack s4 (ctx_addr ?q (i + 12)) = kstack s1 (ctx_addr ?q (i + 12))" if "i < 34" for i
  proof -
    have ne: "ctx_addr (sp s3 - 96) j \<noteq> ctx_addr ?q (i + 12)" if "j < 12" for j
      using stacks[of "i + 12" j] that \<open>i < 34\<close> by simp
    have "kstack s4 (ctx_addr ?q (i + 12)) = kstack s3 (ctx_addr ?q (i + 12))"
      unfolding b(1)[unfolded ret(4), OF ret(3)[symmetric]] by (rule save_ctx_outside) (metis ne)
    also have "\<dots> = kstack s2 (ctx_addr ?q (i + 12))" using kept(2)[of "i + 12"] that by simp
    also have "\<dots> = kstack s1 (ctx_addr ?q (i + 12))"
      unfolding o12(1) using that ctx_addr_inj[of "i + 12" _ ?q] by (intro save_ctx_outside) simp
    finally show ?thesis .
  qed
  have "frame_kept (trapped k s) s4 (sp s - 272)"
    using frame by (simp add: frame_kept_def trap_cell_addr s1[symmetric])
  from trap_frame_back[OF entry(4) this sp4] show ?thesis
    by (intro exI[of _ "untrapped s4"]) (simp add: common_restore_run)
qed

section \<open>System calls\<close>

text \<open>A handler that writes \<open>v\<close> to \<^verbatim>\<open>x[0]\<close> of the frame and returns.\<close>

definition answered :: "nat \<Rightarrow> u64 \<Rightarrow> 'a trap_state_scheme \<Rightarrow> 'a trap_state_scheme \<Rightarrow> 'a trap_state_scheme" where
  "answered k v s t = untrapped (t\<lparr>kstack := (kstack (trapped k s))(sp s - 272 := v), sp := sp s - 272\<rparr>)"

lemma answered_back:
  assumes "pstate_ok s"
  shows "xreg (answered k v s t) 0 = v" "0 < r \<Longrightarrow> r < 31 \<Longrightarrow> xreg (answered k v s t) r = xreg s r" "sp (answered k v s t) = sp s"
    "pc (answered k v s t) = pc s" "sp_el0 (answered k v s t) = sp_el0 s" "daif (answered k v s t) = daif s"
    "nzcv (answered k v s t) = nzcv s" "in_el0 (answered k v s t) = in_el0 s"
proof -
  let ?f = "sp s - 272"
  let ?t = "t\<lparr>kstack := kstack (trapped k s), sp := ?f\<rparr>"
  have "frame_kept (trapped k s) ?t ?f" by (simp add: frame_kept_def)
  note bk = trap_frame_back[OF assms this]
  have ne: "?f + 8 * of_nat i \<noteq> ?f" if "0 < i" "i < 34" for i
    using ctx_addr_inj[of i 0 ?f] that by (simp add: ctx_addr_def)
  have ne': "?f + 248 \<noteq> ?f" "?f + 256 \<noteq> ?f" "?f + 264 \<noteq> ?f" using ne[of 31] ne[of 32] ne[of 33] by simp_all
  show "xreg (answered k v s t) 0 = v" by (simp add: answered_def untrapped_def Let_def tf_x_def)
  show "0 < r \<Longrightarrow> r < 31 \<Longrightarrow> xreg (answered k v s t) r = xreg s r"
    using bk(1)[of r] ne[of r] by (simp add: answered_def untrapped_def Let_def tf_x_def)
  show "sp (answered k v s t) = sp s" "pc (answered k v s t) = pc s" "sp_el0 (answered k v s t) = sp_el0 s"
    "daif (answered k v s t) = daif s" "nzcv (answered k v s t) = nzcv s" "in_el0 (answered k v s t) = in_el0 s"
    using bk(2-7) ne' by (simp_all add: answered_def untrapped_def Let_def tf_elr_def tf_spsr_def tf_sp_el0_def)
qed

lemma trapped_simps [simp]: "sp (trapped k s) = sp s - 272" "esr_el1 (trapped k s) = esr_el1 s" "mem (trapped k s) = mem s"
  "SCHEDULER (trapped k s) = SCHEDULER s" "r < 31 \<Longrightarrow> tf_x (kstack (trapped k s)) (sp s - 272) r = xreg s r"
  by (simp_all add: trapped_def frame_cells_read)

definition unknown_note :: "u64 \<Rightarrow> u8 list" where
  "unknown_note n = ascii ''unknown syscall '' @ fmt_dec (unat n) @ [0x0A]"

lemma svc_run:
  assumes svc: "esr_ec (esr_el1 s) = EC_SVC" "k mod 4 = 0"
  shows "xreg s 8 = SYS_ADD \<Longrightarrow> exception ki k s = Inr (Returns, answered k (xreg s 0 + xreg s 1) s (trapped k s))"
    "xreg s 8 \<notin> {SYS_ADD, SYS_RING_SETUP, SYS_RING_ENTER, SYS_EXIT} \<Longrightarrow>
       exception ki k s = Inr (Returns, answered k (- 1) s (printed (unknown_note (xreg s 8)) (trapped k s)))"
proof -
  have d: "exception_dispatch ki k f (trapped k s) = dispatch ki f (trapped k s)" for f
    using svc by (simp add: exception_dispatch_def run_simps)
  have sp: "trapped k s\<lparr>kstack := m, sp := sp s - 272\<rparr> = trapped k s\<lparr>kstack := m\<rparr>" for m by (simp add: trapped_def)
  have sp': "printed b (trapped k s)\<lparr>kstack := m, sp := sp s - 272\<rparr> = printed b (trapped k s)\<lparr>kstack := m\<rparr>" for b m
    by (simp add: trapped_def printed_def)
  show "xreg s 8 = SYS_ADD \<Longrightarrow> exception ki k s = Inr (Returns, answered k (xreg s 0 + xreg s 1) s (trapped k s))"
    by (simp add: exception_def trap_entry_run d dispatch_def set_frame_x0_def run_simps common_restore_run answered_def sp)
  show "xreg s 8 \<notin> {SYS_ADD, SYS_RING_SETUP, SYS_RING_ENTER, SYS_EXIT} \<Longrightarrow>
       exception ki k s = Inr (Returns, answered k (- 1) s (printed (unknown_note (xreg s 8)) (trapped k s)))"
    by (simp add: exception_def trap_entry_run d dispatch_def set_frame_x0_def run_simps common_restore_run answered_def
        println_bytes_def uart_write_str_run unknown_note_def sp')
qed

lemma answered_mem: "mem (answered k v s t) = mem t" "PROCESSES (answered k v s t) = PROCESSES t" "SCHEDULER (answered k v s t) = SCHEDULER t"
  by (simp_all add: answered_def untrapped_def Let_def)

text \<open>
  C39. An SVC that adds, or that names no known call, returns from the trap with x0 set to the
  wrapped sum or to the error value and with every other register, the flags, the memory, the
  process table and the scheduler as they were.
\<close>

theorem syscall_changes_x0_only:
  assumes "esr_ec (esr_el1 s) = EC_SVC" "k mod 4 = 0" "pstate_ok s" "xreg s 8 \<notin> {SYS_RING_SETUP, SYS_RING_ENTER, SYS_EXIT}"
  shows "\<exists>s'. exception ki k s = Inr (Returns, s') \<and> xreg s' 0 = (if xreg s 8 = SYS_ADD then xreg s 0 + xreg s 1 else - 1) \<and>
    (\<forall>r. 0 < r \<and> r < 31 \<longrightarrow> xreg s' r = xreg s r) \<and> sp s' = sp s \<and> pc s' = pc s \<and> sp_el0 s' = sp_el0 s \<and> daif s' = daif s \<and>
    nzcv s' = nzcv s \<and> in_el0 s' = in_el0 s \<and> mem s' = mem s \<and> PROCESSES s' = PROCESSES s \<and> SCHEDULER s' = SCHEDULER s"
proof (cases "xreg s 8 = SYS_ADD")
  case True
  then show ?thesis
    using svc_run(1)[OF assms(1,2) True, of ki] answered_back[OF assms(3), where k = k and v = "xreg s 0 + xreg s 1" and t = "trapped k s"]
    by (intro exI[of _ "answered k (xreg s 0 + xreg s 1) s (trapped k s)"]) (simp add: answered_mem trapped_def)
next
  case False
  let ?t = "printed (unknown_note (xreg s 8)) (trapped k s)"
  show ?thesis
    using False assms svc_run(2)[OF assms(1,2), of ki] answered_back[OF assms(3), where k = k and v = "- 1" and t = ?t]
    by (intro exI[of _ "answered k (- 1) s ?t"]) (simp add: answered_mem, simp add: trapped_def)
qed

section \<open>Instances\<close>

text \<open>Task 0 of three runs at EL0 with a timer interrupt pending.\<close>

definition el0_machine :: trap_state where
  "el0_machine = gic_state.extend (ring_state.extend (proc_state.extend off_proc \<lparr>ring_poller = None\<rparr>)
      \<lparr>gic_regs = (\<lambda>_. 0), gic_bytes = (\<lambda>_. 0), gic_routers = (\<lambda>_. 0), gic_waking = 0, icc_sre = 0, icc_pmr = 0, icc_igrpen1 = 0,
       gic_pending = [TIMER_INTID], gic_active = []\<rparr>)
    \<lparr>vbar_el1 = 0x40080800, elr_el1 = 0, spsr_el1 = 0, sp_el0 = 0x8000100F00, esr_el1 = 0, far_el1 = 0, pc = 0x8000000120,
     nzcv = 0x60000000, in_el0 = True\<rparr>"

lemmas trap_defs = gic_state.defs ring_state.defs proc_state.defs state_defs

lemma el0_machine_simps: "SCHEDULER el0_machine = SCHEDULER three_tasks" "sp el0_machine = 0x1000" "gic_pending el0_machine = [TIMER_INTID]"
  "xreg el0_machine = of_nat" "pc el0_machine = 0x8000000120" "nzcv el0_machine = 0x60000000" "daif el0_machine = daif three_tasks"
  "TICKS el0_machine = 0" "daif three_tasks = 0" "in_el0 el0_machine"
  by (simp_all add: el0_machine_def off_proc_def trap_defs three_tasks_def off_mmu_def off_machine_def mmu_state.defs frames_state.defs)

lemma runnable_schedule:
  assumes "sched_ok (SCHEDULER s)"
  obtains t where "schedule s = Inr ((), t)" "sched_ok (SCHEDULER t)" "same_tasks (tasks (SCHEDULER s)) (tasks (SCHEDULER t))"
    "current (SCHEDULER t) = next_task (tasks (SCHEDULER s)) (current (SCHEDULER s))"
  using schedule_frame[OF assms] schedule_current[OF _ assms] by (auto simp: wp_iff)

lemma stacks_apart: "i < 46 \<Longrightarrow> j < 12 \<Longrightarrow> ctx_addr (0x2060 - 96) j \<noteq> ctx_addr (0x1000 - 368) i"
proof -
  assume "i < 46" "j < 12"
  then have "unat (ctx_addr (0x2060 - 96) j) = 0x2000 + 8 * j" "unat (ctx_addr (0x1000 - 368) i) = 0xE90 + 8 * i"
    by (simp_all add: ctx_addr_def unat_word_ariths unat_of_nat)
  then have "unat (ctx_addr (0x2060 - 96) j) \<noteq> unat (ctx_addr (0x1000 - 368) i)" using \<open>i < 46\<close> by simp
  then show ?thesis by auto
qed

lemma el0_preempted:
  obtains s1 s2 where "trap_entry 9 el0_machine = Inr ((), s1)" "exception_dispatch ki 9 (sp s1) s1 = Inr (Returns, s2)"
    "current (SCHEDULER s2) = 1" "length (tasks (SCHEDULER s2)) = 3" "sp s2 = 0x2060" "task_state (tasks (SCHEDULER s2) ! 0) = Runnable"
proof -
  let ?s1 = "trapped 9 el0_machine"
  let ?t = "?s1\<lparr>gic_pending := [], TICKS := TICKS ?s1 + 1, cntp_tval_el0 := FREQ ?s1 div TICK_HZ,
     SCHEDULER := (SCHEDULER ?s1)\<lparr>tasks := map (woken (TICKS ?s1 + 1)) (tasks (SCHEDULER ?s1))\<rparr>\<rparr>"
  have f: "SCHEDULER ?s1 = SCHEDULER three_tasks" "gic_pending ?s1 = [TIMER_INTID]" by (simp_all add: trapped_def el0_machine_simps)
  have w: "map (woken n) (tasks (SCHEDULER three_tasks)) = tasks (SCHEDULER three_tasks)" for n
    by (simp add: three_tasks_simps sample_task_def woken_def)
  have sch: "SCHEDULER ?t = SCHEDULER three_tasks" by (simp add: f w el0_machine_simps(1))
  have ok: "sched_ok (SCHEDULER ?t)" unfolding sch by (rule three_tasks_ok)
  obtain s2 where s2: "schedule ?t = Inr ((), s2)" "sched_ok (SCHEDULER s2)" "same_tasks (tasks (SCHEDULER ?t)) (tasks (SCHEDULER s2))"
    "current (SCHEDULER s2) = next_task (tasks (SCHEDULER ?t)) (current (SCHEDULER ?t))" by (rule runnable_schedule[OF ok])
  have c: "current (SCHEDULER s2) = 1" unfolding s2(4) sch by (rule three_tasks_next)
  have "current (SCHEDULER s2) \<noteq> current (SCHEDULER ?t)" unfolding c sch by (simp add: three_tasks_simps)
  from schedule_switched(4)[OF s2(1) ok this] have sp: "sp s2 = 0x2060" unfolding c sch by (simp add: three_tasks_simps sample_task_def)
  have st: "length (tasks (SCHEDULER s2)) = 3" "task_state (tasks (SCHEDULER s2) ! 0) = Runnable"
    using same_tasks_length[OF s2(3)] same_tasks_nth(1)[OF s2(3), of 0] unfolding sch by (simp_all add: three_tasks_simps sample_task_def)
  have "exception_dispatch ki 9 (sp ?s1) ?s1 = Inr (Returns, s2)"
    using timer_irq_run[OF f(2), of 9 ki "sp ?s1"] s2(1) by (simp add: k_return_def)
  then show thesis using that[of ?s1 s2] c sp st by (simp add: trap_entry_run)
qed

theorem preempted_task_resumes_witness:
  "\<exists>ki s1 s2 (s4 :: trap_state) s5. trap_entry 9 el0_machine = Inr ((), s1) \<and> exception_dispatch ki 9 (sp s1) s1 = Inr (Returns, s2) \<and>
     current (SCHEDULER s2) = 1 \<and> current (SCHEDULER s4) = 0 \<and> common_restore s4 = Inr ((), s5) \<and>
     xreg s5 7 = 7 \<and> pc s5 = 0x8000000120 \<and> in_el0 s5"
proof -
  obtain s1 s2 where p: "trap_entry 9 el0_machine = Inr ((), s1)" "exception_dispatch ki 9 (sp s1) s1 = Inr (Returns, s2)"
    "current (SCHEDULER s2) = 1" "length (tasks (SCHEDULER s2)) = 3" "sp s2 = 0x2060" "task_state (tasks (SCHEDULER s2) ! 0) = Runnable"
    by (rule el0_preempted)
  define s3 where "s3 = s2\<lparr>SCHEDULER := set_task 2 (\<lambda>t. t\<lparr>task_state := Blocked\<rparr>) (SCHEDULER s2)\<rparr>"
  have st: "task_state (tasks (SCHEDULER s3) ! 0) = Runnable" "task_state (tasks (SCHEDULER s3) ! 2) = Blocked"
    "length (tasks (SCHEDULER s3)) = 3" "current (SCHEDULER s3) = 1" "sp s3 = 0x2060" "kstack s3 = kstack s2"
    "task_sp (tasks (SCHEDULER s3) ! 0) = task_sp (tasks (SCHEDULER s2) ! 0)"
    using p by (simp_all add: s3_def set_task_def)
  have ok3: "sched_ok (SCHEDULER s3)" using st by (simp add: sched_ok_def)
  have nx: "next_task (tasks (SCHEDULER s3)) (current (SCHEDULER s3)) = 0"
    by (simp add: next_task_def st st(2)[unfolded numeral_2_eq_2] upt_rec)
  obtain s4 where s4: "schedule s3 = Inr ((), s4)" "current (SCHEDULER s4) = 0"
    using runnable_schedule[OF ok3] nx by metis
  have ps: "pstate_ok el0_machine" "sched_ok (SCHEDULER el0_machine)"
    using three_tasks_ok(1) by (simp_all add: pstate_ok_def el0_machine_simps)
  have "\<exists>s5. common_restore s4 = Inr ((), s5) \<and> (\<forall>r < 31. xreg s5 r = xreg el0_machine r) \<and> sp s5 = sp el0_machine \<and>
      pc s5 = pc el0_machine \<and> sp_el0 s5 = sp_el0 el0_machine \<and> daif s5 = daif el0_machine \<and>
      nzcv s5 = nzcv el0_machine \<and> in_el0 s5 = in_el0 el0_machine"
    by (rule preempted_task_resumes[OF p(1) _ el0_machine_simps(3) ps(1) p(2) ps(2), where a = 0 and ?s3.0 = s3])
      (use st p s4 ok3 stacks_apart in \<open>simp_all add: el0_machine_simps three_tasks_simps\<close>)
  then obtain s5 where s5: "common_restore s4 = Inr ((), s5)" "\<forall>r < 31. xreg s5 r = xreg el0_machine r" "pc s5 = pc el0_machine"
    "in_el0 s5 = in_el0 el0_machine" by blast
  have "xreg s5 7 = 7" "pc s5 = 0x8000000120" "in_el0 s5" using s5 by (simp_all add: el0_machine_simps)
  then show ?thesis using p(1-3) s4(2) s5(1) by blast
qed


theorem syscall_changes_x0_only_witness:
  "\<exists>ki s'. exception ki 8 (el0_machine\<lparr>esr_el1 := 0x56000000, xreg := of_nat(8 := SYS_ADD)\<rparr>) = Inr (Returns, s') \<and>
     xreg s' 0 = 1 \<and> xreg s' 30 = 30 \<and> pc s' = 0x8000000120"
proof -
  let ?s = "el0_machine\<lparr>esr_el1 := 0x56000000, xreg := of_nat(8 := SYS_ADD)\<rparr>"
  have e: "esr_ec (esr_el1 ?s) = EC_SVC" by (simp add: esr_ec_def EC_SVC_def drop_bit_eq_div)
  have p: "pstate_ok ?s" by (simp add: pstate_ok_def el0_machine_simps)
  have n: "xreg ?s 8 \<notin> {SYS_RING_SETUP, SYS_RING_ENTER, SYS_EXIT}"
    by (simp add: SYS_ADD_def SYS_RING_SETUP_def SYS_RING_ENTER_def SYS_EXIT_def)
  from syscall_changes_x0_only[OF e _ p n, of 8 ki] obtain s' where
    s': "exception ki 8 ?s = Inr (Returns, s')" "xreg s' 0 = xreg ?s 0 + xreg ?s 1" "\<forall>r. 0 < r \<and> r < 31 \<longrightarrow> xreg s' r = xreg ?s r"
      "pc s' = pc ?s" by auto
  have "xreg s' 0 = 1" "xreg s' 30 = 30" "pc s' = 0x8000000120" using s'(2-4) by (simp_all add: el0_machine_simps)
  then show ?thesis using s'(1) by blast
qed

end
