(* ===== verification/Uring.thy ===== *)
theory Uring
  imports Ring "HOL-Library.Monad_Syntax"
begin

unbundle bit_operations_syntax

text \<open>
  The user side: \<^verbatim>\<open>user/src/uring.rs\<close>, the runtime library \<^verbatim>\<open>user/src/lib.rs\<close> and the programs
  \<^verbatim>\<open>jsh\<close> and \<^verbatim>\<open>echo\<close>. A program works on the memory it sees. The kernel runs whenever the
  program traps or spins: what it does to that memory in the meantime is a parameter, given
  for each point in time. A computation is a partial function on the program's state, \<open>None\<close>
  where it never returns.
\<close>

section \<open>Programs\<close>

record user_state =
  u_mem :: memory
  u_time :: nat
  RING_VA :: usize
  STASH :: "(u64 \<times> u64) list"
  NEXT_TAG :: u64

text \<open>
  \<open>uk_enter t n m\<close>: the memory after the trap \<^verbatim>\<open>SYS_RING_ENTER(n)\<close> at time \<open>t\<close>;
  \<open>uk_run t m\<close>: after a turn of the spin loop. \<open>uk_setup\<close> is the value \<^verbatim>\<open>SYS_RING_SETUP\<close>
  returns, \<open>uk_lit\<close> where the program keeps a literal, and the last three are the
  addresses of the locals it passes on: \<^verbatim>\<open>byte\<close> of \<^verbatim>\<open>read_byte\<close> and of \<^verbatim>\<open>read_line\<close>, and
  \<^verbatim>\<open>buf\<close> of \<^verbatim>\<open>print_dec\<close>.
\<close>

record user_kernel =
  uk_enter :: "nat \<Rightarrow> u64 \<Rightarrow> memory \<Rightarrow> memory"
  uk_run :: "nat \<Rightarrow> memory \<Rightarrow> memory"
  uk_setup :: u64
  uk_lit :: "u8 list \<Rightarrow> usize"
  uk_read_byte :: usize
  uk_line_byte :: usize
  uk_dec_buf :: usize

type_synonym 'v ufn = "user_state \<Rightarrow> ('v \<times> user_state) option"

definition u_return :: "'v \<Rightarrow> 'v ufn" where
  "u_return x = (\<lambda>u. Some (x, u))"

definition u_bind :: "'v ufn \<Rightarrow> ('v \<Rightarrow> 'w ufn) \<Rightarrow> 'w ufn" where
  "u_bind m f = (\<lambda>u. Option.bind (m u) (\<lambda>(x, u'). f x u'))"

definition u_modify :: "(user_state \<Rightarrow> user_state) \<Rightarrow> unit ufn" where
  "u_modify f = (\<lambda>u. Some ((), f u))"

section \<open>The ring\<close>

definition uring_page :: "user_state \<Rightarrow> usize" where
  "uring_page u = RING_VA u"

definition uring_setup :: "user_kernel \<Rightarrow> unit ufn" where
  "uring_setup K = u_modify (\<lambda>u. u\<lparr>RING_VA := uk_setup K\<rparr>)"

definition push_sqe :: "usize \<Rightarrow> Sqe \<Rightarrow> memory \<Rightarrow> memory" where
  "push_sqe pg e m = (let tail = rp_sq_tail m pg in
     set_sq_tail pg (tail + 1) (store_sqe pg (ring_slot tail) e m))"

definition sqe :: "u64 \<Rightarrow> u64 \<Rightarrow> u64 \<Rightarrow> u64 \<Rightarrow> unit ufn" where
  "sqe op a0 a1 t = u_modify (\<lambda>u. u\<lparr>u_mem := push_sqe (uring_page u)
     \<lparr>sqe_opcode = op, sqe_arg0 = a0, sqe_arg1 = a1, sqe_user_data = t\<rparr> (u_mem u)\<rparr>)"

definition uring_enter :: "user_kernel \<Rightarrow> u64 \<Rightarrow> unit ufn" where
  "uring_enter K min_complete = u_modify (\<lambda>u. u\<lparr>u_mem := uk_enter K (u_time u) min_complete (u_mem u), u_time := Suc (u_time u)\<rparr>)"

definition spin_turn :: "user_kernel \<Rightarrow> unit ufn" where
  "spin_turn K = u_modify (\<lambda>u. u\<lparr>u_mem := uk_run K (u_time u) (u_mem u), u_time := Suc (u_time u)\<rparr>)"

definition submit :: "user_kernel \<Rightarrow> unit ufn" where
  "submit K = (\<lambda>u. if rp_flags (u_mem u) (uring_page u) AND NEED_WAKEUP \<noteq> 0 then uring_enter K 0 u else Some ((), u))"

text \<open>The first loop of \<^verbatim>\<open>reap\<close>: the result stashed under a tag, its slot emptied.\<close>

fun take_stash :: "u64 \<Rightarrow> (u64 \<times> u64) list \<Rightarrow> (i64 \<times> (u64 \<times> u64) list) option" where
  "take_stash t [] = None"
| "take_stash t ((k, r) # st) =
     (if t \<noteq> 0 \<and> k = t then Some (r, (0, r) # st)
      else map_option (\<lambda>(v, st'). (v, (k, r) # st')) (take_stash t st))"

text \<open>The last loop: the first empty slot takes the completion; with none, it is dropped.\<close>

fun put_stash :: "u64 \<Rightarrow> i64 \<Rightarrow> (u64 \<times> u64) list \<Rightarrow> (u64 \<times> u64) list" where
  "put_stash got res [] = []"
| "put_stash got res ((k, r) # st) = (if k = 0 then (got, res) # st else (k, r) # put_stash got res st)"

text \<open>Taking the completion at the head of the queue, where there is one.\<close>

definition pop_cqe :: "usize \<Rightarrow> memory \<Rightarrow> Cqe option \<times> memory" where
  "pop_cqe pg m = (let head = rp_cq_head m pg in
     if head = rp_cq_tail m pg then (None, m)
     else (Some (load_cqe m pg (ring_slot head)), set_cq_head pg (head + 1) m))"

partial_function (option) reap_loop :: "user_kernel \<Rightarrow> u64 \<Rightarrow> bool \<Rightarrow> user_state \<Rightarrow> (i64 \<times> user_state) option" where
  "reap_loop K t block u =
     (case pop_cqe (uring_page u) (u_mem u) of
        (None, _) \<Rightarrow> Option.bind (if block then uring_enter K 1 u else spin_turn K u) (\<lambda>(_, u'). reap_loop K t block u')
      | (Some c, m) \<Rightarrow>
          if cqe_user_data c = t then Some (cqe_result c, u\<lparr>u_mem := m\<rparr>)
          else reap_loop K t block (u\<lparr>u_mem := m, STASH := put_stash (cqe_user_data c) (cqe_result c) (STASH u)\<rparr>))"

definition reap :: "user_kernel \<Rightarrow> u64 \<Rightarrow> bool \<Rightarrow> i64 ufn" where
  "reap K t block = (\<lambda>u. case take_stash t (STASH u) of
     Some (r, st) \<Rightarrow> Some (r, u\<lparr>STASH := st\<rparr>)
   | None \<Rightarrow> reap_loop K t block u)"

definition wait :: "user_kernel \<Rightarrow> u64 \<Rightarrow> i64 ufn" where
  "wait K t = reap K t True"

definition wait_spin :: "user_kernel \<Rightarrow> u64 \<Rightarrow> i64 ufn" where
  "wait_spin K t = reap K t False"

section \<open>The runtime library\<close>

definition MAX_LINE :: nat where "MAX_LINE = 128"

definition tag :: "u64 ufn" where
  "tag = (\<lambda>u. Some (NEXT_TAG u, u\<lparr>NEXT_TAG := NEXT_TAG u + 1\<rparr>))"

text \<open>
  One operation through the ring, the shape of \<^verbatim>\<open>print_bytes\<close>, \<^verbatim>\<open>spawn\<close> and \<^verbatim>\<open>wait_child\<close>:
  a fresh tag, the submission, and the wait for its completion.
\<close>

definition ring_call :: "user_kernel \<Rightarrow> u64 \<Rightarrow> u64 \<Rightarrow> u64 \<Rightarrow> i64 ufn" where
  "ring_call K op a0 a1 =
     u_bind tag (\<lambda>t.
     u_bind (sqe op a0 a1 t) (\<lambda>_.
     u_bind (submit K) (\<lambda>_.
     wait K t)))"

text \<open>A slice of bytes is its address and its length.\<close>

definition print_bytes :: "user_kernel \<Rightarrow> usize \<Rightarrow> nat \<Rightarrow> unit ufn" where
  "print_bytes K ptr len = u_bind (ring_call K OP_PRINT ptr (of_nat len)) (\<lambda>_. u_return ())"

definition user_print :: "user_kernel \<Rightarrow> u8 list \<Rightarrow> unit ufn" where
  "user_print K s = print_bytes K (uk_lit K s) (length s)"

definition read_byte :: "user_kernel \<Rightarrow> u8 ufn" where
  "read_byte K =
     u_bind (u_modify (\<lambda>u. u\<lparr>u_mem := st8 (u_mem u) (uk_read_byte K) 0\<rparr>)) (\<lambda>_.
     u_bind (ring_call K OP_READ (uk_read_byte K) 1) (\<lambda>_ u.
     Some (ld8 (u_mem u) (uk_read_byte K), u)))"

text \<open>
  What one byte does: end the line, rub out the last glyph, append a glyph, or nothing.
\<close>

datatype edit = Enter | Rubout | Glyph | Ignored

definition edit_of :: "u8 \<Rightarrow> nat \<Rightarrow> edit" where
  "edit_of byte len =
     (if byte = 0x0D \<or> byte = 0x0A then Enter
      else if byte = 0x7F \<or> byte = 0x08 then (if 0 < len then Rubout else Ignored)
      else if 0x20 \<le> byte \<and> byte \<le> 0x7E then (if len < MAX_LINE then Glyph else Ignored)
      else Ignored)"

text \<open>The store \<^verbatim>\<open>line[len] = byte\<close>; out of bounds it panics, which for a program is an exit.\<close>

definition put_glyph :: "u8 list \<Rightarrow> nat \<Rightarrow> u8 \<Rightarrow> u8 list ufn" where
  "put_glyph line len byte = (\<lambda>u. if len < length line then Some (line[len := byte], u) else None)"

definition echo_glyph :: "user_kernel \<Rightarrow> u8 \<Rightarrow> unit ufn" where
  "echo_glyph K byte =
     u_bind (u_modify (\<lambda>u. u\<lparr>u_mem := st8 (u_mem u) (uk_line_byte K) byte\<rparr>)) (\<lambda>_.
     print_bytes K (uk_line_byte K) 1)"

partial_function (option) read_line_loop :: "user_kernel \<Rightarrow> u8 list \<Rightarrow> nat \<Rightarrow> user_state \<Rightarrow> ((u8 list \<times> nat) \<times> user_state) option" where
  "read_line_loop K line len u =
     Option.bind (read_byte K u) (\<lambda>(byte, u1).
     case edit_of byte len of
       Enter \<Rightarrow> Option.bind (user_print K [0x0A] u1) (\<lambda>(_, u2). Some ((line, len), u2))
     | Rubout \<Rightarrow> Option.bind (user_print K [0x08, 0x20, 0x08] u1) (\<lambda>(_, u2). read_line_loop K line (len - 1) u2)
     | Glyph \<Rightarrow> Option.bind (put_glyph line len byte u1) (\<lambda>(line', u2).
         Option.bind (echo_glyph K byte u2) (\<lambda>(_, u3). read_line_loop K line' (len + 1) u3))
     | Ignored \<Rightarrow> read_line_loop K line len u1)"

definition read_line :: "user_kernel \<Rightarrow> u8 list \<Rightarrow> (u8 list \<times> nat) ufn" where
  "read_line K line = read_line_loop K line 0"

definition user_spawn :: "user_kernel \<Rightarrow> u8 list \<Rightarrow> i64 ufn" where
  "user_spawn K name = ring_call K OP_SPAWN (uk_lit K name) (of_nat (length name))"

definition wait_child :: "user_kernel \<Rightarrow> i64 \<Rightarrow> i64 ufn" where
  "wait_child K handle = ring_call K OP_WAIT handle 0"

text \<open>
  The digits of \<^verbatim>\<open>print_dec\<close>, from the end of the buffer: the decrement of the index panics
  below zero and the store panics out of bounds.
\<close>

definition put_digit :: "usize \<Rightarrow> u8 \<Rightarrow> (u8 list, usize) kfn" where
  "put_digit i b =
     k_bind (k_sub i 1) (\<lambda>j.
     k_bind (k_gets id) (\<lambda>buf.
     k_bind (k_index buf (unat j)) (\<lambda>_.
     k_bind (k_modify (\<lambda>buf. buf[unat j := b])) (\<lambda>_.
     k_return j))))"

function print_dec_loop :: "u64 \<Rightarrow> usize \<Rightarrow> (u8 list, usize) kfn" where
  "print_dec_loop v i =
     k_bind (put_digit i (0x30 + ucast (v mod 10))) (\<lambda>j.
     if v div 10 = 0 then k_return j else print_dec_loop (v div 10) j)"
  by pat_completeness auto
termination
proof (relation "measure (\<lambda>(v, i). unat v)")
  show "wf (measure (\<lambda>(v, i). unat (v :: u64)))" by simp
  fix v :: u64 and i j :: usize
  assume "v div 10 \<noteq> 0"
  then have "unat v div 10 \<noteq> 0" by (simp add: word_unat_eq_iff unat_div)
  then show "((v div 10, j), v, i) \<in> measure (\<lambda>(v, i). unat v)" by (simp add: unat_div)
qed

declare print_dec_loop.simps [simp del]

definition print_dec_buf :: "i64 \<Rightarrow> (u8 list, usize) kfn" where
  "print_dec_buf n =
     (let negative = n <s 0; v = (if negative then NOT n + 1 else n) in
      k_bind (print_dec_loop v 20) (\<lambda>i.
      if negative then put_digit i 0x2D else k_return i))"

text \<open>A panic of a program is \<^verbatim>\<open>exit(1)\<close>, which does not return.\<close>

definition print_dec :: "user_kernel \<Rightarrow> i64 \<Rightarrow> unit ufn" where
  "print_dec K n = (\<lambda>u. case print_dec_buf n (replicate 20 0) of
     Inl _ \<Rightarrow> None
   | Inr (i, buf) \<Rightarrow> print_bytes K (uk_dec_buf K + i) (length (drop (unat i) buf)) u)"

section \<open>The programs\<close>

text \<open>How a program, or a part of it, ends: it goes on, exits, or writes to its own code.\<close>

datatype prog_end = Continues | Exits u64 | Crashes usize

text \<open>\<^verbatim>\<open>exit(code: i32)\<close> passes \<^verbatim>\<open>code as u64\<close>, sign-extended.\<close>

definition user_exit :: "32 word \<Rightarrow> prog_end" where
  "user_exit code = Exits (scast code)"

definition echo_start :: "user_kernel \<Rightarrow> prog_end ufn" where
  "echo_start K =
     u_bind (uring_setup K) (\<lambda>_.
     u_bind (user_print K (ascii ''echo: hello from a second program'' @ [0x0A])) (\<lambda>_.
     u_return (user_exit 0)))"

definition spam_line :: "nat \<Rightarrow> u8 list" where
  "spam_line i = ascii ''spam '' @ fmt_dec i @ [0x0A]"

definition spam_submit :: "user_kernel \<Rightarrow> nat \<Rightarrow> u64 ufn" where
  "spam_submit K i =
     u_bind tag (\<lambda>t.
     u_bind (sqe OP_PRINT (uk_lit K (spam_line i)) (of_nat (length (spam_line i))) t) (\<lambda>_.
     u_bind (submit K) (\<lambda>_.
     u_return t)))"

definition spam :: "user_kernel \<Rightarrow> unit ufn" where
  "spam K =
     u_bind (spam_submit K 1) (\<lambda>t1.
     u_bind (spam_submit K 2) (\<lambda>t2.
     u_bind (spam_submit K 3) (\<lambda>t3.
     u_bind (wait_spin K t1) (\<lambda>_.
     u_bind (wait_spin K t2) (\<lambda>_.
     u_bind (wait_spin K t3) (\<lambda>_.
     u_return ()))))))"

definition then_continue :: "unit ufn \<Rightarrow> prog_end ufn" where
  "then_continue m = u_bind m (\<lambda>_. u_return Continues)"

text \<open>\<open>line\<close> is the address of the line buffer, \<open>bs\<close> the bytes of the entered line.\<close>

definition jsh_dispatch :: "user_kernel \<Rightarrow> usize \<Rightarrow> u8 list \<Rightarrow> prog_end ufn" where
  "jsh_dispatch K line bs =
     (if bs = [] then u_return Continues
      else if bs = ascii ''exit'' then u_return (user_exit 0)
      else if bs = ascii ''help'' then then_continue (user_print K (ascii ''commands: help spam spawn crash exit'' @ [0x0A]))
      else if bs = ascii ''spam'' then then_continue (spam K)
      else if bs = ascii ''spawn'' then
        u_bind (user_spawn K (ascii ''echo'')) (\<lambda>handle.
        if handle <s 0 then then_continue (user_print K (ascii ''spawn failed'' @ [0x0A]))
        else
          u_bind (wait_child K handle) (\<lambda>code.
          u_bind (user_print K (ascii ''echo exited: '')) (\<lambda>_.
          u_bind (print_dec K code) (\<lambda>_.
          then_continue (user_print K [0x0A])))))
      else if bs = ascii ''crash'' then u_return (Crashes USER_BASE)
      else
        u_bind (user_print K (ascii ''unknown command: '')) (\<lambda>_.
        u_bind (print_bytes K line (length bs)) (\<lambda>_.
        then_continue (user_print K [0x0A]))))"

definition jsh_banner :: "u8 list" where
  "jsh_banner = ascii (''jsh: type '' @ [CHR 0x27] @ ''help'' @ [CHR 0x27]) @ [0x0A]"

definition jsh_start :: "user_kernel \<Rightarrow> unit ufn" where
  "jsh_start K =
     u_bind (uring_setup K) (\<lambda>_.
     u_bind tag (\<lambda>t1.
     u_bind tag (\<lambda>t2.
     u_bind (sqe OP_NOP 0 0 t1) (\<lambda>_.
     u_bind (sqe OP_PRINT (uk_lit K jsh_banner) (of_nat (length jsh_banner)) t2) (\<lambda>_.
     u_bind (submit K) (\<lambda>_.
     u_bind (wait K t1) (\<lambda>_.
     u_bind (wait K t2) (\<lambda>_.
     u_return ()))))))))"

text \<open>One turn of the loop of \<^verbatim>\<open>_start\<close>: the buffer is kept from turn to turn.\<close>

definition jsh_turn :: "user_kernel \<Rightarrow> usize \<Rightarrow> u8 list \<Rightarrow> (prog_end \<times> u8 list) ufn" where
  "jsh_turn K line buf =
     u_bind (user_print K (ascii ''jsh> '')) (\<lambda>_.
     u_bind (read_line K buf) (\<lambda>(buf', len).
     u_bind (jsh_dispatch K line (take len buf')) (\<lambda>r.
     u_return (r, buf'))))"

end
