(* ===== verification/Uring_Properties.thy ===== *)
theory Uring_Properties
  imports Uring Ring_Queues "HOL-Library.Multiset"
begin

unbundle bit_operations_syntax

text \<open>
  Properties of the user side: the completion queue as kernel and program use it together
  refines a bounded queue, waiting for one completion keeps the others, and the decimal
  printer stays inside its buffer and prints what it is given.
\<close>

section \<open>The completion queue\<close>

text \<open>The kernel's posting and the program's reaping, on the page both share.\<close>

definition kernel_post :: "usize \<Rightarrow> Cqe \<Rightarrow> 'a proc_state_scheme \<Rightarrow> 'a proc_state_scheme" where
  "kernel_post pa c s = (case complete pa (cqe_user_data c) (cqe_result c) s of Inl _ \<Rightarrow> s | Inr (_, s') \<Rightarrow> s')"

definition user_reap :: "usize \<Rightarrow> 'a proc_state_scheme \<Rightarrow> Cqe option \<times> 'a proc_state_scheme" where
  "user_reap pa s = (case pop_cqe pa (mem s) of (r, m) \<Rightarrow> (r, s\<lparr>mem := m\<rparr>))"

lemma kernel_post_eq: "kernel_post pa c s = posted pa (cqe_user_data c) (cqe_result c) s"
  by (simp add: kernel_post_def complete_run)

lemma pop_cqe_content:
  assumes "page_aligned pa"
  shows "fst (pop_cqe pa m) = fst (q_poll (cq_content m pa))"
    "cq_content (snd (pop_cqe pa m)) pa = snd (q_poll (cq_content m pa))"
proof -
  have nil: "ring_content f h h = []" for f :: "nat \<Rightarrow> Cqe" and h by (simp add: ring_content_empty)
  show "fst (pop_cqe pa m) = fst (q_poll (cq_content m pa))"
    using ring_content_pop[of "rp_cq_head m pa" "rp_cq_tail m pa" "load_cqe m pa"]
    by (cases "rp_cq_head m pa = rp_cq_tail m pa") (simp_all add: pop_cqe_def cq_content_def Let_def nil)
  have "ring_content (load_cqe (set_cq_head pa v m) pa) h t = ring_content (load_cqe m pa) h t" for v h t
    using assms by (intro ring_content_cong) simp
  then show "cq_content (snd (pop_cqe pa m)) pa = snd (q_poll (cq_content m pa))"
    using assms ring_content_pop[of "rp_cq_head m pa" "rp_cq_tail m pa" "load_cqe m pa"]
    by (cases "rp_cq_head m pa = rp_cq_tail m pa") (simp_all add: pop_cqe_def cq_content_def Let_def nil)
qed

lemma cq_ok_length: "cq_ok pa m \<longleftrightarrow> page_aligned pa \<and> length (cq_content m pa) \<le> 16"
  by (simp add: cq_ok_def cq_content_def)

interpretation cq_ring: bounded_fifo "\<lambda>s. cq_ok pa (mem s)" "\<lambda>s. cq_content (mem s) pa" 16 "kernel_post pa" "user_reap pa" for pa
proof
  fix s :: "'a proc_state_scheme" and c assume ok: "cq_ok pa (mem s)"
  then have al: "page_aligned pa" by (simp add: cq_ok_def)
  show "length (cq_content (mem s) pa) \<le> 16" using ok by (simp add: cq_ok_length)
  show "cq_ok pa (mem (kernel_post pa c s)) \<and> cq_content (mem (kernel_post pa c s)) pa = q_offer 16 c (cq_content (mem s) pa)"
    using ok posted_content[OF al, of "cqe_user_data c" "cqe_result c" s] by (simp add: kernel_post_eq cq_ok_length q_offer_def)
  show "cq_ok pa (mem (snd (user_reap pa s))) \<and> fst (user_reap pa s) = fst (q_poll (cq_content (mem s) pa)) \<and>
      cq_content (mem (snd (user_reap pa s))) pa = snd (q_poll (cq_content (mem s) pa))"
    using ok pop_cqe_content[OF al, of "mem s"] by (cases "cq_content (mem s) pa") (auto simp: user_reap_def cq_ok_length split: prod.splits)
qed

text \<open>
  C7. The completion queue, posted to by the kernel and reaped by the program on the page they
  share, refines a queue of sixteen entries: every sequence of posts and reaps gives the results
  the list gives, and as long as it does not overflow nothing is lost, duplicated or reordered.
\<close>

theorem completion_queue_refines:
  assumes "page_aligned pa" "length (cq_content (mem s) pa) \<le> 16"
  shows "fst (fifo_run (kernel_post pa) (user_reap pa) ops s) = fst (q_run 16 ops (cq_content (mem s) pa)) \<and>
    cq_content (mem (snd (fifo_run (kernel_post pa) (user_reap pa) ops s))) pa = snd (q_run 16 ops (cq_content (mem s) pa)) \<and>
    (length (cq_content (mem s) pa) + length (offered ops) \<le> 16 \<longrightarrow>
      polled (fst (fifo_run (kernel_post pa) (user_reap pa) ops s)) @
        cq_content (mem (snd (fifo_run (kernel_post pa) (user_reap pa) ops s))) pa = cq_content (mem s) pa @ offered ops)"
proof -
  have ok: "cq_ok pa (mem s)" using assms by (simp add: cq_ok_length)
  show ?thesis using cq_ring.run_refines[OF ok, of ops] cq_ring.run_conserves[OF ok, of ops] by blast
qed

theorem completion_queue_refines_witness:
  "fst (fifo_run (kernel_post 0x40100000) (user_reap 0x40100000)
     [Poll, Offer \<lparr>cqe_user_data = 7, cqe_result = 1\<rparr>, Offer \<lparr>cqe_user_data = 8, cqe_result = - 1\<rparr>, Poll] (off_proc\<lparr>mem := \<lambda>_. 0\<rparr>)) =
   [None, Some \<lparr>cqe_user_data = 7, cqe_result = 1\<rparr>]"
  using completion_queue_refines[of "0x40100000" "off_proc\<lparr>mem := \<lambda>_. 0\<rparr>"
    "[Poll, Offer \<lparr>cqe_user_data = 7, cqe_result = 1\<rparr>, Offer \<lparr>cqe_user_data = 8, cqe_result = - 1\<rparr>, Poll]"]
  by (simp add: zero_page_queue page_aligned_def q_offer_def)

section \<open>The stash\<close>

definition stash_entries :: "(u64 \<times> u64) list \<Rightarrow> (u64 \<times> u64) list" where
  "stash_entries st = filter (\<lambda>e. fst e \<noteq> 0) st"

definition stash_free :: "(u64 \<times> u64) list \<Rightarrow> nat" where
  "stash_free st = length (filter (\<lambda>e. fst e = 0) st)"

lemma put_stash_entries:
  "0 < stash_free st \<Longrightarrow> k \<noteq> 0 \<Longrightarrow> mset (stash_entries (put_stash k r st)) = add_mset (k, r) (mset (stash_entries st)) \<and>
     stash_free (put_stash k r st) = stash_free st - 1"
  by (induction k r st rule: put_stash.induct) (auto simp: stash_entries_def stash_free_def)

lemma take_stash_None: "take_stash t st = None \<longleftrightarrow> t = 0 \<or> t \<notin> fst ` set (stash_entries st)"
  by (induction t st rule: take_stash.induct) (auto simp: stash_entries_def)

lemma take_stash_Some:
  "(t, r) \<in> set (stash_entries st) \<Longrightarrow> distinct (map fst (stash_entries st)) \<Longrightarrow> \<exists>st'. take_stash t st = Some (r, st')"
proof (induction t st rule: take_stash.induct)
  case (2 t k v st)
  then show ?case by (cases "k = 0") (force simp: stash_entries_def)+
qed (simp add: stash_entries_def)

definition cqe_pair :: "Cqe \<Rightarrow> u64 \<times> u64" where
  "cqe_pair c = (cqe_user_data c, cqe_result c)"

lemma reap_loop_finds:
  assumes "page_aligned (RING_VA u)" "cq_content (u_mem u) (RING_VA u) = pre @ c # post" "cqe_user_data c = t"
    and "\<forall>x \<in> set pre. cqe_user_data x \<noteq> t \<and> cqe_user_data x \<noteq> 0" "length pre \<le> stash_free (STASH u)"
  shows "\<exists>u'. reap_loop K t block u = Some (cqe_result c, u') \<and> RING_VA u' = RING_VA u \<and>
     cq_content (u_mem u') (RING_VA u) = post \<and>
     mset (stash_entries (STASH u')) = mset (stash_entries (STASH u)) + mset (map cqe_pair pre)"
  using assms
proof (induction pre arbitrary: u)
  case Nil
  obtain r m where p: "pop_cqe (RING_VA u) (u_mem u) = (r, m)" by fastforce
  with pop_cqe_content[OF Nil.prems(1), of "u_mem u"] Nil.prems(2) have "r = Some c" "cq_content m (RING_VA u) = post" by auto
  with p Nil.prems(3) show ?case by (subst reap_loop.simps) (simp add: uring_page_def)
next
  case (Cons x pre)
  obtain r m where p: "pop_cqe (RING_VA u) (u_mem u) = (r, m)" by fastforce
  with pop_cqe_content[OF Cons.prems(1), of "u_mem u"] Cons.prems(2)
  have r: "r = Some x" "cq_content m (RING_VA u) = pre @ c # post" by auto
  let ?u = "u\<lparr>u_mem := m, STASH := put_stash (cqe_user_data x) (cqe_result x) (STASH u)\<rparr>"
  have st: "mset (stash_entries (STASH ?u)) = add_mset (cqe_pair x) (mset (stash_entries (STASH u)))"
    "stash_free (STASH ?u) = stash_free (STASH u) - 1"
    using put_stash_entries[of "STASH u" "cqe_user_data x" "cqe_result x"] Cons.prems(4,5) by (auto simp: cqe_pair_def)
  have "reap_loop K t block u = reap_loop K t block ?u"
    using p r(1) Cons.prems(4) by (subst reap_loop.simps) (simp add: uring_page_def)
  moreover have pr: "page_aligned (RING_VA ?u)" "cq_content (u_mem ?u) (RING_VA ?u) = pre @ c # post"
    "\<forall>x \<in> set pre. cqe_user_data x \<noteq> t \<and> cqe_user_data x \<noteq> 0" "length pre \<le> stash_free (STASH ?u)"
    using Cons.prems r(2) st(2) by auto
  from Cons.IH[OF pr(1,2) Cons.prems(3) pr(3,4)] obtain u' where "reap_loop K t block ?u = Some (cqe_result c, u')" "RING_VA u' = RING_VA u"
     "cq_content (u_mem u') (RING_VA u) = post"
     "mset (stash_entries (STASH u')) = mset (stash_entries (STASH ?u)) + mset (map cqe_pair pre)" by auto
  ultimately show ?case using st(1) by auto
qed

text \<open>
  C37. Waiting for a completion that is in the queue returns its result and leaves the ones
  behind it; the ones before it go to the stash, provided it has room for them, and a later wait
  for any of them returns its result without touching the queue.
\<close>

theorem reap_keeps_other_completions:
  assumes "page_aligned (RING_VA u)" "cq_content (u_mem u) (RING_VA u) = pre @ c # post" "cqe_user_data c \<noteq> 0"
    and "0 \<notin> cqe_user_data ` set pre" "length pre \<le> stash_free (STASH u)"
    and "distinct (map fst (stash_entries (STASH u)) @ map cqe_user_data (pre @ [c]))"
  shows "\<exists>u'. wait K (cqe_user_data c) u = Some (cqe_result c, u') \<and> cq_content (u_mem u') (RING_VA u) = post \<and>
     mset (stash_entries (STASH u')) = mset (stash_entries (STASH u)) + mset (map cqe_pair pre) \<and>
     (\<forall>x \<in> set pre. \<exists>u''. wait K (cqe_user_data x) u' = Some (cqe_result x, u'') \<and> u_mem u'' = u_mem u')"
proof -
  let ?t = "cqe_user_data c"
  have "take_stash ?t (STASH u) = None" using assms(6) by (auto simp: take_stash_None)
  then have w: "wait K ?t u = reap_loop K ?t True u" by (simp add: wait_def reap_def)
  have "\<forall>x \<in> set pre. cqe_user_data x \<noteq> ?t \<and> cqe_user_data x \<noteq> 0"
  proof -
    have "?t \<notin> cqe_user_data ` set pre" using assms(6) by simp
    then show ?thesis using assms(4) by (metis imageI)
  qed
  from reap_loop_finds[OF assms(1,2) refl this assms(5), of K True] obtain u' where
    u': "reap_loop K ?t True u = Some (cqe_result c, u')" "cq_content (u_mem u') (RING_VA u) = post"
    "mset (stash_entries (STASH u')) = mset (stash_entries (STASH u)) + mset (map cqe_pair pre)"
    by blast
  have d: "distinct (map fst (stash_entries (STASH u')))"
  proof -
    have "mset (map fst (stash_entries (STASH u'))) = image_mset fst (mset (stash_entries (STASH u) @ map cqe_pair pre))"
      using u'(3) by simp
    also have "\<dots> = mset (map fst (stash_entries (STASH u)) @ map cqe_user_data pre)"
      by (simp add: cqe_pair_def image_mset.compositionality comp_def)
    finally have "distinct (map fst (stash_entries (STASH u'))) = distinct (map fst (stash_entries (STASH u)) @ map cqe_user_data pre)"
      by (rule mset_eq_imp_distinct_iff)
    then show ?thesis using assms(6) by simp
  qed
  have "\<exists>u''. wait K (cqe_user_data x) u' = Some (cqe_result x, u'') \<and> u_mem u'' = u_mem u'" if "x \<in> set pre" for x
  proof -
    have "cqe_pair x \<in> set (stash_entries (STASH u'))"
      using that arg_cong[OF u'(3), of set_mset] by auto
    then obtain st where "take_stash (cqe_user_data x) (STASH u') = Some (cqe_result x, st)"
      using take_stash_Some[OF _ d, of "cqe_user_data x" "cqe_result x"] by (auto simp: cqe_pair_def)
    then show ?thesis by (simp add: wait_def reap_def)
  qed
  then show ?thesis using w u' by auto
qed


definition idle_kernel :: user_kernel where
  "idle_kernel = \<lparr>uk_enter = (\<lambda>_ _ m. m), uk_run = (\<lambda>_ m. m), uk_setup = 0x8000300000, uk_lit = (\<lambda>_. 0x8000000000),
     uk_read_byte = 0x8000100F00, uk_line_byte = 0x8000100F01, uk_dec_buf = 0x8000100F08\<rparr>"

definition busy_ring :: user_state where
  "busy_ring = \<lparr>u_mem = cq_push 0x8000300000 \<lparr>cqe_user_data = 6, cqe_result = 2\<rparr>
      (cq_push 0x8000300000 \<lparr>cqe_user_data = 5, cqe_result = 0\<rparr> (\<lambda>_. 0)),
     u_time = 0, RING_VA = 0x8000300000, STASH = replicate 4 (0, 0), NEXT_TAG = 7\<rparr>"

lemma busy_ring_content: "cq_content (u_mem busy_ring) 0x8000300000 =
    [\<lparr>cqe_user_data = 5, cqe_result = 0\<rparr>] @ \<lparr>cqe_user_data = 6, cqe_result = 2\<rparr> # []"
proof -
  have al: "page_aligned (0x8000300000 :: usize)" by (simp add: page_aligned_def)
  show ?thesis
    by (simp add: busy_ring_def cq_push_content[OF al] cq_full_iff zero_page_queue)
qed

theorem reap_keeps_other_completions_witness:
  "\<exists>u'. wait idle_kernel 6 busy_ring = Some (2, u') \<and> (\<exists>u''. wait idle_kernel 5 u' = Some (0, u''))"
proof -
  let ?a = "\<lparr>cqe_user_data = 5, cqe_result = 0\<rparr>" and ?c = "\<lparr>cqe_user_data = 6, cqe_result = 2\<rparr>"
  have f: "RING_VA busy_ring = 0x8000300000" "STASH busy_ring = replicate 4 (0, 0)" by (simp_all add: busy_ring_def)
  have st: "stash_free (replicate 4 (0, 0)) = 4" "stash_entries (replicate 4 (0, 0)) = []"
    by (simp_all add: stash_free_def stash_entries_def)
  have "\<exists>u'. wait idle_kernel (cqe_user_data ?c) busy_ring = Some (cqe_result ?c, u') \<and>
      cq_content (u_mem u') (RING_VA busy_ring) = [] \<and>
      mset (stash_entries (STASH u')) = mset (stash_entries (STASH busy_ring)) + mset (map cqe_pair [?a]) \<and>
      (\<forall>x \<in> set [?a]. \<exists>u''. wait idle_kernel (cqe_user_data x) u' = Some (cqe_result x, u'') \<and> u_mem u'' = u_mem u')"
    by (rule reap_keeps_other_completions) (simp_all add: f st busy_ring_content page_aligned_def)
  then show ?thesis by auto
qed

section \<open>Decimal output\<close>

lemma fmt_dec_length: "n < 10 ^ Suc k \<Longrightarrow> length (fmt_dec n) \<le> Suc k"
proof (induction k arbitrary: n)
  case 0
  then show ?case by (simp add: fmt_dec.simps)
next
  case (Suc k)
  then have "n div 10 < 10 ^ Suc k" by (simp add: div_less_iff_less_mult mult.commute)
  from Suc.IH[OF this] show ?case by (subst fmt_dec.simps) simp
qed

lemma fmt_dec_pos: "0 < length (fmt_dec n)"
  by (subst fmt_dec.simps) simp

lemma put_digit_run:
  assumes "0 < unat i" "unat i \<le> length buf"
  shows "put_digit i b buf = Inr (i - 1, buf[unat i - 1 := b])" "unat (i - 1) = unat i - 1"
proof -
  have i: "1 \<le> i" using assms(1) by (simp add: word_le_nat_alt)
  then show u: "unat (i - 1) = unat i - 1" by (simp add: unat_sub)
  show "put_digit i b buf = Inr (i - 1, buf[unat i - 1 := b])"
    using i u assms by (simp add: put_digit_def run_simps)
qed

lemma digit_word: "0x30 + ucast (v mod 10) = 0x30 + (of_nat (unat v mod 10) :: u8)" for v :: u64
  by (simp add: word_unat_eq_iff unsigned_ucast_eq unat_mod unat_word_ariths unat_of_nat take_bit_eq_mod)

lemma print_dec_loop_run:
  assumes "length (fmt_dec (unat v)) \<le> unat i" "unat i \<le> length buf"
  shows "\<exists>j. print_dec_loop v i buf = Inr (j, take (unat j) buf @ fmt_dec (unat v) @ drop (unat i) buf) \<and>
    unat j = unat i - length (fmt_dec (unat v))"
  using assms
proof (induction v i arbitrary: buf rule: print_dec_loop.induct)
  case (1 v i)
  let ?d = "0x30 + ucast (v mod 10) :: u8"
  have pos: "0 < unat i" using "1.prems" fmt_dec_pos[of "unat v"] by linarith
  note p = put_digit_run(1)[OF pos "1.prems"(2), of ?d] put_digit_run(2)[OF pos "1.prems"(2)]
  have split: "buf[unat i - 1 := b] = take (unat i - 1) buf @ b # drop (unat i) buf" for b
    using pos "1.prems"(2) by (simp add: upd_conv_take_nth_drop)
  have z: "v div 10 = 0 \<longleftrightarrow> unat v < 10" by (simp add: word_unat_eq_iff unat_div div_eq_0_iff)
  show ?case
  proof (cases "v div 10 = 0")
    case True
    then show ?thesis using p split z by (subst print_dec_loop.simps) (simp add: run_simps fmt_dec.simps digit_word)
  next
    case False
    then have f: "fmt_dec (unat v) = fmt_dec (unat (v div 10)) @ [?d]"
      using z by (subst fmt_dec.simps) (simp add: unat_div digit_word)
    have pr: "length (fmt_dec (unat (v div 10))) \<le> unat (i - 1)" "unat (i - 1) \<le> length (buf[unat i - 1 := ?d])"
      using "1.prems" f p(2) by auto
    from "1.IH"[OF False pr] obtain j where
      j: "print_dec_loop (v div 10) (i - 1) (buf[unat i - 1 := ?d]) =
         Inr (j, take (unat j) (buf[unat i - 1 := ?d]) @ fmt_dec (unat (v div 10)) @ drop (unat (i - 1)) (buf[unat i - 1 := ?d]))"
      "unat j = unat (i - 1) - length (fmt_dec (unat (v div 10)))" by blast
    have "take (unat j) (buf[unat i - 1 := ?d]) = take (unat j) buf" using j(2) p(2) by simp
    moreover have "drop (unat (i - 1)) (buf[unat i - 1 := ?d]) = ?d # drop (unat i) buf"
      using split[of ?d] p pos "1.prems"(2) by simp
    ultimately show ?thesis using j f p False by (subst print_dec_loop.simps) (simp add: run_simps)
  qed
qed

lemma unat_neg:
  fixes n :: i64
  assumes "sint n < 0"
  shows "unat (NOT n + 1) = nat (- sint n)" "nat (- sint n) \<le> 2 ^ 63"
proof -
  have "NOT n + 1 = - n" by (simp add: not_eq_complement)
  moreover have "uint (- n) = - sint n"
  proof -
    have "uint (- n) = (- sint n) mod 2 ^ 64"
      unfolding uint_word_ariths(4) using uint_sint[of n] by (simp add: take_bit_eq_mod mod_minus_eq)
    moreover have "- sint n \<le> 2 ^ 63" using sint_greater_eq[of n] by simp
    ultimately show ?thesis using assms by simp
  qed
  ultimately show "unat (NOT n + 1) = nat (- sint n)" by (simp add: unat_eq_nat_uint)
  show "nat (- sint n) \<le> 2 ^ 63" using sint_greater_eq[of n] by simp
qed

lemma unat_nonneg: "\<not> sint n < 0 \<Longrightarrow> unat n = nat (sint n)" "nat (sint n) < 2 ^ 63" for n :: i64
proof -
  have lt: "sint n < 2 ^ 63" using sint_less[of n] by simp
  then show "nat (sint n) < 2 ^ 63" by (simp add: nat_less_iff) 
  assume "\<not> sint n < 0"
  then have "uint n = sint n" using uint_sint[of n] lt by (simp add: take_bit_eq_mod)
  then show "unat n = nat (sint n)" by (simp add: unat_eq_nat_uint)
qed

text \<open>Reading the digits back.\<close>

definition parse_dec :: "u8 list \<Rightarrow> nat" where
  "parse_dec bs = foldl (\<lambda>a b. 10 * a + (unat b - 0x30)) 0 bs"

fun parse_i64 :: "u8 list \<Rightarrow> int" where
  "parse_i64 [] = 0"
| "parse_i64 (b # bs) = (if b = 0x2D then - int (parse_dec bs) else int (parse_dec (b # bs)))"

lemma unat_digit: "d < 10 \<Longrightarrow> unat (0x30 + of_nat d :: u8) = 0x30 + d"
  by (simp add: unat_word_ariths unat_of_nat)

lemma parse_fmt_dec: "parse_dec (fmt_dec n) = n"
proof (induction n rule: less_induct)
  case (less n)
  then show ?case
    by (subst fmt_dec.simps) (auto simp: parse_dec_def unat_digit)
qed

lemma fmt_dec_head: "\<exists>d bs. d < 10 \<and> fmt_dec n = (0x30 + of_nat d) # bs"
proof (induction n rule: less_induct)
  case (less n)
  show ?case
  proof (cases "n < 10")
    case True
    then show ?thesis by (subst fmt_dec.simps) auto
  next
    case False
    then have "fmt_dec n = fmt_dec (n div 10) @ [0x30 + of_nat (n mod 10)]" by (subst fmt_dec.simps) simp
    with less[of "n div 10"] False show ?thesis by auto
  qed
qed

lemma parse_fmt_i64: "parse_i64 (fmt_i64 n) = sint n"
proof (cases "sint n < 0")
  case True
  then show ?thesis by (simp add: fmt_i64_def parse_fmt_dec)
next
  case False
  obtain d bs where d: "d < 10" "fmt_dec (nat (sint n)) = (0x30 + of_nat d) # bs" using fmt_dec_head by blast
  have "(0x30 + of_nat d :: u8) \<noteq> 0x2D" using unat_digit[OF d(1)] by (auto simp: word_unat_eq_iff)
  then show ?thesis using False d parse_fmt_dec[of "nat (sint n)"] by (simp add: fmt_i64_def)
qed

text \<open>
  C38. For every 64-bit integer, the most negative one included, print_dec stays inside its
  20-byte buffer, never panics, and what it prints reads back as the number.
\<close>

theorem print_dec_prints_decimal:
  "\<exists>i buf. print_dec_buf n (replicate 20 0) = Inr (i, buf) \<and> length buf = 20 \<and> unat i \<le> 20 \<and>
     drop (unat i) buf = fmt_i64 n \<and> parse_i64 (drop (unat i) buf) = sint n"
proof (cases "sint n < 0")
  case True
  note m = unat_neg[OF True]
  have len: "length (fmt_dec (unat (NOT n + 1))) \<le> 19" using fmt_dec_length[of "unat (NOT n + 1)" 18] m by simp
  then obtain j where j: "print_dec_loop (NOT n + 1) 20 (replicate 20 0) =
      Inr (j, take (unat j) (replicate 20 0) @ fmt_dec (unat (NOT n + 1)) @ [])" "unat j = 20 - length (fmt_dec (unat (NOT n + 1)))"
    using print_dec_loop_run[of "NOT n + 1" 20 "replicate 20 0"] by auto
  let ?b = "take (unat j) (replicate 20 0) @ fmt_dec (unat (NOT n + 1))"
  have l: "0 < unat j" "unat j \<le> length ?b" "length ?b = 20" using j(2) len by auto
  note p = put_digit_run(1)[OF l(1,2), of "0x2D"] put_digit_run(2)[OF l(1,2)]
  have "print_dec_buf n (replicate 20 0) = Inr (j - 1, ?b[unat j - 1 := 0x2D])"
    using True j p by (simp add: print_dec_buf_def run_simps word_sless_alt)
  moreover have "drop (unat (j - 1)) (?b[unat j - 1 := 0x2D]) = fmt_i64 n"
    using True m l p(2) by (simp add: fmt_i64_def upd_conv_take_nth_drop)
  ultimately show ?thesis using l p parse_fmt_i64[of n] by (intro exI[of _ "j - 1"] exI[of _ "?b[unat j - 1 := 0x2D]"]) auto
next
  case False
  note m = unat_nonneg(1)[OF False] unat_nonneg(2)[of n]
  have len: "length (fmt_dec (unat n)) \<le> 19" using fmt_dec_length[of "unat n" 18] m by simp
  then obtain j where j: "print_dec_loop n 20 (replicate 20 0) =
      Inr (j, take (unat j) (replicate 20 0) @ fmt_dec (unat n) @ [])" "unat j = 20 - length (fmt_dec (unat n))"
    using print_dec_loop_run[of n 20 "replicate 20 0"] by auto
  have "print_dec_buf n (replicate 20 0) = Inr (j, take (unat j) (replicate 20 0) @ fmt_dec (unat n))"
    using False j by (simp add: print_dec_buf_def run_simps word_sless_alt)
  then show ?thesis using j len m False parse_fmt_i64[of n] by (auto simp: fmt_i64_def)
qed

end
