(* ===== verification/Teardown.thy ===== *)
theory Teardown
  imports User_Mode Ring_Queues
begin

text \<open>
  The end of a process (\<^verbatim>\<open>teardown\<close> of \<^verbatim>\<open>kernel/src/user.rs\<close>). The exit is reported to the parent, the frames of
  the image, the stack and the ring go back to the pool one by one while the space is still live,
  the kernel space is then made live and the page tables of the dead space are freed. The result is
  stated with the partition of the frames of \<open>Vm_Pages\<close>: nothing of the process is left behind and
  nothing of any other process is touched.
\<close>

unbundle bit_operations_syntax

lemma owns_pages_frame: "owns_pages m r ((va, f, p) # ps) \<Longrightarrow> f \<notin> page_frames ps"
  by (force simp: owns_pages_def page_frames_def)

lemma free_owned_ok:
  assumes "vm_good U R D fs s" "user_space R D (mem s) r ps" "l0_ptr (ttbr0_el1 s) = r"
  shows "wp (free_owned (map (\<lambda>(va, f, perm). (va, f)) ps)) (\<lambda>_ s'.
    vm_good U R (D - page_frames ps) (rev (map (\<lambda>x. fst (snd x)) ps) @ fs) s' \<and> user_space R (D - page_frames ps) (mem s') r [] \<and>
    load_only s s' \<and> others_kept R (D - page_frames ps) r (mem s) (mem s')) s"
  using assms
proof (induction ps arbitrary: s D fs)
  case Nil
  then show ?case by (simp add: free_owned_def wp_def run_simps)
next
  case (Cons x ps)
  obtain va f p where x: "x = (va, f, p)" by (cases x)
  have f: "f \<notin> page_frames ps" "f \<in> D"
    using Cons.prems(2) owns_pages_frame[of "mem s" r va f p ps] by (auto simp: user_space_def x)
  from unmap_user_page[OF Cons.prems(1), of r va f p ps] Cons.prems(2) obtain s1 where
    u: "unmap_page_in r va s = Inr ((), s1)" and
    s1: "vm_good U R D fs s1" "user_space R D (mem s1) r ps" "vm_only s s1" "others_kept R D r (mem s) (mem s1)"
    by (auto simp: wp_iff x)
  have u1: "unmap_page va s = Inr ((), s1)"
    using u Cons.prems(3) by (simp add: unmap_page_def live_l0_def current_ttbr0_def run_simps)
  from free_user_frame[OF s1(1) f(2) s1(2) f(1)] obtain s2 where fr: "free_frame f s1 = Inr ((), s2)" and
    s2: "vm_good U R (D - {f}) (f # fs) s2" "user_space R (D - {f}) (mem s2) r ps" "load_only s1 s2"
      "others_kept R (D - {f}) r (mem s1) (mem s2)"
    by (auto simp: wp_iff)
  have lo: "load_only s s2" using s1(3) s2(3) load_only_vm load_only_trans by blast
  have "l0_ptr (ttbr0_el1 s2) = r" using load_only_fields[OF lo] Cons.prems(3) by simp
  from Cons.IH[OF s2(1,2) this] obtain s3 where run: "free_owned (map (\<lambda>(va, f, perm). (va, f)) ps) s2 = Inr ((), s3)" and
    s3: "vm_good U R (D - {f} - page_frames ps) (rev (map (\<lambda>x. fst (snd x)) ps) @ f # fs) s3"
      "user_space R (D - {f} - page_frames ps) (mem s3) r []" "load_only s2 s3" "others_kept R (D - {f} - page_frames ps) r (mem s2) (mem s3)"
    by (auto simp: wp_iff)
  have D: "D - {f} - page_frames ps = D - page_frames (x # ps)" by (auto simp: x)
  have ok: "others_kept R (D - page_frames (x # ps)) r (mem s) (mem s3)"
  proof (rule others_kept_trans[OF others_kept_trans])
    show "others_kept R (D - page_frames (x # ps)) r (mem s) (mem s1)" by (rule others_kept_less[OF s1(4)]) auto
    show "others_kept R (D - page_frames (x # ps)) r (mem s1) (mem s2)" by (rule others_kept_less[OF s2(4)]) (auto simp: x)
    show "others_kept R (D - page_frames (x # ps)) r (mem s2) (mem s3)" using s3(4) by (simp only: D)
  qed
  have "free_owned (map (\<lambda>(va, f, perm). (va, f)) (x # ps)) s = Inr ((), s3)"
    using run u1 fr by (simp add: x free_owned_def run_simps)
  then show ?case using s3 D ok load_only_trans[OF lo s3(3)] by (simp add: wp_def x)
qed

section \<open>Telling the parent\<close>

text \<open>The registers of the memory manager.\<close>

definition vm_regs :: "'a mmu_state_scheme \<Rightarrow> (u64 \<rightharpoonup> u64 \<times> u64) \<times> u64 \<times> FrameAllocator \<times> usize \<times> u64 \<times> u64" where
  "vm_regs s = (tlb s, ttbr0_el1 s, FRAME_ALLOCATOR s, KERNEL_L1 s, KERNEL_TTBR0 s, INSTALLED s)"

lemma vm_good_regs:
  assumes "vm_regs t = vm_regs s" "vm_good U R D fs (s\<lparr>mem := mem t\<rparr>)"
  shows "vm_good U R D fs t"
  using assms vm_good_cong[of t "s\<lparr>mem := mem t\<rparr>" U R D fs] by (simp add: vm_regs_def)

lemma vm_regs_simps [simp]:
  "vm_regs (printed bs s) = vm_regs s" "vm_regs (posted pa t r p) = vm_regs p" "vm_regs (awoken w u) = vm_regs u"
  "vm_regs (exited pid code p) = vm_regs p" "vm_regs (waiter_woken pid p) = vm_regs p" "vm_regs (p\<lparr>PROCESSES := ps\<rparr>) = vm_regs p"
  "vm_regs (p\<lparr>mem := m\<rparr>) = vm_regs p"
  by (simp_all add: vm_regs_def printed_def posted_def awoken_def exited_def waiter_woken_def Let_def split: option.splits)

text \<open>The frame an exit posts to: the ring page of a parent that waits.\<close>

definition exit_page :: "'a proc_state_scheme \<Rightarrow> nat \<Rightarrow> usize set" where
  "exit_page s pid = (case p_exit_waiter (PROCESSES s ! pid) of None \<Rightarrow> {} | Some t \<Rightarrow>
     (case p_parent (PROCESSES s ! pid) of None \<Rightarrow> {} | Some q \<Rightarrow> {p_ring_pa (PROCESSES s ! q)} - {0}))"

definition exit_ok :: "'a proc_state_scheme \<Rightarrow> nat \<Rightarrow> bool" where
  "exit_ok s pid \<longleftrightarrow> (\<forall>t q. p_exit_waiter (PROCESSES s ! pid) = Some t \<longrightarrow> p_parent (PROCESSES s ! pid) = Some q \<longrightarrow>
     q < length (PROCESSES s) \<and> waiter_ok s q)"

text \<open>What telling the parent leaves of the table: everything but waiters, and the exit code.\<close>

definition proc_core :: "Process \<Rightarrow> u64 \<times> Loaded \<times> (usize \<times> usize) list \<times> usize \<times> nat option" where
  "proc_core p = (p_ttbr0 p, p_loaded p, p_frames p, p_ring_pa p, p_parent p)"

lemma proc_core_nth: "map proc_core ps = map proc_core qs \<Longrightarrow> i < length qs \<Longrightarrow> proc_core (ps ! i) = proc_core (qs ! i)"
  by (metis length_map nth_map)

lemma map_proc_core_update: "i < length ps \<Longrightarrow> proc_core p = proc_core (ps ! i) \<Longrightarrow> map proc_core (ps[i := p]) = map proc_core ps"
  by (simp add: map_update list_update_same_conv)

lemma notify_exit_ok:
  assumes pid: "pid < length (PROCESSES s)" and ok: "exit_ok s pid"
  obtains s' where "notify_exit pid code s = Inr ((), s')" "vm_regs s' = vm_regs s" "map proc_core (PROCESSES s') = map proc_core (PROCESSES s)"
    "p_exit_code (PROCESSES s' ! pid) = Some code" "\<And>a. (\<And>f. f \<in> exit_page s pid \<Longrightarrow> page_aligned f \<and> page_of a \<noteq> f) \<Longrightarrow> mem s' a = mem s a"
proof (cases "\<exists>t q. p_exit_waiter (PROCESSES s ! pid) = Some t \<and> p_parent (PROCESSES s ! pid) = Some q")
  case True
  then obtain t q where tq: "p_exit_waiter (PROCESSES s ! pid) = Some t" "p_parent (PROCESSES s ! pid) = Some q" by blast
  then have q: "q < length (PROCESSES s)" "waiter_ok s q" using ok by (auto simp: exit_ok_def)
  let ?pa = "p_ring_pa (PROCESSES s ! q)"
  let ?t = "let s' = exited pid code s; pa = ?pa in if pa = 0 then s' else posted pa t code s'"
  let ?s' = "waiter_woken q ?t"
  have run: "notify_exit pid code s = Inr ((), ?s')" by (rule notify_exit_run(2)[OF pid tq q])
  have pt: "PROCESSES ?t = (PROCESSES s)[pid := (PROCESSES s ! pid)\<lparr>p_exit_code := Some code, p_exit_waiter := None\<rparr>]"
    by (simp add: Let_def exited_def)
  then have ps: "PROCESSES ?s' = (PROCESSES ?t)[q := (PROCESSES ?t ! q)\<lparr>p_ring_waiter := None\<rparr>]"
    by (simp add: waiter_woken_def Let_def split: option.splits)
  have c1: "map proc_core (PROCESSES ?t) = map proc_core (PROCESSES s)" "length (PROCESSES ?t) = length (PROCESSES s)"
    unfolding pt using pid by (simp_all add: map_proc_core_update proc_core_def)
  have "map proc_core (PROCESSES ?s') = map proc_core (PROCESSES ?t)"
    unfolding ps using q(1) c1(2) by (intro map_proc_core_update) (simp_all add: proc_core_def)
  then have c: "map proc_core (PROCESSES ?s') = map proc_core (PROCESSES s)" using c1(1) by simp
  have e: "p_exit_code (PROCESSES ?s' ! pid) = Some code"
    unfolding ps using pid q(1) c1(2) by (simp add: pt nth_list_update)
  have m: "mem ?s' a = mem s a" if "\<And>f. f \<in> exit_page s pid \<Longrightarrow> page_aligned f \<and> page_of a \<noteq> f" for a
    using that[of ?pa] tq pid by (auto simp: Let_def exit_page_def posted_def cq_push_local)
  show thesis by (rule that[OF run _ c e m]) (simp_all add: Let_def)
next
  case False
  have run: "notify_exit pid code s = Inr ((), exited pid code s)"
    using False pid by (cases "p_exit_waiter (PROCESSES s ! pid)"; cases "p_parent (PROCESSES s ! pid)")
      (auto simp: notify_exit_def on_exit_run run_simps)
  have c: "map proc_core (PROCESSES (exited pid code s)) = map proc_core (PROCESSES s)"
    using pid by (simp add: exited_def map_proc_core_update proc_core_def)
  show thesis by (rule that[OF run _ c]) (use pid in simp_all)
qed

section \<open>Teardown\<close>

lemma load_only_sched: "load_only s t \<Longrightarrow> SCHEDULER t = SCHEDULER s"
proof -
  assume "load_only s t"
  then have e: "load_erase t = load_erase s" by (simp add: load_only_def)
  show ?thesis using arg_cong[OF e, of SCHEDULER] by (simp add: load_erase_def)
qed

lemma window_only_entries: "window_only m r \<Longrightarrow> (\<And>i. i < 0x200 \<Longrightarrow> m' (tadd r i) = m (tadd r i)) \<Longrightarrow> window_only m' r"
  by (simp add: window_only_def)

text \<open>
  From the frames of the dying process to the end: its pages, then the switch to the kernel
  space, then its tables.
\<close>

lemma reclaim_ok:
  assumes good: "vm_good U R D fs s" and sp: "user_space R D (mem s) r ps" and live: "ttbr0_el1 s = r" and nk: "r \<noteq> KERNEL_TTBR0 s"
  shows "wp (k_bind (free_owned (map (\<lambda>(va, f, perm). (va, f)) ps)) (\<lambda>_. k_bind kernel_ttbr0 (\<lambda>kt. k_bind (activate kt) (\<lambda>_. free_address_space r))))
    (\<lambda>_ s'. (\<exists>gs. vm_good U (R - {r}) (D - page_frames ps) (gs @ rev (map (\<lambda>x. fst (snd x)) ps) @ fs) s' \<and> r \<in> set gs) \<and>
      ttbr0_el1 s' = KERNEL_TTBR0 s \<and> others_kept R (D - page_frames ps) r (mem s) (mem s') \<and>
      PROCESSES s' = PROCESSES s \<and> SCHEDULER s' = SCHEDULER s) s"
proof -
  let ?fs = "rev (map (\<lambda>x. fst (snd x)) ps) @ fs" and ?D = "D - page_frames ps"
  have r: "r \<in> R" using sp by (simp add: user_space_def)
  have "l0_ptr (ttbr0_el1 s) = r" using live vm_goodD(12)[OF good r] by (simp add: l0_ptr_def)
  from free_owned_ok[OF good sp this] obtain s1 where run1: "free_owned (map (\<lambda>(va, f, perm). (va, f)) ps) s = Inr ((), s1)" and
    s1: "vm_good U R ?D ?fs s1" "user_space R ?D (mem s1) r []" "load_only s s1" "others_kept R ?D r (mem s) (mem s1)"
    by (auto simp: wp_iff)
  note f1 = load_only_fields[OF s1(3)]
  from good_switch[OF s1(1) vm_goodD(13)[OF s1(1)]] obtain s2 T where run2: "activate (KERNEL_TTBR0 s1) s1 = Inr ((), s2)" and
    s2: "vm_good U R ?D ?fs s2" "s2 = s1\<lparr>ttbr0_el1 := KERNEL_TTBR0 s1, INSTALLED := KERNEL_TTBR0 s1, tlb := T\<rparr>" by (auto simp: wp_iff)
  have "r \<noteq> KERNEL_TTBR0 s2" "r \<noteq> ttbr0_el1 s2" "window_only (mem s2) r" using nk f1(1) s1(2) by (simp_all add: s2(2) user_space_def)
  from good_free_space[OF s2(1) r this] obtain s3 gs where run3: "free_address_space r s2 = Inr ((), s3)" and
    s3: "vm_good U (R - {r}) ?D (gs @ ?fs) s3" "vm_only s2 s3" "set gs = private_tables (mem s2) r"
      "\<forall>r' \<in> R - {r}. \<forall>va. leaf (mem s3) r' va = leaf (mem s2) r' va"
      "\<forall>r' \<in> R - {r}. \<forall>i < 0x200. mem s3 (tadd r' i) = mem s2 (tadd r' i)" "\<forall>a. page_of a \<in> ?D \<longrightarrow> mem s3 a = mem s2 a"
    by (auto simp: wp_iff)
  have m2: "mem s2 = mem s1" by (simp add: s2(2))
  have "others_kept R ?D r (mem s2) (mem s3)"
    using s3(4-6) window_only_entries[of "mem s2" _ "mem s3"] by (auto simp: others_kept_def)
  then have k: "others_kept R ?D r (mem s) (mem s3)" using others_kept_trans[OF s1(4)] m2 by metis
  have lo: "load_only s2 s3" by (rule load_only_vm[OF s3(2)])
  have "ttbr0_el1 s3 = KERNEL_TTBR0 s" using load_only_fields(4)[OF lo] f1(1) by (simp add: s2(2))
  moreover have "PROCESSES s3 = PROCESSES s" using load_only_procs[OF lo] load_only_procs[OF s1(3)] by (simp add: s2(2))
  moreover have "SCHEDULER s3 = SCHEDULER s" using load_only_sched[OF lo] load_only_sched[OF s1(3)] by (simp add: s2(2))
  moreover have "r \<in> set gs" unfolding s3(3) private_tables_def by (auto intro!: exI[of _ "[]"] simp: is_path_def shared_def tbl.simps)
  moreover have "k_bind (free_owned (map (\<lambda>(va, f, perm). (va, f)) ps)) (\<lambda>_. k_bind kernel_ttbr0 (\<lambda>kt. k_bind (activate kt)
      (\<lambda>_. free_address_space r))) s = Inr ((), s3)"
    using run1 run2 run3 by (simp add: run_simps kernel_ttbr0_def)
  ultimately show ?thesis using s3(1) k by (intro wpI) blast+
qed


definition dead_process :: "Process \<Rightarrow> i64 \<Rightarrow> bool" where
  "dead_process p code \<longleftrightarrow> p_frames p = [] \<and> p_ring_pa p = 0 \<and> \<not> p_foreground p \<and> p_exit_code p = Some code"

lemma teardown_run:
  assumes good: "vm_good U R D fs s" and sch: "sched_ok (SCHEDULER s)" "task_process (tasks (SCHEDULER s) ! current (SCHEDULER s)) = Some pid"
    and pid: "pid < length (PROCESSES s)" and sp: "proc_space R D (mem s) (PROCESSES s ! pid) ps"
    and live: "ttbr0_el1 s = p_ttbr0 (PROCESSES s ! pid)" "p_ttbr0 (PROCESSES s ! pid) \<noteq> KERNEL_TTBR0 s"
    and ex: "exit_ok s pid" "exit_page s pid \<subseteq> D - page_frames ps"
  shows "wp (teardown code) (\<lambda>_ s'. (\<exists>gs. vm_good U (R - {p_ttbr0 (PROCESSES s ! pid)}) (D - page_frames ps)
        (gs @ rev (map (\<lambda>x. fst (snd x)) ps) @ fs) s' \<and> p_ttbr0 (PROCESSES s ! pid) \<in> set gs) \<and>
      ttbr0_el1 s' = KERNEL_TTBR0 s \<and>
      others_kept R (D - page_frames ps - exit_page s pid) (p_ttbr0 (PROCESSES s ! pid)) (mem s) (mem s') \<and>
      dead_process (PROCESSES s' ! pid) code) s"
proof -
  let ?p = "PROCESSES s ! pid" and ?r = "p_ttbr0 (PROCESSES s ! pid)"
  define sa where "sa = s\<lparr>PROCESSES := (PROCESSES s)[pid := ?p\<lparr>p_pending := replicate MAX_PENDING None, p_ring_waiter := None\<rparr>]\<rparr>"
  have a: "abort_user pid s = Inr ((), sa)"
    unfolding abort_user_def clear_ring_def by (subst without_irqs_run) (use pid in \<open>auto simp: run_simps sa_def\<close>)
  have la: "length (PROCESSES sa) = length (PROCESSES s)" "mem sa = mem s" "vm_regs sa = vm_regs s" by (simp_all add: sa_def)
  have pa: "p_exit_waiter (PROCESSES sa ! pid) = p_exit_waiter ?p" "p_parent (PROCESSES sa ! pid) = p_parent ?p"
    "p_ring_pa (PROCESSES sa ! q) = p_ring_pa (PROCESSES s ! q)" "map proc_core (PROCESSES sa) = map proc_core (PROCESSES s)" for q
    using pid by (simp_all add: sa_def nth_list_update map_proc_core_update proc_core_def)
  have xa: "exit_page sa pid = exit_page s pid" "exit_ok sa pid"
    using ex(1) pid by (auto simp: exit_page_def exit_ok_def pa la waiter_ok_def sa_def nth_list_update split: option.splits)
  obtain sb where b: "notify_exit pid code sa = Inr ((), sb)" "vm_regs sb = vm_regs sa" "map proc_core (PROCESSES sb) = map proc_core (PROCESSES sa)"
    "p_exit_code (PROCESSES sb ! pid) = Some code" "\<And>x. (\<And>f. f \<in> exit_page sa pid \<Longrightarrow> page_aligned f \<and> page_of x \<noteq> f) \<Longrightarrow> mem sb x = mem sa x"
    using notify_exit_ok[of pid sa code] pid xa(2) la(1) by metis
  have lb: "length (PROCESSES sb) = length (PROCESSES s)" using arg_cong[OF b(3), of length] la(1) by simp
  have cb: "proc_core (PROCESSES sb ! pid) = proc_core ?p"
    using proc_core_nth[of "PROCESSES sb" "PROCESSES s" pid] b(3) pa(4) pid by simp
  have mb: "mem sb x = mem s x" if "page_of x \<notin> exit_page s pid" for x
    using b(5)[of x] that xa(1) la(2) ex(2) vm_goodD(9)[OF good] valid_frame_aligned by auto
  have E: "exit_page s pid \<subseteq> D" "exit_page s pid \<inter> page_frames ps = {}" using ex(2) by auto
  have us: "user_space R D (mem s) ?r ps" "p_frames ?p = map (\<lambda>(va, f, perm). (va, f)) ps" using sp by (simp_all add: proc_space_def)
  have m': "mem sb x = mem s x" if "page_of x \<notin> D" for x by (rule mb) (use that E(1) in auto)
  note st = good_store[OF good m']
  have gb: "vm_good U R D fs sb" by (rule vm_good_regs[of _ s]) (use b(2) la(3) st(1) in simp_all)
  have kb: "others_kept R (D - exit_page s pid) ?r (mem s) (mem sb)" "user_space R D (mem sb) ?r ps"
  proof -
    have wo: "window_only (mem sb) r'" if "r' \<in> R" "window_only (mem s) r'" for r'
      by (rule window_only_same[OF that(2)]) (use st(4) that in blast)
    show "others_kept R (D - exit_page s pid) ?r (mem s) (mem sb)" using st(2) wo mb by (auto simp: others_kept_def)
    show "user_space R D (mem sb) ?r ps" using us(1) st(2) wo by (auto simp: user_space_def elim: owns_pages_cong)
  qed
  define sc where "sc = sb\<lparr>PROCESSES := (PROCESSES sb)[pid := (PROCESSES sb ! pid)\<lparr>p_frames := []\<rparr>]\<rparr>"
  have c: "take_frames pid sb = Inr (map (\<lambda>(va, f, perm). (va, f)) ps, sc)"
    using pid lb cb us(2) by (simp add: take_frames_def run_simps sc_def proc_core_def)
  have gc: "vm_good U R D fs sc" "mem sc = mem sb" "ttbr0_el1 sc = ?r" "KERNEL_TTBR0 sc = KERNEL_TTBR0 s"
    using gb vm_good_regs[of sc sb U R D fs] b(2) la(3) live(1) by (simp_all add: sc_def vm_regs_def)
  from reclaim_ok[OF gc(1), of ?r ps] kb(2) gc(2-4) live(2) obtain sd gs where
    run: "k_bind (free_owned (map (\<lambda>(va, f, perm). (va, f)) ps)) (\<lambda>_. k_bind kernel_ttbr0 (\<lambda>kt. k_bind (activate kt)
      (\<lambda>_. free_address_space ?r))) sc = Inr ((), sd)" and
    d: "vm_good U (R - {?r}) (D - page_frames ps) (gs @ rev (map (\<lambda>x. fst (snd x)) ps) @ fs) sd" "?r \<in> set gs"
      "ttbr0_el1 sd = KERNEL_TTBR0 s" "others_kept R (D - page_frames ps) ?r (mem sb) (mem sd)" "PROCESSES sd = PROCESSES sc"
    by (auto simp: wp_iff)
  define se where "se = sd\<lparr>PROCESSES := (PROCESSES sd)[pid := (PROCESSES sd ! pid)\<lparr>p_ring_pa := 0, p_foreground := False\<rparr>]\<rparr>"
  let ?msg = "ascii ''[user] freed '' @ fmt_dec (length ps) @ ascii '' frames'' @ [0x0A]"
  have "teardown code s = Inr ((), printed ?msg se)"
    using run pid lb a b(1) c cb d(5) sch
    by (auto simp: teardown_def run_simps current_process_run proc_ttbr0_def proc_core_def mark_exited_def se_def sc_def
        uart_write_str_run split: sum.splits)
  moreover have "vm_good U (R - {?r}) (D - page_frames ps) (gs @ rev (map (\<lambda>x. fst (snd x)) ps) @ fs) (printed ?msg se)"
    by (rule vm_good_regs[of _ sd]) (use d(1) in \<open>simp_all add: se_def\<close>)
  moreover have "others_kept R (D - page_frames ps - exit_page s pid) ?r (mem s) (mem (printed ?msg se))"
  proof (rule others_kept_trans)
    show "others_kept R (D - page_frames ps - exit_page s pid) ?r (mem s) (mem sb)" by (rule others_kept_less[OF kb(1)]) auto
    show "others_kept R (D - page_frames ps - exit_page s pid) ?r (mem sb) (mem (printed ?msg se))"
      using others_kept_less[OF d(4)] by (simp add: se_def)
  qed
  moreover have "dead_process (PROCESSES (printed ?msg se) ! pid) code"
    using pid lb b(4) d(5) by (simp add: dead_process_def se_def sc_def)
  ultimately show ?thesis using d(2,3) by (intro wpI) (auto simp: se_def)
qed

text \<open>
  C3. When a process exits, every frame it owned (image, stack, ring) and every page table of
  its space, the root included, is back in the pool, the frames of the machine are still exactly
  the tables of the remaining spaces, the free list and the pages of the other processes, the
  kernel space is live, the other spaces and their pages are untouched except for the completion
  posted to the parent, and the exit code is recorded.
\<close>

theorem teardown_reclaims_everything:
  assumes "vm_good U R D fs s" "sched_ok (SCHEDULER s)" "task_process (tasks (SCHEDULER s) ! current (SCHEDULER s)) = Some pid"
    and "pid < length (PROCESSES s)" "PROCESSES s ! pid = p" "proc_space R D (mem s) p ps"
    and "ttbr0_el1 s = p_ttbr0 p" "p_ttbr0 p \<noteq> KERNEL_TTBR0 s" "exit_ok s pid" "exit_page s pid \<subseteq> D - page_frames ps"
  shows "wp (teardown code) (\<lambda>_ s'. (\<exists>fs'. vm_good U (R - {p_ttbr0 p}) (D - page_frames ps) fs' s' \<and>
        page_frames ps \<union> {p_ttbr0 p} \<union> set fs \<subseteq> set fs' \<and>
        U = tables (R - {p_ttbr0 p}) (mem s') \<union> set fs' \<union> (D - page_frames ps)) \<and>
      ttbr0_el1 s' = KERNEL_TTBR0 s \<and>
      others_kept R (D - page_frames ps - exit_page s pid) (p_ttbr0 p) (mem s) (mem s') \<and>
      p_frames (PROCESSES s' ! pid) = [] \<and> p_ring_pa (PROCESSES s' ! pid) = 0 \<and> p_exit_code (PROCESSES s' ! pid) = Some code) s"
proof -
  have "page_frames ps = (\<lambda>x. fst (snd x)) ` set ps" by (auto simp: page_frames_def)
  then have fs: "page_frames ps \<union> {p_ttbr0 p} \<union> set fs \<subseteq> set (gs @ rev (map (\<lambda>x. fst (snd x)) ps) @ fs)"
    if "p_ttbr0 p \<in> set gs" for gs using that by auto
  note run = teardown_run[OF assms(1-4), unfolded assms(5), OF assms(6-10), of code]
  show ?thesis
  proof (rule wp_mono[OF run], elim conjE exE, intro conjI)
    fix r s' gs
    assume g: "vm_good U (R - {p_ttbr0 p}) (D - page_frames ps) (gs @ rev (map (\<lambda>x. fst (snd x)) ps) @ fs) s'" "p_ttbr0 p \<in> set gs"
    show "\<exists>fs'. vm_good U (R - {p_ttbr0 p}) (D - page_frames ps) fs' s' \<and> page_frames ps \<union> {p_ttbr0 p} \<union> set fs \<subseteq> set fs' \<and>
        U = tables (R - {p_ttbr0 p}) (mem s') \<union> set fs' \<union> (D - page_frames ps)"
      using g(1) fs[OF g(2)] vm_goodD(6)[OF g(1)] by blast
  qed (simp_all add: dead_process_def)
qed

theorem teardown_reclaims_everything_witness:
  "\<exists>(s :: proc_state) U R D fs. vm_good U R D fs s \<and>
     wp (teardown 0) (\<lambda>_ s'. \<exists>fs'. vm_good U {0x40100000} {} fs' s' \<and> set fs \<union> D \<union> {0x40103000} \<subseteq> set fs' \<and> ttbr0_el1 s' = 0x40100000) s"
proof -
  let ?U = "set (frame_range 16)" and ?R = "{0x40100000, 0x40103000} :: usize set"
  have "INSTALLED off_proc = 0" by (simp add: off_proc_def state_defs three_tasks_def off_mmu_def)
  from sample_process[OF this] obtain s0 :: proc_state and p ps fs where
    s0: "PROCESSES s0 = [p]" "p = process_of mini_elf 0x40103000 (p_frames p)" "vm_good ?U ?R (page_frames ps) fs s0"
      "proc_space ?R (page_frames ps) (mem s0) p ps" "KERNEL_TTBR0 s0 = 0x40100000" by blast
  have r: "p_ttbr0 p = 0x40103000" "p_exit_waiter p = None" using arg_cong[OF s0(2), of p_ttbr0] arg_cong[OF s0(2), of p_exit_waiter]
    by (simp_all add: process_of_def)
  from good_switch[OF s0(3), of "0x40103000"] obtain s1 where
    s1: "vm_good ?U ?R (page_frames ps) fs s1" "ttbr0_el1 s1 = 0x40103000" "\<exists>T. s1 = s0\<lparr>ttbr0_el1 := 0x40103000, INSTALLED := 0x40103000, tlb := T\<rparr>"
    by (auto simp: wp_iff)
  let ?s = "s1\<lparr>SCHEDULER := \<lparr>tasks = [(sample_task 0)\<lparr>task_process := Some 0\<rparr>], current = 0\<rparr>\<rparr>"
  have f: "PROCESSES ?s = [p]" "mem ?s = mem s0" "KERNEL_TTBR0 ?s = 0x40100000" "ttbr0_el1 ?s = 0x40103000"
    using s1(2,3) s0(1,5) by auto
  have g: "vm_good ?U ?R (page_frames ps) fs ?s" using s1(1) vm_good_cong[of ?s s1] by simp
  have e: "exit_page ?s 0 = {}" "exit_ok ?s 0" using r(2) by (simp_all add: exit_page_def exit_ok_def f)
  have D: "?R - {0x40103000} = {0x40100000}" "page_frames ps - page_frames ps = {}" by auto
  have "wp (teardown 0) (\<lambda>_ s'. (\<exists>fs'. vm_good ?U (?R - {p_ttbr0 p}) (page_frames ps - page_frames ps) fs' s' \<and>
        page_frames ps \<union> {p_ttbr0 p} \<union> set fs \<subseteq> set fs' \<and>
        ?U = tables (?R - {p_ttbr0 p}) (mem s') \<union> set fs' \<union> (page_frames ps - page_frames ps)) \<and>
      ttbr0_el1 s' = KERNEL_TTBR0 ?s \<and>
      others_kept ?R (page_frames ps - page_frames ps - exit_page ?s 0) (p_ttbr0 p) (mem ?s) (mem s') \<and>
      p_frames (PROCESSES s' ! 0) = [] \<and> p_ring_pa (PROCESSES s' ! 0) = 0 \<and> p_exit_code (PROCESSES s' ! 0) = Some 0) ?s"
    by (rule teardown_reclaims_everything[OF g]) (use s0(4) e f r in \<open>simp_all add: sched_ok_def sample_task_def\<close>)
  then have w: "wp (teardown 0) (\<lambda>_ s'. \<exists>fs'. vm_good ?U {0x40100000} {} fs' s' \<and> set fs \<union> page_frames ps \<union> {0x40103000} \<subseteq> set fs' \<and>
      ttbr0_el1 s' = 0x40100000) ?s"
  proof (rule wp_mono, elim conjE exE)
    fix r s' fs'
    assume "vm_good ?U (?R - {p_ttbr0 p}) (page_frames ps - page_frames ps) fs' s'" "page_frames ps \<union> {p_ttbr0 p} \<union> set fs \<subseteq> set fs'"
      "ttbr0_el1 s' = KERNEL_TTBR0 ?s"
    then show "\<exists>fs'. vm_good ?U {0x40100000} {} fs' s' \<and> set fs \<union> page_frames ps \<union> {0x40103000} \<subseteq> set fs' \<and> ttbr0_el1 s' = 0x40100000"
      unfolding r D f(3) by (intro exI[of _ fs'] conjI) simp_all
  qed
  show ?thesis by (rule exI[of _ ?s], rule exI[of _ ?U], rule exI[of _ ?R], rule exI[of _ "page_frames ps"], rule exI[of _ fs]) (rule conjI[OF g w])
qed

end
