(* ===== verification/Ring_Safety.thy ===== *)
theory Ring_Safety
  imports Ring_Queues
begin

text \<open>
  What a program can make the kernel do by writing to its ring page. The page is shared and the
  program may put anything there: any opcode, pointer, length, handle, any value of the four
  indices. Serving the ring of process \<open>pid\<close> never panics and changes nothing outside the pages of
  the process, except for console output, input consumed, and the bookkeeping listed in \<open>confined\<close>.
  Spawning is left out here: it builds a new process, and with the pool exhausted it panics.
\<close>

unbundle bit_operations_syntax

section \<open>The guest\<close>

definition ring_apart :: "Loaded \<Rightarrow> bool" where
  "ring_apart l \<longleftrightarrow> (\<forall>rg \<in> set (take (l_count l) (l_ranges l)). \<forall>a. r_start rg \<le> a \<longrightarrow> a < r_end rg \<longrightarrow> page_of a \<noteq> USER_RING_VA)"

definition guest :: "usize set \<Rightarrow> usize set \<Rightarrow> usize set \<Rightarrow> usize list \<Rightarrow> nat \<Rightarrow> usize \<Rightarrow> upage list \<Rightarrow> 'a proc_state_scheme \<Rightarrow> bool" where
  "guest U R D fs pid pa ps s \<longleftrightarrow> vm_good U R D fs s \<and> pid < length (PROCESSES s) \<and> proc_space R D (mem s) (PROCESSES s ! pid) ps \<and>
     l0_ptr (ttbr0_el1 s) = p_ttbr0 (PROCESSES s ! pid) \<and> p_ring_pa (PROCESSES s ! pid) = pa \<and>
     (USER_RING_VA, pa, PAGE_USER_RW) \<in> set ps \<and> ring_apart (p_loaded (PROCESSES s ! pid)) \<and> input_inv (INPUT s)"

text \<open>
  What serving the ring of process \<open>pid\<close> may change: its own pages, its own parked reads, and which wait a
  child of it answers. The page tables, the frame pool, the other processes and the scheduler stay.
\<close>

definition confined :: "nat \<Rightarrow> upage list \<Rightarrow> 'a proc_state_scheme \<Rightarrow> 'a proc_state_scheme \<Rightarrow> bool" where
  "confined pid ps s s' \<longleftrightarrow> (\<forall>a. page_of a \<notin> page_frames ps \<longrightarrow> mem s' a = mem s a) \<and>
     tlb s' = tlb s \<and> ttbr0_el1 s' = ttbr0_el1 s \<and> FRAME_ALLOCATOR s' = FRAME_ALLOCATOR s \<and> KERNEL_L1 s' = KERNEL_L1 s \<and>
     KERNEL_TTBR0 s' = KERNEL_TTBR0 s \<and> INSTALLED s' = INSTALLED s \<and> SCHEDULER s' = SCHEDULER s \<and> daif s' = daif s \<and>
     length (PROCESSES s') = length (PROCESSES s) \<and>
     (\<forall>q < length (PROCESSES s). \<exists>pe w. PROCESSES s' ! q = (PROCESSES s ! q)\<lparr>p_pending := pe, p_exit_waiter := w\<rparr> \<and>
        (q \<noteq> pid \<longrightarrow> pe = p_pending (PROCESSES s ! q)) \<and> (p_parent (PROCESSES s ! q) \<noteq> Some pid \<longrightarrow> w = p_exit_waiter (PROCESSES s ! q)))"

definition sq_same :: "usize \<Rightarrow> memory \<Rightarrow> memory \<Rightarrow> bool" where
  "sq_same pa m m' \<longleftrightarrow> rp_sq_tail m' pa = rp_sq_tail m pa \<and> (\<forall>i < 16. load_sqe m' pa i = load_sqe m pa i)"

lemma confined_refl: "confined pid ps s s"
  by (auto simp: confined_def intro!: exI[of _ "p_pending (PROCESSES s ! q)" for q] exI[of _ "p_exit_waiter (PROCESSES s ! q)" for q])

lemma confined_mem: "(\<And>a. page_of a \<noteq> f \<Longrightarrow> m a = mem s a) \<Longrightarrow> f \<in> page_frames ps \<Longrightarrow> confined pid ps s (s\<lparr>mem := m\<rparr>)"
  using confined_refl[of pid ps s] by (simp add: confined_def) metis

lemma confined_trans:
  assumes "confined pid ps s t" "confined pid ps t u"
  shows "confined pid ps s u"
proof -
  note d = assms[unfolded confined_def]
  have "\<exists>pe w. PROCESSES u ! q = (PROCESSES s ! q)\<lparr>p_pending := pe, p_exit_waiter := w\<rparr> \<and>
        (q \<noteq> pid \<longrightarrow> pe = p_pending (PROCESSES s ! q)) \<and> (p_parent (PROCESSES s ! q) \<noteq> Some pid \<longrightarrow> w = p_exit_waiter (PROCESSES s ! q))"
    if "q < length (PROCESSES s)" for q
  proof -
    from d(1) that obtain pe w where 1: "PROCESSES t ! q = (PROCESSES s ! q)\<lparr>p_pending := pe, p_exit_waiter := w\<rparr>"
      "q \<noteq> pid \<longrightarrow> pe = p_pending (PROCESSES s ! q)" "p_parent (PROCESSES s ! q) \<noteq> Some pid \<longrightarrow> w = p_exit_waiter (PROCESSES s ! q)" by blast
    have "q < length (PROCESSES t)" using d(1) that by simp
    with d(2) obtain pe' w' where 2: "PROCESSES u ! q = (PROCESSES t ! q)\<lparr>p_pending := pe', p_exit_waiter := w'\<rparr>"
      "q \<noteq> pid \<longrightarrow> pe' = p_pending (PROCESSES t ! q)" "p_parent (PROCESSES t ! q) \<noteq> Some pid \<longrightarrow> w' = p_exit_waiter (PROCESSES t ! q)" by blast
    show ?thesis using 1 2 by (intro exI[of _ pe'] exI[of _ w']) simp
  qed
  then show ?thesis using d unfolding confined_def by simp
qed

lemma sq_same_refl [simp]: "sq_same pa m m" and sq_same_trans: "sq_same pa m1 m2 \<Longrightarrow> sq_same pa m2 m3 \<Longrightarrow> sq_same pa m1 m3"
  by (auto simp: sq_same_def)

lemma guestD:
  assumes "guest U R D fs pid pa ps s"
  shows "vm_good U R D fs s" "pid < length (PROCESSES s)" "live R D s pid (PROCESSES s ! pid) ps" "p_ring_pa (PROCESSES s ! pid) = pa"
    "input_inv (INPUT s)" "pa \<in> page_frames ps" "page_frames ps \<subseteq> D" "page_aligned pa" "pa \<noteq> 0"
proof -
  note d = assms[unfolded guest_def]
  have o: "owns_pages (mem s) (p_ttbr0 (PROCESSES s ! pid)) ps" using d by (simp add: proc_space_def user_space_def)
  then have v: "valid_frame pa" using d by (auto simp: owns_pages_def)
  show "vm_good U R D fs s" "pid < length (PROCESSES s)" "p_ring_pa (PROCESSES s ! pid) = pa" "input_inv (INPUT s)"
    "page_frames ps \<subseteq> D" using d by (auto simp: proc_space_def user_space_def)
  show "pa \<in> page_frames ps" using d by (force simp: page_frames_def)
  show "page_aligned pa" "pa \<noteq> 0" using v valid_frame_nonzero by (auto simp: valid_frame_aligned)
  show "live R D s pid (PROCESSES s ! pid) ps" using d vm_goodD(1)[of U R D fs s] by (simp add: live_def vm_ok_def)
qed

lemma guest_step:
  assumes g: "guest U R D fs pid pa ps s" and c: "confined pid ps s s'" and i: "input_inv (INPUT s')"
  shows "guest U R D fs pid pa ps s'"
proof -
  note d = g[unfolded guest_def] and cd = c[unfolded confined_def]
  have m: "mem s' a = mem s a" if "page_of a \<notin> D" for a using cd guestD(7)[OF g] that by blast
  note st = good_store[OF guestD(1)[OF g] m]
  have vg: "vm_good U R D fs s'" using st(1) vm_good_cong[of s' "s\<lparr>mem := mem s'\<rparr>"] cd by simp
  have wo: "window_only (mem s') r'" if "r' \<in> R" "window_only (mem s) r'" for r'
    by (rule window_only_same[OF that(2)]) (use st(4) that in blast)
  obtain pe w where p: "PROCESSES s' ! pid = (PROCESSES s ! pid)\<lparr>p_pending := pe, p_exit_waiter := w\<rparr>" using cd d by blast
  have "proc_space R D (mem s') (PROCESSES s' ! pid) ps"
    using d st(2) wo unfolding p by (auto simp: proc_space_def user_space_def elim: owns_pages_cong)
  then show ?thesis using d cd vg i by (simp add: guest_def p)
qed

section \<open>One submission\<close>

text \<open>The outcome of serving one submission.\<close>

definition served :: "nat \<Rightarrow> upage list \<Rightarrow> usize \<Rightarrow> 'a proc_state_scheme \<Rightarrow> 'a proc_state_scheme \<Rightarrow> bool" where
  "served pid ps pa s s' \<longleftrightarrow> confined pid ps s s' \<and> input_inv (INPUT s') \<and> sq_same pa (mem s) (mem s') \<and> rp_sq_head (mem s') pa = rp_sq_head (mem s) pa"

lemma served_refl: "input_inv (INPUT s) \<Longrightarrow> served pid ps pa s s"
  by (simp add: served_def confined_refl)

lemma served_trans: "served pid ps pa s t \<Longrightarrow> served pid ps pa t u \<Longrightarrow> served pid ps pa s u"
  by (auto simp: served_def intro: confined_trans sq_same_trans)

lemma served_printed: "input_inv (INPUT s) \<Longrightarrow> served pid ps pa s (printed bs s)"
  using confined_refl[of pid ps s] by (simp add: served_def confined_def printed_def)

lemma served_posted:
  assumes g: "guest U R D fs pid pa ps s"
  shows "served pid ps pa s (posted pa t r s)"
proof (cases "cq_full (mem s) pa")
  case True
  then show ?thesis using served_printed[OF guestD(5)[OF g]] by (simp add: posted_def)
next
  case False
  have "confined pid ps s (s\<lparr>mem := cq_push pa c (mem s)\<rparr>)" for c
    using cq_push_local[OF guestD(8)[OF g]] guestD(6)[OF g] by (intro confined_mem[of pa])
  then show ?thesis using False guestD(5,8)[OF g] by (simp add: served_def posted_def sq_same_def)
qed

lemma served_guest: "guest U R D fs pid pa ps s \<Longrightarrow> served pid ps pa s t \<Longrightarrow> guest U R D fs pid pa ps t"
  using guest_step[of U R D fs pid pa ps s t] by (simp add: served_def)

lemma served_then_posted:
  "guest U R D fs pid pa ps s \<Longrightarrow> served pid ps pa s t \<Longrightarrow> served pid ps pa s (posted pa u r t)"
  by (rule served_trans[OF _ served_posted[OF served_guest]])

lemma guest_range:
  assumes g: "guest U R D fs pid pa ps s"
  shows "\<exists>b. is_user_range pid ptr len w s = Inr (b, s)"
  by (rule is_user_range_total[OF guestD(3)[OF g]])

lemma input_pop_run:
  assumes "input_inv (INPUT s)"
  shows "\<exists>b ib im. input_pop s = Inr (b, s\<lparr>INPUT := ib, uart_imsc := im\<rparr>) \<and> input_inv ib"
proof -
  let ?ib = "(INPUT s)\<lparr>ib_head := (ib_head (INPUT s) + 1) mod INPUT_BUF_SIZE\<rparr>"
  have n: "input_inv ?ib" using assms by (simp add: input_inv_def unat_wrap_256)
  consider "input_is_empty (INPUT s)" | "\<not> input_is_empty (INPUT s)" "input_is_full (INPUT s)"
    | "\<not> input_is_empty (INPUT s)" "\<not> input_is_full (INPUT s)" by blast
  then show ?thesis
  proof cases
    case 1
    then show ?thesis using assms
      by (intro exI[of _ None] exI[of _ "INPUT s"] exI[of _ "uart_imsc s"])
        (simp add: input_pop_def without_irqs_def irq_disable_def irq_restore_def run_simps)
  next
    case 2
    then show ?thesis using assms n
      by (intro exI[of _ "Some (ib_buf (INPUT s) ! unat (ib_head (INPUT s)))"] exI[of _ ?ib] exI[of _ RXIM])
        (simp add: input_pop_def without_irqs_def irq_disable_def irq_restore_def run_simps set_rx_irq_def input_inv_def)
  next
    case 3
    then show ?thesis using assms n
      by (intro exI[of _ "Some (ib_buf (INPUT s) ! unat (ib_head (INPUT s)))"] exI[of _ ?ib] exI[of _ "uart_imsc s"])
        (simp add: input_pop_def without_irqs_def irq_disable_def irq_restore_def run_simps input_inv_def)
  qed
qed

lemma guest_frame_apart:
  assumes "guest U R D fs pid pa ps s" "(va, f, perm) \<in> set ps" "va \<noteq> USER_RING_VA"
  shows "f \<noteq> pa"
proof
  assume "f = pa"
  have "distinct (map (\<lambda>x. fst (snd x)) ps)" "(USER_RING_VA, pa, PAGE_USER_RW) \<in> set ps"
    using assms(1) by (simp_all add: guest_def proc_space_def user_space_def owns_pages_def)
  then have "(va, f, perm) = (USER_RING_VA, pa, PAGE_USER_RW)"
    using assms(2) \<open>f = pa\<close> by (intro inj_onD[of "\<lambda>x. fst (snd x)" "set ps"]) (simp_all add: distinct_map)
  then show False using assms(3) by simp
qed

lemma checked_apart:
  assumes chk: "is_user_range pid dst 1 True s = Inr (True, t)" and apart: "ring_apart (p_loaded (PROCESSES s ! pid))"
  shows "page_of dst \<noteq> USER_RING_VA"
proof -
  note c = is_user_range_true[OF chk]
  from c(3) show ?thesis
  proof (elim disjE conjE bexE)
    assume "USER_STACK_VA \<le> dst" "unat dst + unat (1 :: usize) \<le> unat USER_STACK_VA + 4096"
    then have "page_of dst = USER_STACK_VA" by (intro stack_bytes(1)) simp_all
    then show ?thesis by (simp add: USER_STACK_VA_def USER_RING_VA_def)
  next
    fix rg assume "rg \<in> set (take (l_count (p_loaded (PROCESSES s ! pid))) (l_ranges (p_loaded (PROCESSES s ! pid))))"
      "r_start rg \<le> dst" "unat dst + unat (1 :: usize) \<le> unat (r_end rg)"
    then show ?thesis using apart by (auto simp: ring_apart_def word_less_nat_alt)
  qed
qed

lemma copied_byte:
  assumes g: "guest U R D fs pid pa ps s"
  shows "\<exists>ok t. copy_to_user pid dst [b] s = Inr (ok, t) \<and> served pid ps pa s t"
proof -
  from guest_range[OF g] obtain ok where ok: "is_user_range pid dst 1 True s = Inr (ok, s)" by blast
  show ?thesis
  proof (cases ok)
    case True
    note d = g[unfolded guest_def]
    have chk: "is_user_range pid dst 1 True s = Inr (True, s)" using ok True by simp
    from is_user_range_pages[OF chk, of R D "mem s" ps 0] d obtain f where
      v: "user_va dst" "(page_of dst, f, PAGE_USER_RW) \<in> set ps" by auto
    note l = live_lookup[OF guestD(3)[OF g] v(2,1)]
    have f: "f \<in> page_frames ps" "f \<noteq> pa"
      using v(2) guest_frame_apart[OF g v(2)] checked_apart[OF chk] d by (force simp: page_frames_def, auto)
    have "unat dst < 2 ^ 64" using unsigned_less[of dst, where 'a = nat] by simp
    then have run: "copy_to_user pid dst [b] s = Inr (True, s\<lparr>mem := st8 (mem s) (f OR (dst AND 0xFFF)) b\<rparr>)"
      using chk l by (simp add: copy_to_user_def run_simps sttrb_def write_u8_def)
    let ?pa = "f OR (dst AND 0xFFF)"
    have c: "page_of (cell ?pa) = f" using l(2) by (simp add: page_of_cell)
    have m: "st8 (mem s) ?pa b a = mem s a" if "page_of a \<noteq> f" for a
      by (rule st8_cell_other) (use c that in blast)
    have r: "st8 (mem s) ?pa b (rcell pa n) = mem s (rcell pa n)" if "n < 512" for n
      by (rule m) (use page_of_rcell[OF guestD(8)[OF g] that] f in simp)
    have "served pid ps pa s (s\<lparr>mem := st8 (mem s) ?pa b\<rparr>)"
      using confined_mem[OF m f(1)] guestD(5)[OF g] r ring_page_loads[OF guestD(8)[OF g]] by (simp add: served_def sq_same_def entry_loads)
    then show ?thesis using run by blast
  next
    case False
    then show ?thesis using ok served_refl[OF guestD(5)[OF g]] by (auto simp: copy_to_user_def run_simps)
  qed
qed

lemma drained_input:
  assumes "guest U R D fs pid pa ps s" "unat buf + unat len < 2 ^ 64"
  shows "\<exists>n t. drain_input_loop pid buf len count s = Inr (n, t) \<and> served pid ps pa s t"
  using assms
proof (induction pid buf len count arbitrary: s rule: drain_input_loop.induct)
  case (1 pid buf len count)
  note g = "1.prems"(1)
  show ?case
  proof (cases "count < len")
    case False
    then show ?thesis using served_refl[OF guestD(5)[OF g]] by (subst drain_input_loop.simps) (simp add: run_simps)
  next
    case True
    from input_pop_run[OF guestD(5)[OF g]] obtain bo ib im where
      pop: "input_pop s = Inr (bo, s\<lparr>INPUT := ib, uart_imsc := im\<rparr>)" "input_inv ib" by blast
    let ?s = "s\<lparr>INPUT := ib, uart_imsc := im\<rparr>"
    have s1: "served pid ps pa s ?s" using confined_refl[of pid ps s] pop(2) by (simp add: served_def confined_def)
    show ?thesis
    proof (cases bo)
      case None
      then show ?thesis using True pop s1 by (subst drain_input_loop.simps) (simp add: run_simps)
    next
      case (Some b)
      have add: "unat buf + unat count < 2 ^ 64" using True "1.prems"(2) by (simp add: word_less_nat_alt)
      from copied_byte[OF served_guest[OF g s1], of "buf + count" b] obtain ok t where
        cp: "copy_to_user pid (buf + count) [b] ?s = Inr (ok, t)" "served pid ps pa ?s t" by blast
      have s2: "served pid ps pa s t" using served_trans[OF s1 cp(2)] .
      show ?thesis
      proof (cases ok)
        case False
        then show ?thesis using True pop Some add cp s2 by (subst drain_input_loop.simps) (simp add: run_simps)
      next
        case True': True
        from "1.IH"[OF True _ served_guest[OF g s2] "1.prems"(2), of ok] True' obtain n u where
          "drain_input_loop pid buf len (count + 1) t = Inr (n, u)" "served pid ps pa t u" by blast
        then show ?thesis using True pop Some add cp True' served_trans[OF s2] by (subst drain_input_loop.simps) (auto simp: run_simps)
      qed
    qed
  qed
qed

lemma op_print_served:
  assumes g: "guest U R D fs pid pa ps s"
  shows "\<exists>t. op_print pid pa arg0 arg1 tag s = Inr ((), t) \<and> served pid ps pa s t"
proof -
  from guest_range[OF g] obtain ok where ok: "is_user_range pid arg0 arg1 False s = Inr (ok, s)" by blast
  note pr = served_then_posted[OF g served_printed[OF guestD(5)[OF g]]]
  show ?thesis
  proof (cases ok)
    case True
    then have "is_user_range pid arg0 arg1 False s = Inr (True, s)" using ok by simp
    from read_slice_live[OF guestD(3)[OF g] this] show ?thesis
      using True ok pr served_posted[OF g] by (auto simp: op_print_def run_simps uart_write_str_run)
  qed (use ok served_posted[OF g] in \<open>auto simp: op_print_def run_simps\<close>)
qed

lemma update_served:
  assumes g: "guest U R D fs pid pa ps s" and q: "q < length (PROCESSES s)"
    and p: "p' = (PROCESSES s ! q)\<lparr>p_pending := pe, p_exit_waiter := w\<rparr>"
      "q \<noteq> pid \<Longrightarrow> pe = p_pending (PROCESSES s ! q)" "p_parent (PROCESSES s ! q) \<noteq> Some pid \<Longrightarrow> w = p_exit_waiter (PROCESSES s ! q)"
  shows "served pid ps pa s (s\<lparr>PROCESSES := (PROCESSES s)[q := p']\<rparr>)"
proof -
  have "\<exists>pe w. (PROCESSES s)[q := p'] ! r = (PROCESSES s ! r)\<lparr>p_pending := pe, p_exit_waiter := w\<rparr> \<and>
        (r \<noteq> pid \<longrightarrow> pe = p_pending (PROCESSES s ! r)) \<and> (p_parent (PROCESSES s ! r) \<noteq> Some pid \<longrightarrow> w = p_exit_waiter (PROCESSES s ! r))"
    if "r < length (PROCESSES s)" for r
  proof (cases "r = q")
    case True
    then show ?thesis using p q by (intro exI[of _ pe] exI[of _ w]) simp
  next
    case False
    then show ?thesis by (intro exI[of _ "p_pending (PROCESSES s ! r)"] exI[of _ "p_exit_waiter (PROCESSES s ! r)"]) simp
  qed
  then show ?thesis using guestD(5)[OF g] by (simp add: served_def confined_def)
qed

lemma op_read_served:
  assumes g: "guest U R D fs pid pa ps s"
  shows "\<exists>t. op_read pid pa arg0 arg1 tag s = Inr ((), t) \<and> served pid ps pa s t"
proof -
  from guest_range[OF g] obtain ok where ok: "is_user_range pid arg0 arg1 True s = Inr (ok, s)" by blast
  show ?thesis
  proof (cases "ok \<and> arg1 \<noteq> 0")
    case False
    then show ?thesis using ok served_posted[OF g] by (auto simp: op_read_def run_simps)
  next
    case True
    have b: "unat arg0 + unat arg1 < 2 ^ 64" using is_user_range_true(2)[of pid arg0 arg1 True s s] ok True by simp
    have "\<exists>n t. (if position p_foreground (PROCESSES s) = Some pid then drain_input pid arg0 arg1 else k_return 0) s = Inr (n, t) \<and> served pid ps pa s t"
      using drained_input[OF g b, of 0] served_refl[OF guestD(5)[OF g]] by (auto simp: drain_input_def k_return_def)
    then obtain n t where d: "(if position p_foreground (PROCESSES s) = Some pid then drain_input pid arg0 arg1 else k_return 0) s = Inr (n, t)"
      "served pid ps pa s t" by blast
    have gt: "guest U R D fs pid pa ps t" by (rule served_guest[OF g d(2)])
    let ?pe = "\<lparr>pe_buf = arg0, pe_len = arg1, pe_user_data = tag\<rparr>"
    have "\<exists>b u. park_read pid ?pe t = Inr (b, u) \<and> served pid ps pa t u \<and> (\<not> b \<longrightarrow> u = t)"
    proof (cases "position (\<lambda>s. s = None) (p_pending (PROCESSES t ! pid))")
      case None
      then show ?thesis using guestD(2)[OF gt] served_refl[OF guestD(5)[OF gt]]
        by (intro exI[of _ False] exI[of _ t]) (simp add: park_read_def run_simps)
    next
      case (Some i)
      have "served pid ps pa t (t\<lparr>PROCESSES := (PROCESSES t)[pid := (PROCESSES t ! pid)\<lparr>p_pending := (p_pending (PROCESSES t ! pid))[i := Some ?pe]\<rparr>]\<rparr>)"
        by (rule update_served[OF gt guestD(2)[OF gt], where w = "p_exit_waiter (PROCESSES t ! pid)"]) simp_all
      then show ?thesis using Some guestD(2)[OF gt] by (intro exI[of _ True]) (simp add: park_read_def run_simps)
    qed
    then obtain pk u where pk: "park_read pid ?pe t = Inr (pk, u)" "served pid ps pa t u" "\<not> pk \<longrightarrow> u = t" by blast
    have "op_read pid pa arg0 arg1 tag s = (if 0 < n then complete pa tag n else k_bind (park_read pid ?pe) (\<lambda>parked.
         if parked then k_return () else complete pa tag RING_ERR)) t"
      using ok True d(1) by (simp add: op_read_def foreground_pid_def k_bind_def[of "k_gets _"] k_gets_def k_bind_def)
    then show ?thesis using pk served_then_posted[OF g d(2)] served_trans[OF d(2)] by (auto simp: run_simps)
  qed
qed

lemma ring_wait_served:
  assumes g: "guest U R D fs pid pa ps s"
  shows "\<exists>t. ring_wait pid handle tag s = Inr ((), t) \<and> served pid ps pa s t"
proof -
  note run = ring_wait_def proc_ring_pa_def proc_count_def proc_parent_def exit_code_def register_wait_def run_simps
  let ?h = "unat handle"
  show ?thesis
  proof (cases "?h < length (PROCESSES s) \<and> p_parent (PROCESSES s ! ?h) = Some pid \<and> p_exit_code (PROCESSES s ! ?h) = None")
    case True
    have "served pid ps pa s (s\<lparr>PROCESSES := (PROCESSES s)[?h := (PROCESSES s ! ?h)\<lparr>p_exit_waiter := Some tag\<rparr>]\<rparr>)"
      using True by (intro update_served[OF g, where pe = "p_pending (PROCESSES s ! ?h)" and w = "Some tag"]) simp_all
    then show ?thesis using True guestD(2)[OF g] by (simp add: run)
  next
    case False
    then show ?thesis using served_posted[OF g] guestD(2,4)[OF g] by (auto simp: run not_less split: option.splits)
  qed
qed

lemma process_sqe_served:
  assumes g: "guest U R D fs pid pa ps s" and i: "i < 16" "sqe_opcode (load_sqe (mem s) pa i) \<noteq> OP_SPAWN"
  shows "\<exists>t. process_sqe ki pid pa i s = Inr ((), t) \<and> served pid ps pa s t"
  using i(2) op_print_served[OF g] op_read_served[OF g] ring_wait_served[OF g] served_posted[OF g] guestD(2,4)[OF g]
  by (simp add: process_sqe_def Let_def run_simps proc_ring_pa_def)

section \<open>The whole ring\<close>

lemma drain_loop_served:
  assumes "guest U R D fs pid pa ps s" "\<forall>i < 16. sqe_opcode (load_sqe (mem s) pa i) \<noteq> OP_SPAWN" "rp_sq_head (mem s) pa = head"
  shows "\<exists>t. drain_loop ki pid pa tail head s = Inr ((), t) \<and> confined pid ps s t \<and> input_inv (INPUT t) \<and>
    sq_same pa (mem s) (mem t) \<and> rp_sq_head (mem t) pa = tail"
  using assms
proof (induction ki pid pa tail head arbitrary: s rule: drain_loop.induct)
  case (1 ki pid pa tail head)
  note g = "1.prems"(1)
  show ?case
  proof (cases "head = tail")
    case True
    then show ?thesis using confined_refl guestD(5)[OF g] "1.prems"(3) by (subst drain_loop.simps) (simp add: run_simps)
  next
    case False
    from process_sqe_served[OF g ring_slot_less] "1.prems"(2) obtain t where
      t: "process_sqe ki pid pa (ring_slot head) s = Inr ((), t)" "served pid ps pa s t" by (metis ring_slot_less)
    let ?u = "t\<lparr>mem := set_sq_head pa (head + 1) (mem t)\<rparr>"
    have al: "page_aligned pa" by (rule guestD(8)[OF g])
    have gt: "guest U R D fs pid pa ps t" by (rule served_guest[OF g t(2)])
    have c: "confined pid ps t ?u" using ring_stores_local(1)[OF al] guestD(6)[OF g] by (intro confined_mem[of pa])
    have gu: "guest U R D fs pid pa ps ?u" using guestD(5)[OF gt] by (intro guest_step[OF gt c]) simp
    have q: "sq_same pa (mem s) (mem ?u)" "rp_sq_head (mem ?u) pa = head + 1" using t(2) al by (auto simp: served_def sq_same_def)
    have "\<forall>i < 16. sqe_opcode (load_sqe (mem ?u) pa i) \<noteq> OP_SPAWN" using "1.prems"(2) q(1) by (simp add: sq_same_def)
    from "1.IH"[OF False gu this q(2)] obtain v where v: "drain_loop ki pid pa tail (head + 1) ?u = Inr ((), v)"
      "confined pid ps ?u v" "input_inv (INPUT v)" "sq_same pa (mem ?u) (mem v)" "rp_sq_head (mem v) pa = tail" by blast
    have "confined pid ps s v" using t(2) c v(2) by (blast intro: confined_trans dest: served_def[THEN iffD1])
    moreover have "drain_loop ki pid pa tail head s = Inr ((), v)" using False t(1) v(1) by (subst drain_loop.simps) (simp add: run_simps)
    ultimately show ?thesis using v(3,5) sq_same_trans[OF q(1) v(4)] by blast
  qed
qed

section \<open>The guest that ring setup makes\<close>

lemma memset_page_loop:
  "page_aligned f \<Longrightarrow> page_of a \<noteq> f \<Longrightarrow> n = 4096 \<Longrightarrow> memset_loop f b n i m a = m a"
proof (induction f b n i m rule: memset_loop.induct)
  case (1 f b n i m)
  show ?case
  proof (cases "i < n")
    case True
    have "page_of (cell (f + i)) = f" using True "1.prems" by (simp add: page_of_cell page_of_add)
    then have "st8 m (f + i) b a = m a" using "1.prems"(2) by (intro st8_cell_other) blast
    then show ?thesis using "1.IH"[OF True "1.prems"] True by (subst memset_loop.simps) simp
  next
    case False
    then show ?thesis by (subst memset_loop.simps) simp
  qed
qed

lemma memset_page: "page_aligned f \<Longrightarrow> page_of a \<noteq> f \<Longrightarrow> memset f v 4096 m a = m a"
  unfolding memset_def by (rule memset_page_loop) simp_all

lemma ring_setup_guest:
  assumes good: "vm_good U R D fs s" and sch: "sched_ok (SCHEDULER s)" "task_process (tasks (SCHEDULER s) ! current (SCHEDULER s)) = Some pid"
    and pid: "pid < length (PROCESSES s)" and p: "PROCESSES s ! pid = p" "proc_space R D (mem s) p ps" "p_ring_pa p = 0" "ring_apart (p_loaded p)"
    and rest: "l0_ptr (ttbr0_el1 s) = p_ttbr0 p" "USER_RING_VA \<notin> fst ` set ps" "input_inv (INPUT s)" "4 \<le> length fs"
  shows "wp ring_setup (\<lambda>r s'. r = USER_RING_VA \<and> (\<exists>pa fs'. guest U R (insert pa D) fs' pid pa (ps @ [(USER_RING_VA, pa, PAGE_USER_RW)]) s')) s"
proof -
  obtain f gs where fs: "fs = f # gs" "3 \<le> length gs" using rest(4) by (cases fs) auto
  note al = good_alloc[OF good[unfolded fs(1)]]
  let ?s1 = "(pop_state f s)\<lparr>mem := memset f 0 4096 (mem s)\<rparr>"
  have us: "user_space R D (mem s) (p_ttbr0 p) ps" using p(2) by (simp add: proc_space_def)
  have m1: "mem (pop_state f s) = mem s" by (simp add: pop_state_def)
  have st: "vm_good U R (insert f D) gs ?s1" "user_space R (insert f D) (mem ?s1) (p_ttbr0 p) ps"
    using store_user_frame(1,2)[OF al(2), of "p_ttbr0 p" ps f "memset f 0 4096 (mem s)"] user_space_more[OF us, of "insert f D"]
      memset_page[OF valid_frame_aligned[OF al(5)]] by (simp_all add: m1 subset_insertI)
  have "f \<notin> page_frames ps" using us al(3) by (auto simp: user_space_def)
  moreover have v: "user_va USER_RING_VA" "page_aligned USER_RING_VA" "user_perm PAGE_USER_RW"
    by (simp_all add: USER_RING_VA_def USER_BASE_def user_va_unat page_aligned_def user_perm_def)
  ultimately obtain s2 n where mp: "map_page_in (p_ttbr0 p) USER_RING_VA f PAGE_USER_RW ?s1 = Inr ((), s2)"
    and s2: "vm_good U R (insert f D) (drop n gs) s2" "user_space R (insert f D) (mem s2) (p_ttbr0 p) (ps @ [(USER_RING_VA, f, PAGE_USER_RW)])" "vm_only ?s1 s2"
    using map_user_page[OF st fs(2), of f USER_RING_VA PAGE_USER_RW] rest(2) by (auto simp: wp_iff)
  have k: "PROCESSES s2 = PROCESSES s" "ttbr0_el1 s2 = ttbr0_el1 s" "INPUT s2 = INPUT s"
    by (subst s2(3)[unfolded vm_only_def], simp add: pop_state_def)+
  have l: "l0_ptr (p_ttbr0 p) = p_ttbr0 p" using vm_goodD(12)[OF good, of "p_ttbr0 p"] us by (simp add: l0_ptr_def user_space_def)
  let ?p = "p\<lparr>p_ring_pa := f, p_frames := p_frames p @ [(USER_RING_VA, f)]\<rparr>"
  let ?t = "s2\<lparr>PROCESSES := (PROCESSES s2)[pid := ?p]\<rparr>"
  have q: "PROCESSES (pop_state f s) = PROCESSES s" by (simp add: pop_state_def)
  have run: "ring_setup s = Inr (USER_RING_VA, ?t)"
    using pid p(1,3) sch k(1) q
    by (simp add: ring_setup_def current_process_run proc_ring_pa_def proc_ttbr0_def set_ring_def run_simps al(1) l mp m1)
  have "proc_space R (insert f D) (mem ?t) ?p (ps @ [(USER_RING_VA, f, PAGE_USER_RW)])"
    using p(2) s2(2) by (force simp: proc_space_def range_pages_def)
  then have "guest U R (insert f D) (drop n gs) pid f (ps @ [(USER_RING_VA, f, PAGE_USER_RW)]) ?t"
    using s2(1) vm_good_cong[of ?t s2] pid p rest k by (simp add: guest_def)
  then show ?thesis using run by (auto simp: wp_def)
qed

text \<open>
  C2. Whatever a program has written to its ring page (opcodes other than spawn, arbitrary
  pointers, lengths, handles and indices), draining it never panics, consumes the submissions up
  to the published tail, leaves the entries as they were, and changes no memory outside the
  pages of that process; page tables, frame pool, scheduler and the other processes stay as they
  were, except for which wait an own child will answer.
\<close>

theorem hostile_ring_confined:
  assumes "guest U R D fs pid pa ps s" "\<forall>i < 16. sqe_opcode (load_sqe (mem s) pa i) \<noteq> OP_SPAWN"
  shows "wp (drain ki pid) (\<lambda>r s'. guest U R D fs pid pa ps s' \<and> confined pid ps s s' \<and>
    rp_sq_head (mem s') pa = rp_sq_tail (mem s) pa \<and> sq_same pa (mem s) (mem s') \<and>
    r = (rp_sq_head (mem s) pa \<noteq> rp_sq_tail (mem s) pa)) s"
proof -
  let ?s = "s\<lparr>daif := daif s OR DAIF_I\<rparr>"
  have g: "guest U R D fs pid pa ps ?s" using assms(1) vm_good_cong[of ?s s] by (simp add: guest_def)
  from drain_loop_served[OF g, of "rp_sq_head (mem s) pa" ki "rp_sq_tail (mem s) pa"] assms(2) obtain t where
    t: "drain_loop ki pid pa (rp_sq_tail (mem s) pa) (rp_sq_head (mem s) pa) ?s = Inr ((), t)" "confined pid ps ?s t" "input_inv (INPUT t)"
      "sq_same pa (mem s) (mem t)" "rp_sq_head (mem t) pa = rp_sq_tail (mem s) pa" by auto
  let ?t = "t\<lparr>daif := daif s\<rparr>"
  have c: "confined pid ps s ?t" using t(2) by (simp add: confined_def)
  have "drain ki pid s = Inr (rp_sq_head (mem s) pa \<noteq> rp_sq_tail (mem s) pa, ?t)"
    using guestD(2,4,9)[OF g] t(1) by (simp add: drain_def, intro without_irqs_run) (simp add: run_simps proc_ring_pa_def)
  moreover have "guest U R D fs pid pa ps ?t" using guest_step[OF assms(1) c] t(3) by simp
  ultimately show ?thesis using c t(4,5) by (simp add: wp_def)
qed

theorem hostile_ring_confined_witness:
  "\<exists>(s :: proc_state) U R D fs pa ps. guest U R D fs 0 pa ps s \<and> rp_sq_tail (mem s) pa = 5 \<and>
     wp (drain \<lparr>ki_trampoline = 0, ki_user_task = 0, ki_programs = []\<rparr> 0) (\<lambda>r s'. r \<and> rp_sq_head (mem s') pa = 5 \<and> confined 0 ps s s') s"
proof -
  let ?U = "set (frame_range 32)" and ?R = "{0x40100000, 0x40103000} :: usize set" and ?r = "0x40103000 :: usize"
  have "INSTALLED off_proc = 0" by (simp add: off_proc_def state_defs three_tasks_def off_mmu_def)
  with sample_space[of off_proc 32] obtain s0 :: proc_state where
    s0: "vm_good ?U ?R {} (drop 4 (frame_range 32)) s0" "user_space ?R {} (mem s0) ?r []" by (auto simp: wp_iff)
  obtain f gs where fs: "drop 4 (frame_range 32) = f # gs" "length gs = 27"
    by (cases "drop 4 (frame_range 32)") (auto dest: arg_cong[of _ _ length])
  note al = good_alloc[OF s0(1)[unfolded fs(1)]]
  have "user_space ?R {f} (mem (pop_state f s0)) ?r []" using user_space_more[OF s0(2), of "{f}"] by (simp add: pop_state_def)
  from map_user_page[OF al(2) this, of f USER_STACK_VA PAGE_USER_RW] fs(2) stack_va obtain s1 :: proc_state and n where
    s1: "n \<le> 3" "vm_good ?U ?R {f} (drop n gs) s1" "user_space ?R {f} (mem s1) ?r [(USER_STACK_VA, f, PAGE_USER_RW)]"
    by (auto simp: wp_iff user_perm_def)
  from good_switch[OF s1(2), of ?r] obtain s2 :: proc_state where s2: "vm_good ?U ?R {f} (drop n gs) s2" "ttbr0_el1 s2 = ?r" "mem s2 = mem s1"
    by (auto simp: wp_iff)
  let ?p = "sample_parent\<lparr>p_ttbr0 := ?r, p_frames := [(USER_STACK_VA, f)], p_ring_pa := 0\<rparr>"
  let ?s = "s2\<lparr>PROCESSES := [?p], SCHEDULER := \<lparr>tasks = [(sample_task 0)\<lparr>task_process := Some 0\<rparr>], current = 0\<rparr>, INPUT := InputBuf_init\<rparr>"
  have g: "vm_good ?U ?R {f} (drop n gs) ?s" using s2(1) vm_good_cong[of ?s s2] by simp
  have r: "l0_ptr ?r = ?r" by (simp add: l0_ptr_def ADDR_MASK_def)
  have "wp ring_setup (\<lambda>r s'. r = USER_RING_VA \<and> (\<exists>pa fs'. guest ?U ?R (insert pa {f}) fs' 0 pa
      ([(USER_STACK_VA, f, PAGE_USER_RW)] @ [(USER_RING_VA, pa, PAGE_USER_RW)]) s')) ?s"
    by (rule ring_setup_guest[OF g, where p = ?p]) (use s1(1,3) s2(2,3) fs(2) r in \<open>simp_all add: sched_ok_def sample_task_def sample_parent_def
      proc_space_def ring_apart_def InputBuf_init_ok USER_STACK_VA_def USER_RING_VA_def\<close>)
  then obtain s3 :: proc_state and pa fs' where g3: "guest ?U ?R {pa, f} fs' 0 pa [(USER_STACK_VA, f, PAGE_USER_RW), (USER_RING_VA, pa, PAGE_USER_RW)] s3"
    by (auto simp: wp_iff)
  let ?m = "\<lambda>a. if page_of a = pa then 0 else mem s3 a"
  let ?t = "s3\<lparr>mem := set_sq_tail pa 5 ?m\<rparr>"
  have al: "page_aligned pa" by (rule guestD(8)[OF g3])
  have "confined 0 [(USER_STACK_VA, f, PAGE_USER_RW), (USER_RING_VA, pa, PAGE_USER_RW)] s3 ?t"
    using ring_stores_local(2)[OF al] by (intro confined_mem[of pa]) simp_all
  from guest_step[OF g3 this] have gt: "guest ?U ?R {pa, f} fs' 0 pa [(USER_STACK_VA, f, PAGE_USER_RW), (USER_RING_VA, pa, PAGE_USER_RW)] ?t"
    using guestD(5)[OF g3] by simp
  have "sqe_opcode (load_sqe ?m pa i) = 0" if "i < 16" for i using that by (simp add: entry_loads page_of_rcell[OF al])
  then have z: "\<forall>i < 16. sqe_opcode (load_sqe (mem ?t) pa i) \<noteq> OP_SPAWN" using al by (simp add: OP_SPAWN_def)
  have "rp_sq_head ?m pa = 0" using al by (simp add: ring_page_loads page_of_rcell get_half_def)
  then have "rp_sq_head (mem ?t) pa = 0" using al by simp
  with hostile_ring_confined[OF gt z, of "\<lparr>ki_trampoline = 0, ki_user_task = 0, ki_programs = []\<rparr>"] al
  have "wp (drain \<lparr>ki_trampoline = 0, ki_user_task = 0, ki_programs = []\<rparr> 0) (\<lambda>r s'. r \<and> rp_sq_head (mem s') pa = 5 \<and>
      confined 0 [(USER_STACK_VA, f, PAGE_USER_RW), (USER_RING_VA, pa, PAGE_USER_RW)] ?t s') ?t"
    by (auto elim!: wp_mono)
  moreover have "rp_sq_tail (mem ?t) pa = 5" using al by simp
  ultimately show ?thesis using gt by blast
qed

end
