(* ===== verification/Layout.thy ===== *)
theory Layout
  imports Abi
begin

text \<open>
  The types of \<^verbatim>\<open>abi/src/lib.rs\<close>. The three \<^verbatim>\<open>repr(C)\<close> structs are written down as declared and
  laid out by the rule of the C representation: each field at the next offset that is a multiple of
  its alignment, the size rounded up to the alignment of the struct. The compile-time assertions at
  the end of the source file are evaluated on that layout, and the loads and stores of theory Abi are
  shown to be the field accesses of a value of the type \<^verbatim>\<open>RingPage\<close>.
\<close>

section \<open>The C representation\<close>

datatype rtype = U8 | AtomicU32 | AtomicU64 | AtomicI64 | Array rtype nat | Struct fields
  and fields = NoField | Field string rtype fields

definition round_up :: "nat \<Rightarrow> nat \<Rightarrow> nat" where
  "round_up n a = (n + (a - 1)) div a * a"

primrec align_of :: "rtype \<Rightarrow> nat" and fields_align :: "fields \<Rightarrow> nat" where
  "align_of U8 = 1"
| "align_of AtomicU32 = 4"
| "align_of AtomicU64 = 8"
| "align_of AtomicI64 = 8"
| "align_of (Array t n) = align_of t"
| "align_of (Struct fs) = fields_align fs"
| "fields_align NoField = 1"
| "fields_align (Field f t fs) = max (align_of t) (fields_align fs)"

primrec size_of :: "rtype \<Rightarrow> nat" and fields_end :: "fields \<Rightarrow> nat \<Rightarrow> nat" where
  "size_of U8 = 1"
| "size_of AtomicU32 = 4"
| "size_of AtomicU64 = 8"
| "size_of AtomicI64 = 8"
| "size_of (Array t n) = n * size_of t"
| "size_of (Struct fs) = round_up (fields_end fs 0) (fields_align fs)"
| "fields_end NoField at = at"
| "fields_end (Field f t fs) at = fields_end fs (round_up at (align_of t) + size_of t)"

primrec placed :: "fields \<Rightarrow> nat \<Rightarrow> (string \<times> rtype \<times> nat) list" where
  "placed NoField at = []"
| "placed (Field f t fs) at = (let off = round_up at (align_of t) in (f, t, off) # placed fs (off + size_of t))"

definition offset_of :: "fields \<Rightarrow> string \<Rightarrow> nat option" where
  "offset_of fs f = map_option (\<lambda>(_, _, off). off) (find (\<lambda>(g, _, _). g = f) (placed fs 0))"

text \<open>
  The rule itself is sound: the fields of any struct are aligned, follow one another without overlap
  and end inside the struct.
\<close>

fun fields_apart :: "(string \<times> rtype \<times> nat) list \<Rightarrow> nat \<Rightarrow> nat \<Rightarrow> bool" where
  "fields_apart [] lo hi \<longleftrightarrow> lo \<le> hi"
| "fields_apart ((f, t, off) # ps) lo hi \<longleftrightarrow> lo \<le> off \<and> align_of t dvd off \<and> fields_apart ps (off + size_of t) hi"

lemma align_pos: "0 < align_of t" "0 < fields_align fs"
  by (induction t and fs) simp_all

lemma round_up: "0 < a \<Longrightarrow> n \<le> round_up n a" "a dvd round_up n a"
proof -
  assume a: "0 < a"
  have "n + (a - 1) = (n + (a - 1)) div a * a + (n + (a - 1)) mod a" by simp
  moreover have "(n + (a - 1)) mod a \<le> a - 1" using mod_less_divisor[OF a, of "n + (a - 1)"] by linarith
  ultimately show "n \<le> round_up n a" unfolding round_up_def by linarith
qed (simp add: round_up_def)

lemma placed_apart: "fields_apart (placed fs at) at (fields_end fs at)"
proof -
  have "True" "\<And>at. fields_apart (placed fs at) at (fields_end fs at)" for t :: rtype and fs
    by (induction t and fs) (simp_all add: Let_def round_up align_pos)
  then show ?thesis by blast
qed

lemma fields_apart_mono: "fields_apart ps lo hi \<Longrightarrow> hi \<le> hi' \<Longrightarrow> fields_apart ps lo hi'"
  by (induction ps lo hi rule: fields_apart.induct) auto

lemma struct_apart: "fields_apart (placed fs 0) 0 (size_of (Struct fs))"
  using fields_apart_mono[OF placed_apart round_up(1)[OF align_pos(2)]] by simp

section \<open>The declared types\<close>

definition Sqe_fields :: fields where
  "Sqe_fields = Field ''opcode'' AtomicU64 (Field ''arg0'' AtomicU64 (Field ''arg1'' AtomicU64
     (Field ''user_data'' AtomicU64 NoField)))"

definition Cqe_fields :: fields where
  "Cqe_fields = Field ''user_data'' AtomicU64 (Field ''result'' AtomicI64 NoField)"

definition RingPage_fields :: fields where
  "RingPage_fields =
     Field ''sq_head'' AtomicU32
    (Field ''sq_tail'' AtomicU32
    (Field ''cq_head'' AtomicU32
    (Field ''cq_tail'' AtomicU32
    (Field ''flags'' AtomicU32
    (Field ''_pad0'' (Array U8 (0x40 - 0x14))
    (Field ''sq'' (Array (Struct Sqe_fields) (unat RING_ENTRIES))
    (Field ''_pad1'' (Array U8 (0x280 - 0x240))
    (Field ''cq'' (Array (Struct Cqe_fields) (unat RING_ENTRIES)) NoField))))))))"

definition static_assertions :: bool where
  "static_assertions \<longleftrightarrow>
     size_of (Struct Sqe_fields) = 32 \<and>
     size_of (Struct Cqe_fields) = 16 \<and>
     offset_of RingPage_fields ''sq_head'' = Some 0x00 \<and>
     offset_of RingPage_fields ''sq_tail'' = Some 0x04 \<and>
     offset_of RingPage_fields ''cq_head'' = Some 0x08 \<and>
     offset_of RingPage_fields ''cq_tail'' = Some 0x0c \<and>
     offset_of RingPage_fields ''flags'' = Some 0x10 \<and>
     offset_of RingPage_fields ''sq'' = Some 0x40 \<and>
     offset_of RingPage_fields ''cq'' = Some 0x280 \<and>
     size_of (Struct RingPage_fields) \<le> 4096"

section \<open>A page of memory as a value of the type\<close>

record RingPage =
  sq_head :: u32
  sq_tail :: u32
  cq_head :: u32
  cq_tail :: u32
  flags :: u32
  sq :: "Sqe list"
  cq :: "Cqe list"

definition RingPage_at :: "memory \<Rightarrow> usize \<Rightarrow> RingPage" where
  "RingPage_at m pa = \<lparr>sq_head = rp_sq_head m pa, sq_tail = rp_sq_tail m pa, cq_head = rp_cq_head m pa,
     cq_tail = rp_cq_tail m pa, flags = rp_flags m pa,
     sq = map (load_sqe m pa) [0..<unat RING_ENTRIES], cq = map (load_cqe m pa) [0..<unat RING_ENTRIES]\<rparr>"

datatype page_store = SqHead u32 | SqTail u32 | CqHead u32 | CqTail u32 | Flags u32 | SqEntry nat Sqe | CqEntry nat Cqe

fun store_at :: "usize \<Rightarrow> page_store \<Rightarrow> memory \<Rightarrow> memory" where
  "store_at pa (SqHead v) m = set_sq_head pa v m"
| "store_at pa (SqTail v) m = set_sq_tail pa v m"
| "store_at pa (CqHead v) m = set_cq_head pa v m"
| "store_at pa (CqTail v) m = set_cq_tail pa v m"
| "store_at pa (Flags v) m = set_flags pa v m"
| "store_at pa (SqEntry i e) m = store_sqe pa i e m"
| "store_at pa (CqEntry i e) m = store_cqe pa i e m"

fun set_field :: "page_store \<Rightarrow> RingPage \<Rightarrow> RingPage" where
  "set_field (SqHead v) p = p\<lparr>sq_head := v\<rparr>"
| "set_field (SqTail v) p = p\<lparr>sq_tail := v\<rparr>"
| "set_field (CqHead v) p = p\<lparr>cq_head := v\<rparr>"
| "set_field (CqTail v) p = p\<lparr>cq_tail := v\<rparr>"
| "set_field (Flags v) p = p\<lparr>flags := v\<rparr>"
| "set_field (SqEntry i e) p = p\<lparr>sq := (sq p)[i := e]\<rparr>"
| "set_field (CqEntry i e) p = p\<lparr>cq := (cq p)[i := e]\<rparr>"

fun entry_in_range :: "page_store \<Rightarrow> bool" where
  "entry_in_range (SqEntry i e) \<longleftrightarrow> i < unat RING_ENTRIES"
| "entry_in_range (CqEntry i e) \<longleftrightarrow> i < unat RING_ENTRIES"
| "entry_in_range _ \<longleftrightarrow> True"

lemma RING_ENTRIES_16: "unat RING_ENTRIES = 16"
  by (simp add: RING_ENTRIES_def)

lemma map_upt_update: "i < n \<Longrightarrow> map (\<lambda>j. if i = j then e else f j) [0..<n] = (map f [0..<n])[i := e]"
  by (rule nth_equalityI) (auto simp: nth_list_update)

lemma store_at_step:
  assumes "page_aligned pa" "entry_in_range st"
  shows "RingPage_at (store_at pa st m) pa = set_field st (RingPage_at m pa)"
    and "page_of a \<noteq> pa \<Longrightarrow> store_at pa st m a = m a"
  using assms by (cases st; simp add: RingPage_at_def RING_ENTRIES_16 map_upt_update[symmetric] ring_stores_local cong: map_cong)+

lemma fold_store_at:
  assumes "page_aligned pa" "list_all entry_in_range sts"
  shows "RingPage_at (fold (store_at pa) sts m) pa = fold set_field sts (RingPage_at m pa)"
    and "page_of a \<noteq> pa \<Longrightarrow> fold (store_at pa) sts m a = m a"
  using assms(2) by (induction sts arbitrary: m) (simp_all add: store_at_step[OF assms(1)])

lemma static_assertions_hold: static_assertions
  by (simp add: static_assertions_def offset_of_def RingPage_fields_def Sqe_fields_def Cqe_fields_def round_up_def Let_def RING_ENTRIES_16)

text \<open>
  C40. The shared page is a value of the type RingPage: the compile-time assertions hold for the
  C layout of the declared structs, the fields are aligned, apart and inside the page, the
  addresses the accessors use are those offsets, and any sequence of stores by kernel and
  program changes exactly the fields stored to and nothing outside the page.
\<close>

theorem ring_page_typed:
  assumes "page_aligned pa" "list_all entry_in_range sts"
  shows "static_assertions \<and>
    fields_apart (placed RingPage_fields 0) 0 (size_of (Struct RingPage_fields)) \<and>
    map (\<lambda>f. map_option of_nat (offset_of RingPage_fields f)) [''sq_head'', ''sq_tail'', ''cq_head'', ''cq_tail'', ''flags'', ''sq'', ''cq''] =
      map Some [OFF_SQ_HEAD, OFF_SQ_TAIL, OFF_CQ_HEAD, OFF_CQ_TAIL, OFF_FLAGS, OFF_SQ, OFF_CQ] \<and>
    sqe_addr pa i = pa + OFF_SQ + of_nat (i * size_of (Struct Sqe_fields)) \<and>
    cqe_addr pa i = pa + OFF_CQ + of_nat (i * size_of (Struct Cqe_fields)) \<and>
    RingPage_at (fold (store_at pa) sts m) pa = fold set_field sts (RingPage_at m pa) \<and>
    (page_of a \<noteq> pa \<longrightarrow> fold (store_at pa) sts m a = m a)"
proof -
  note [simp] = static_assertions_hold[unfolded static_assertions_def]
  show ?thesis
    using static_assertions_hold struct_apart[of RingPage_fields] fold_store_at[OF assms]
    by (simp add: OFF_SQ_HEAD_def OFF_SQ_TAIL_def OFF_CQ_HEAD_def OFF_CQ_TAIL_def OFF_FLAGS_def OFF_SQ_def OFF_CQ_def
        sqe_addr_def cqe_addr_def del: size_of.simps)
qed

theorem ring_page_typed_witness:
  "static_assertions \<and> RingPage_at (fold (store_at 0x40100000) [SqTail 1, CqEntry 3 \<lparr>cqe_user_data = 7, cqe_result = -1\<rparr>, CqTail 4] (\<lambda>_. 0)) 0x40100000 =
     fold set_field [SqTail 1, CqEntry 3 \<lparr>cqe_user_data = 7, cqe_result = -1\<rparr>, CqTail 4] (RingPage_at (\<lambda>_. 0) 0x40100000)"
  using ring_page_typed[of "0x40100000" "[SqTail 1, CqEntry 3 \<lparr>cqe_user_data = 7, cqe_result = -1\<rparr>, CqTail 4]" 0 "\<lambda>_. 0" 0]
  by (simp add: page_aligned_def RING_ENTRIES_16)

end
