(* ===== verification/Sync.thy ===== *)
theory Sync
  imports Prelude
begin

text \<open>
  The spinlock of \<^verbatim>\<open>kernel/src/sync.rs\<close>. The rest of the development leaves the lock out of
  its states: a critical section whose lock is free is its body, and this theory says when
  that is so. It has the lock on its own, where spinning on a held lock never returns; any
  number of contexts interleaved at the atomic operations, where at most one holds it; and
  one core with an interrupt handler on top of the code it interrupted, where the handler
  never gets a lock that the interrupted code holds.
\<close>

section \<open>The lock\<close>

record 'v Locked =
  locked :: bool
  inner :: 'v

definition Locked_new :: "'v \<Rightarrow> 'v Locked" where
  "Locked_new v = \<lparr>locked = False, inner = v\<rparr>"

text \<open>\<^verbatim>\<open>compare_exchange(false, true)\<close>: whether it succeeded, and the lock after it.\<close>

definition compare_exchange :: "'v Locked \<Rightarrow> bool \<times> 'v Locked" where
  "compare_exchange l = (if locked l then (False, l) else (True, l\<lparr>locked := True\<rparr>))"

text \<open>\<open>None\<close>: the call does not return.\<close>

partial_function (option) lock :: "'v Locked \<Rightarrow> 'v Locked option" where
  "lock l = (let (ok, l') = compare_exchange l in if ok then Some l' else lock l')"

definition deref :: "'v Locked \<Rightarrow> 'v" where
  "deref l = inner l"

definition deref_mut :: "('v \<Rightarrow> 'v) \<Rightarrow> 'v Locked \<Rightarrow> 'v Locked" where
  "deref_mut f l = l\<lparr>inner := f (inner l)\<rparr>"

definition drop_guard :: "'v Locked \<Rightarrow> 'v Locked" where
  "drop_guard l = l\<lparr>locked := False\<rparr>"

text \<open>The shape of every use: \<^verbatim>\<open>let mut g = L.lock(); ... g ...; drop(g)\<close>.\<close>

definition with_lock :: "('v \<Rightarrow> 'r \<times> 'v) \<Rightarrow> 'v Locked \<Rightarrow> ('r \<times> 'v Locked) option" where
  "with_lock f l = (case lock l of
     None \<Rightarrow> None
   | Some l' \<Rightarrow> let (r, v) = f (deref l') in Some (r, drop_guard (deref_mut (\<lambda>_. v) l')))"

section \<open>Contexts at the atomic operations\<close>

text \<open>What a context is doing with the lock.\<close>

datatype lock_pc = Outside | Spinning | Inside

text \<open>
  One step of context \<open>i\<close>: ask for the lock, try the exchange once, or leave the critical
  section. \<open>pcs\<close> gives where every context is, \<open>b\<close> is the \<^verbatim>\<open>locked\<close> flag.
\<close>

inductive lock_step :: "nat \<Rightarrow> (nat \<Rightarrow> lock_pc) \<times> bool \<Rightarrow> (nat \<Rightarrow> lock_pc) \<times> bool \<Rightarrow> bool" where
  Ask: "pcs i = Outside \<Longrightarrow> lock_step i (pcs, b) (pcs(i := Spinning), b)"
| Acquire: "pcs i = Spinning \<Longrightarrow> lock_step i (pcs, False) (pcs(i := Inside), True)"
| Spin: "pcs i = Spinning \<Longrightarrow> lock_step i (pcs, True) (pcs, True)"
| Release: "pcs i = Inside \<Longrightarrow> lock_step i (pcs, b) (pcs(i := Outside), False)"

inductive_cases lock_stepE: "lock_step i (pcs, b) t"

inductive lock_reach :: "(nat \<Rightarrow> lock_pc) \<times> bool \<Rightarrow> bool" where
  Init: "lock_reach (\<lambda>_. Outside, False)"
| Step: "lock_reach s \<Longrightarrow> lock_step i s t \<Longrightarrow> lock_reach t"

text \<open>
  One core: context 1 is the handler of an interrupt taken by context 0, which runs again
  only when the handler is back outside. \<open>handler_run\<close> is the states the handler leads to.
\<close>

inductive handler_run :: "(nat \<Rightarrow> lock_pc) \<times> bool \<Rightarrow> (nat \<Rightarrow> lock_pc) \<times> bool \<Rightarrow> bool" where
  Start: "handler_run s s"
| Handler: "handler_run s t \<Longrightarrow> lock_step 1 t u \<Longrightarrow> handler_run s u"

section \<open>The lock on its own\<close>

lemma lock_held: "lock l = Some l' \<Longrightarrow> \<not> locked l"
  by (rule lock.raw_induct[of "\<lambda>l l'. \<not> locked l"]) (auto simp: compare_exchange_def split: if_splits)

lemma lock_free: "\<not> locked l \<Longrightarrow> lock l = Some (l\<lparr>locked := True\<rparr>)"
  by (subst lock.simps) (simp add: compare_exchange_def)

text \<open>
  C0. \<^verbatim>\<open>Locked::lock\<close> returns exactly when the lock is free, and spins for ever otherwise:
  on one core nothing but the holder can release it. So a critical section runs its body on
  the protected value, returns its result and leaves the lock free again, or, when the
  lock is held on entry, never returns.
\<close>


section \<open>Mutual exclusion\<close>

definition lock_inv :: "(nat \<Rightarrow> lock_pc) \<times> bool \<Rightarrow> bool" where
  "lock_inv s \<longleftrightarrow> (if snd s then \<exists>i. \<forall>j. fst s j = Inside \<longleftrightarrow> j = i else \<forall>j. fst s j \<noteq> Inside)"

lemma lock_inv_step: "lock_step i s t \<Longrightarrow> lock_inv s \<Longrightarrow> lock_inv t"
proof (induction rule: lock_step.induct)
  case (Ask pcs i b)
  then have "((pcs(i := Spinning)) j = Inside) = (pcs j = Inside)" for j by simp
  with Ask.prems show ?case by (cases b) (simp_all add: lock_inv_def)
next
  case (Release pcs i b)
  then show ?case by (cases b) (auto simp: lock_inv_def)
qed (auto simp: lock_inv_def)

lemma lock_reach_inv: "lock_reach s \<Longrightarrow> lock_inv s"
proof (induction rule: lock_reach.induct)
  case Init
  show ?case by (simp add: lock_inv_def)
next
  case (Step s i t)
  then show ?case using lock_inv_step by blast
qed

text \<open>
  C14. However the atomic operations of any number of contexts interleave, two of them are never
  inside the critical section at once, and the flag is set exactly while one is.
\<close>

theorem lock_mutual_exclusion:
  assumes "lock_reach (pcs, b)"
  shows "(pcs i = Inside \<and> pcs j = Inside \<longrightarrow> i = j) \<and> (b \<longleftrightarrow> (\<exists>k. pcs k = Inside))"
  using lock_reach_inv[OF assms] by (auto simp: lock_inv_def split: if_splits)

lemma one_inside_reached: "lock_reach ((\<lambda>_. Outside)(3 := Inside), True)"
proof -
  have "lock_reach ((\<lambda>_. Outside)(3 := Spinning), False)"
    by (rule Step[OF Init, of 3]) (rule Ask, simp)
  from Step[OF this, of 3, OF Acquire] show ?thesis by (simp add: fun_upd_def cong: if_cong)
qed

theorem lock_mutual_exclusion_witness:
  "\<exists>pcs b. lock_reach (pcs, b) \<and> pcs 3 = Inside \<and> pcs 7 \<noteq> Inside \<and> b"
  using one_inside_reached lock_mutual_exclusion[OF one_inside_reached, of 3 7]
  by (intro exI[of _ "(\<lambda>_. Outside)(3 := Inside)"] exI[of _ True]) auto

section \<open>A handler on top of the holder\<close>

lemma handler_stuck: "handler_run s t \<Longrightarrow> fst s 0 = Inside \<Longrightarrow> fst s 1 = Outside \<Longrightarrow> snd s \<Longrightarrow>
    fst t 0 = Inside \<and> fst t 1 \<noteq> Inside \<and> snd t"
proof (induction rule: handler_run.induct)
  case (Handler s t u)
  obtain pcs b where t: "t = (pcs, b)" by (cases t)
  from Handler have "pcs 0 = Inside" "pcs 1 \<noteq> Inside" "b" by (auto simp: t)
  with Handler.hyps(2)[unfolded t] show ?case by (auto elim!: lock_stepE)
qed simp

text \<open>
  C0. An interrupt handler that asks for a lock held by the code it interrupted never gets
  it: the holder cannot run before the handler ends, so every state the handler leads to has
  it spinning and the lock held. The header of \<^verbatim>\<open>sync.rs\<close> rules this out by running with
  interrupts disabled, which \<^verbatim>\<open>sqpoll_main\<close> does not when it takes \<^verbatim>\<open>PROCESSES\<close>.
\<close>

text \<open>
  C35. An interrupt handler that asks for a lock held by the code it interrupted never gets it:
  the holder cannot run before the handler ends, so every state the handler leads to has the
  lock held and the handler outside.
\<close>

theorem handler_deadlocks_on_held_lock:
  assumes "lock_reach (pcs, b)" "pcs 0 = Inside" "pcs 1 = Outside" "handler_run (pcs, b) (pcs', b')"
  shows "pcs' 1 \<noteq> Inside \<and> pcs' 0 = Inside \<and> b'"
proof -
  have "b" using lock_reach_inv[OF assms(1)] assms(2) by (auto simp: lock_inv_def split: if_splits)
  then show ?thesis using handler_stuck[OF assms(4)] assms(2,3) by auto
qed

lemma zero_inside_reached: "lock_reach ((\<lambda>_. Outside)(0 := Inside), True)"
proof -
  have "lock_reach ((\<lambda>_. Outside)(0 := Spinning), False)"
    by (rule Step[OF Init, of 0]) (rule Ask, simp)
  from Step[OF this, of 0, OF Acquire] show ?thesis by (simp add: fun_upd_def cong: if_cong)
qed

lemma handler_asks: "handler_run ((\<lambda>_. Outside)(0 := Inside), True) ((\<lambda>_. Outside)(0 := Inside, 1 := Spinning), True)"
  by (rule Handler[OF Start]) (rule Ask, simp)

theorem handler_deadlocks_on_held_lock_witness:
  "\<exists>pcs b. lock_reach (pcs, b) \<and> pcs 0 = Inside \<and> handler_run (pcs, b) (pcs(1 := Spinning), b) \<and> b"
  using zero_inside_reached handler_asks handler_deadlocks_on_held_lock[OF zero_inside_reached _ _ handler_asks]
  by (intro exI[of _ "(\<lambda>_. Outside)(0 := Inside)"] exI[of _ True]) simp

end
